(* ===== verification/Prelude.thy ===== *)
theory Prelude
  imports Main "HOL-Library.Word" "HOL-Library.List_Lexorder"
begin

text \<open>
  Shared vocabulary of the development: the machine types of the C++ code, the
  representation of byte buffers and pointers, and the lemmas on words and lists that
  the component theories use.

  A \<open>uint8_t const *\<close> is modelled by the list of the bytes that are readable from it
  to the end of the object it points into, so that \<open>p + n\<close> is \<open>drop n p\<close> and
  \<open>p[i]\<close> is \<open>p ! i\<close>.  Reading past the end of the object is undefined in C++ and
  unspecified here.  A \<open>std::string\<close> is the list of its bytes.
\<close>

unbundle bit_operations_syntax

type_synonym byte = "8 word"
type_synonym u32 = "32 word"
type_synonym u64 = "64 word"
type_synonym bytes = "byte list"
type_synonym mem = "byte list"

named_theorems coding_simps \<open>rewrite rules for the byte encodings\<close>
named_theorems invariant_intros \<open>operations preserve the invariant of their component\<close>
named_theorems frame_simps \<open>what an operation leaves unchanged\<close>

section \<open>Byte strings\<close>

text \<open>A C string literal as its bytes (without the terminating NUL).\<close>

definition str :: "string \<Rightarrow> bytes" where
  "str s = map of_char s"

lemma length_str [simp]: "length (str s) = length s"
  by (simp add: str_def)

text \<open>\<open>memcpy (buf + i, xs, length xs)\<close> into a buffer that is long enough.\<close>

definition write_at :: "nat \<Rightarrow> bytes \<Rightarrow> bytes \<Rightarrow> bytes" where
  "write_at i xs buf = take i buf @ xs @ drop (i + length xs) buf"

lemma length_write_at [simp]:
  "i + length xs \<le> length buf \<Longrightarrow> length (write_at i xs buf) = length buf"
  by (simp add: write_at_def)

lemma drop_write_at_same:
  "i \<le> length buf \<Longrightarrow> drop i (write_at i xs buf) = xs @ drop (i + length xs) buf"
  by (simp add: write_at_def)

lemma drop_write_at_after:
  "i \<le> length buf \<Longrightarrow> i + length xs \<le> k \<Longrightarrow> drop k (write_at i xs buf) = drop k buf"
  by (simp add: write_at_def add.commute)

lemma take_write_at_before:
  "k \<le> i \<Longrightarrow> i \<le> length buf \<Longrightarrow> take k (write_at i xs buf) = take k buf"
  by (simp add: write_at_def)

section \<open>Bits of machine words\<close>

text \<open>The position of a bit falls into one of the byte lanes of its word.\<close>

lemma byte_lanes32:
  "n < 32 \<Longrightarrow> n < 8 \<or> (8 \<le> n \<and> n < 16) \<or> (16 \<le> n \<and> n < 24) \<or> (24 \<le> n \<and> n < (32::nat))"
  by linarith

lemma byte_lanes64:
  "n < 64 \<Longrightarrow> n < 8 \<or> (8 \<le> n \<and> n < 16) \<or> (16 \<le> n \<and> n < 24) \<or> (24 \<le> n \<and> n < 32)
   \<or> (32 \<le> n \<and> n < 40) \<or> (40 \<le> n \<and> n < 48) \<or> (48 \<le> n \<and> n < 56) \<or> (56 \<le> n \<and> n < (64::nat))"
  by linarith

lemma bit_byte_beyond [simp]: "8 \<le> n \<Longrightarrow> \<not> bit w n"
  for w :: byte
  by (auto dest: bit_imp_le_length)

lemma ucast_u32_u64 [simp]: "(ucast (ucast x :: u64) :: u32) = x"
  by (rule bit_word_eqI) (simp add: bit_simps)

lemma unat_byte_less: "unat (v :: byte) < 256"
  using unsigned_less [of v] by simp

lemma unat_u32_less: "unat (v :: u32) < 4294967296"
  using unsigned_less [of v] by simp

lemma unat_u64_less: "unat (v :: u64) < 18446744073709551616"
  using unsigned_less [of v] by simp

lemma unat_of_nat_small:
  "n < 2 ^ LENGTH('a) \<Longrightarrow> unat (of_nat n :: 'a::len word) = n"
  by (simp add: unat_of_nat)

lemma of_nat_u32_eq_0: "n < 2 ^ 32 \<Longrightarrow> (of_nat n :: u32) = 0 \<longleftrightarrow> n = 0"
  by (auto simp: word_unat_eq_iff unat_of_nat)

section \<open>Lists\<close>

lemma length_0_or_snoc: "xs = [] \<or> (\<exists>ys y. xs = ys @ [y])"
  by (cases xs rule: rev_cases) auto

lemma list_len_eq_nth:
  "length xs = length ys \<Longrightarrow> (\<And>i. i < length xs \<Longrightarrow> xs ! i = ys ! i) \<Longrightarrow> xs = ys"
  by (rule nth_equalityI)

end
