(* ===== verification/Slice.thy ===== *)
theory Slice
  imports Prelude
begin

text \<open>
  The class \<open>Slice\<close> of \<open>data_structure/slice.h\<close>: a pointer and a size.  The methods
  are related to the byte string the slice denotes, \<open>slice_bytes\<close>.  The other theories
  pass that byte string where the code only reads within the size of a slice, and the
  record where it uses the raw pointer.
\<close>

section \<open>Definitions\<close>

record slice =
  sdata :: mem
  ssize :: nat

text \<open>\<open>strlen\<close>: the number of bytes before the first NUL.\<close>

definition strlen :: "mem \<Rightarrow> nat" where
  "strlen p = length (takeWhile (\<lambda>b. b \<noteq> 0) p)"

text \<open>\<open>memcmp\<close> compares unsigned bytes.  C fixes only the sign of the result.\<close>

fun memcmp :: "mem \<Rightarrow> mem \<Rightarrow> nat \<Rightarrow> int" where
  "memcmp a b 0 = 0"
| "memcmp a b (Suc n) =
     (if hd a < hd b then -1 else if hd b < hd a then 1 else memcmp (tl a) (tl b) n)"

definition Slice_default :: slice where
  "Slice_default = \<lparr>sdata = [], ssize = 0\<rparr>"

definition Slice_cstr :: "mem \<Rightarrow> slice" where
  "Slice_cstr p = \<lparr>sdata = p, ssize = strlen p\<rparr>"

definition Slice_ptr :: "mem \<Rightarrow> nat \<Rightarrow> slice" where
  "Slice_ptr p n = \<lparr>sdata = p, ssize = n\<rparr>"

text \<open>From a \<open>std::string\<close>, whose buffer ends with a NUL after its \<open>size()\<close> bytes.\<close>

definition Slice_string :: "bytes \<Rightarrow> slice" where
  "Slice_string s = \<lparr>sdata = s @ [0], ssize = length s\<rparr>"

definition slice_empty :: "slice \<Rightarrow> bool" where
  "slice_empty s \<longleftrightarrow> ssize s = 0"

text \<open>\<open>None\<close> is a failed assertion.\<close>

definition slice_index :: "slice \<Rightarrow> nat \<Rightarrow> byte option" where
  "slice_index s n = (if n < ssize s then Some (sdata s ! n) else None)"

definition slice_eq :: "slice \<Rightarrow> slice \<Rightarrow> bool" where
  "slice_eq a b \<longleftrightarrow> ssize a = ssize b \<and> memcmp (sdata a) (sdata b) (ssize a) = 0"

definition slice_neq :: "slice \<Rightarrow> slice \<Rightarrow> bool" where
  "slice_neq a b \<longleftrightarrow> \<not> slice_eq a b"

definition slice_clear :: "slice \<Rightarrow> slice" where
  "slice_clear s = s\<lparr>sdata := [], ssize := 0\<rparr>"

definition remove_prefix :: "slice \<Rightarrow> nat \<Rightarrow> slice option" where
  "remove_prefix s n =
     (if n \<le> ssize s then Some (s\<lparr>sdata := drop n (sdata s), ssize := ssize s - n\<rparr>) else None)"

definition slice_ToString :: "slice \<Rightarrow> bytes" where
  "slice_ToString s = take (ssize s) (sdata s)"

definition slice_compare :: "slice \<Rightarrow> slice \<Rightarrow> int" where
  "slice_compare a b =
     (let min_len = (if ssize a < ssize b then ssize a else ssize b);
          ret = memcmp (sdata a) (sdata b) min_len in
      if ret = 0 then (if ssize a < ssize b then -1 else 1) else ret)"

definition starts_with :: "slice \<Rightarrow> slice \<Rightarrow> bool" where
  "starts_with s x \<longleftrightarrow> ssize x \<le> ssize s \<and> memcmp (sdata s) (sdata x) (ssize x) = 0"

text \<open>A slice points to at least as many bytes as its size says.\<close>

definition slice_wf :: "slice \<Rightarrow> bool" where
  "slice_wf s \<longleftrightarrow> ssize s \<le> length (sdata s)"

abbreviation slice_bytes :: "slice \<Rightarrow> bytes" where
  "slice_bytes s \<equiv> slice_ToString s"

section \<open>memcmp\<close>

lemma memcmp_zero_iff:
  "n \<le> length a \<Longrightarrow> n \<le> length b \<Longrightarrow> memcmp a b n = 0 \<longleftrightarrow> take n a = take n b"
proof (induction a b n rule: memcmp.induct)
  case (1 a b)
  then show ?case by simp
next
  case (2 a b n)
  then show ?case by (cases a; cases b) auto
qed

lemma memcmp_less_iff:
  "n \<le> length a \<Longrightarrow> n \<le> length b \<Longrightarrow> memcmp a b n < 0 \<longleftrightarrow> take n a < take n b"
proof (induction a b n rule: memcmp.induct)
  case (1 a b)
  then show ?case by simp
next
  case (2 a b n)
  then show ?case by (cases a; cases b) auto
qed

lemma take_less_imp_less:
  fixes a b :: "'a::linorder list"
  shows "take n a < take n b \<Longrightarrow> a < b"
proof (induction n arbitrary: a b)
  case 0
  then show ?case by simp
next
  case (Suc n)
  then show ?case by (cases a; cases b) auto
qed

lemma take_eq_imp_less_iff:
  fixes a b :: "'a::linorder list"
  shows "take (min (length a) (length b)) a = take (min (length a) (length b)) b \<Longrightarrow>
    a < b \<longleftrightarrow> length a < length b"
proof (induction a arbitrary: b)
  case Nil
  then show ?case by (cases b) auto
next
  case (Cons x a)
  then show ?case by (cases b) auto
qed

lemma take_neq_less_iff:
  fixes a b :: "'a::linorder list"
  assumes "take n a \<noteq> take n b"
  shows "a < b \<longleftrightarrow> take n a < take n b"
  using assms take_less_imp_less [of n a b] take_less_imp_less [of n b a]
  by (metis linorder_less_linear order_less_asym)

section \<open>The methods on the denoted byte strings\<close>

lemma length_slice_bytes [simp]: "slice_wf s \<Longrightarrow> length (slice_bytes s) = ssize s"
  by (simp add: slice_ToString_def slice_wf_def)

lemma Slice_string_simps [simp]:
  "slice_bytes (Slice_string s) = s" "slice_wf (Slice_string s)" "ssize (Slice_string s) = length s"
  by (simp_all add: Slice_string_def slice_ToString_def slice_wf_def)

lemma slice_eq_iff:
  assumes "slice_wf a" and "slice_wf b"
  shows "slice_eq a b \<longleftrightarrow> slice_bytes a = slice_bytes b"
proof -
  have "slice_bytes a = slice_bytes b \<Longrightarrow> ssize a = ssize b"
    using length_slice_bytes [OF assms(1)] length_slice_bytes [OF assms(2)] by simp
  then show ?thesis
    using assms by (auto simp: slice_eq_def memcmp_zero_iff slice_ToString_def slice_wf_def)
qed

lemma slice_index_bytes:
  "slice_wf s \<Longrightarrow> slice_index s n = (if n < ssize s then Some (slice_bytes s ! n) else None)"
  by (simp add: slice_index_def slice_ToString_def)

lemma remove_prefix_bytes:
  "slice_wf s \<Longrightarrow> n \<le> ssize s \<Longrightarrow>
   \<exists>t. remove_prefix s n = Some t \<and> slice_wf t \<and> slice_bytes t = drop n (slice_bytes s)"
  by (simp add: remove_prefix_def slice_ToString_def slice_wf_def drop_take)

lemma starts_with_iff:
  "slice_wf s \<Longrightarrow> slice_wf x \<Longrightarrow>
   starts_with s x \<longleftrightarrow> (\<exists>r. slice_bytes s = slice_bytes x @ r)"
proof -
  assume wf: "slice_wf s" "slice_wf x"
  show ?thesis
  proof
    assume "starts_with s x"
    then have le: "ssize x \<le> ssize s" and "take (ssize x) (sdata s) = slice_bytes x"
      using wf by (auto simp: starts_with_def memcmp_zero_iff slice_ToString_def slice_wf_def)
    then have "slice_bytes s = slice_bytes x @ drop (ssize x) (slice_bytes s)"
      by (metis append_take_drop_id min.absorb1 slice_ToString_def take_take)
    then show "\<exists>r. slice_bytes s = slice_bytes x @ r" by blast
  next
    assume "\<exists>r. slice_bytes s = slice_bytes x @ r"
    then obtain r where r: "slice_bytes s = slice_bytes x @ r" by blast
    then have le: "ssize x \<le> ssize s"
      using wf by (metis le_add1 length_append length_slice_bytes)
    moreover have "take (ssize x) (sdata s) = take (ssize x) (sdata x)"
      using r wf le by (metis append_eq_conv_conj length_slice_bytes min.absorb1 slice_ToString_def take_take)
    ultimately show "starts_with s x"
      using wf by (simp add: starts_with_def memcmp_zero_iff slice_wf_def)
  qed
qed

lemma slice_compare_nonzero: "slice_compare a b \<noteq> 0"
  by (simp add: slice_compare_def Let_def)

lemma slice_compare_less_iff:
  assumes "slice_wf a" and "slice_wf b"
  shows "slice_compare a b < 0 \<longleftrightarrow> slice_bytes a < slice_bytes b"
proof -
  define n where "n = min (ssize a) (ssize b)"
  have n: "n \<le> length (sdata a)" "n \<le> length (sdata b)"
    using assms by (auto simp: n_def slice_wf_def)
  have takes: "take n (slice_bytes a) = take n (sdata a)" "take n (slice_bytes b) = take n (sdata b)"
    by (simp_all add: n_def slice_ToString_def)
  have cmp: "slice_compare a b =
    (let ret = memcmp (sdata a) (sdata b) n in
     if ret = 0 then (if ssize a < ssize b then -1 else 1) else ret)"
    by (simp add: slice_compare_def n_def min_def Let_def)
  show ?thesis
  proof (cases "memcmp (sdata a) (sdata b) n = 0")
    case True
    then have "take n (slice_bytes a) = take n (slice_bytes b)"
      using memcmp_zero_iff [OF n] takes by simp
    then have "slice_bytes a < slice_bytes b \<longleftrightarrow> ssize a < ssize b"
      using take_eq_imp_less_iff [of "slice_bytes a" "slice_bytes b"] assms by (simp add: n_def)
    with True show ?thesis by (simp add: cmp Let_def)
  next
    case False
    then have "take n (slice_bytes a) \<noteq> take n (slice_bytes b)"
      using memcmp_zero_iff [OF n] takes by simp
    with False show ?thesis
      using take_neq_less_iff [of n "slice_bytes a" "slice_bytes b"] memcmp_less_iff [OF n] takes
      by (simp add: cmp Let_def)
  qed
qed

section \<open>Properties\<close>

text \<open>C26. \<open>Slice::compare\<close> decides the lexicographic order of the denoted byte strings by its
  sign, and is positive (never 0) when the two are equal: the three-way result of a
  comparison of equal keys is the same as of a greater first key.\<close>

theorem compare_lexicographic:
  assumes "slice_wf a" and "slice_wf b"
  shows "slice_compare a b < 0 \<and> slice_bytes a < slice_bytes b
    \<or> slice_compare a b > 0 \<and> slice_bytes b \<le> slice_bytes a"
  using slice_compare_less_iff [OF assms] slice_compare_nonzero [of a b] by auto

theorem compare_lexicographic_witness:
  "slice_compare (Slice_string [1, 2]) (Slice_string [1, 2]) > 0"
  using compare_lexicographic [of "Slice_string [1, 2]" "Slice_string [1, 2]"] by simp

end
