(* ===== verification/Coding.thy ===== *)
theory Coding
  imports Prelude
begin

text \<open>
  The byte encodings of \<open>util/coding.h\<close> and \<open>util/coding.cpp\<close>: fixed-width
  little-endian integers, base-128 varints and length-prefixed byte strings, with the
  round trip of every encoder through its decoder and the equivalence of the unrolled
  varint encoder with a recursive reference encoder.
\<close>

section \<open>Definitions\<close>

definition EncodeFixed32 :: "u32 \<Rightarrow> bytes" where
  "EncodeFixed32 value =
     [ucast value, ucast (drop_bit 8 value), ucast (drop_bit 16 value), ucast (drop_bit 24 value)]"

definition EncodeFixed64 :: "u64 \<Rightarrow> bytes" where
  "EncodeFixed64 value =
     [ucast value, ucast (drop_bit 8 value), ucast (drop_bit 16 value), ucast (drop_bit 24 value),
      ucast (drop_bit 32 value), ucast (drop_bit 40 value), ucast (drop_bit 48 value),
      ucast (drop_bit 56 value)]"

definition DecodeFixed32 :: "mem \<Rightarrow> u64" where
  "DecodeFixed32 ptr =
     ucast (ptr ! 0) OR push_bit 8 (ucast (ptr ! 1)) OR push_bit 16 (ucast (ptr ! 2))
     OR push_bit 24 (ucast (ptr ! 3))"

definition DecodeFixed64 :: "mem \<Rightarrow> u64" where
  "DecodeFixed64 ptr =
     ucast (ptr ! 0) OR push_bit 8 (ucast (ptr ! 1)) OR push_bit 16 (ucast (ptr ! 2))
     OR push_bit 24 (ucast (ptr ! 3)) OR push_bit 32 (ucast (ptr ! 4))
     OR push_bit 40 (ucast (ptr ! 5)) OR push_bit 48 (ucast (ptr ! 6))
     OR push_bit 56 (ucast (ptr ! 7))"

text \<open>The bytes \<open>EncodeVarint32\<close> stores at \<open>dst\<close>; the returned pointer is \<open>dst\<close>
  advanced by their number.  \<open>B\<close> is the continuation bit 128.\<close>

definition EncodeVarint32 :: "u32 \<Rightarrow> bytes" where
  "EncodeVarint32 value =
     (if value < 2 ^ 7 then [ucast value]
      else if value < 2 ^ 14 then [ucast (value OR 128), ucast (drop_bit 7 value)]
      else if value < 2 ^ 21 then
        [ucast (value OR 128), ucast (drop_bit 7 value OR 128), ucast (drop_bit 14 value)]
      else if value < 2 ^ 28 then
        [ucast (value OR 128), ucast (drop_bit 7 value OR 128), ucast (drop_bit 14 value OR 128),
         ucast (drop_bit 21 value)]
      else
        [ucast (value OR 128), ucast (drop_bit 7 value OR 128), ucast (drop_bit 14 value OR 128),
         ucast (drop_bit 21 value OR 128), ucast (drop_bit 28 value)])"

text \<open>
  The decoding loops.  \<open>lim\<close> is \<open>limit - p\<close>, the number of bytes the loop may still
  read; the result is the value and the advanced pointer, or \<open>None\<close> for
  \<open>nullptr\<close>.
\<close>

fun GetVarint32Ptr_loop :: "mem \<Rightarrow> nat \<Rightarrow> nat \<Rightarrow> u32 \<Rightarrow> (u32 \<times> mem) option" where
  "GetVarint32Ptr_loop p lim shift result =
     (if shift \<le> 28 \<and> 0 < lim then
        (let byte = ucast (hd p) :: u32; p' = tl p in
         if byte AND 128 \<noteq> 0
         then GetVarint32Ptr_loop p' (lim - 1) (shift + 7) (result OR push_bit shift (byte AND 127))
         else Some (result OR push_bit shift byte, p'))
      else None)"

definition GetVarint32Ptr :: "mem \<Rightarrow> nat \<Rightarrow> (u32 \<times> mem) option" where
  "GetVarint32Ptr p lim = GetVarint32Ptr_loop p lim 0 0"

fun GetVarint64Ptr_loop :: "mem \<Rightarrow> nat \<Rightarrow> nat \<Rightarrow> u64 \<Rightarrow> (u64 \<times> mem) option" where
  "GetVarint64Ptr_loop p lim shift result =
     (if shift \<le> 63 \<and> 0 < lim then
        (let byte = ucast (hd p) :: u64; p' = tl p in
         if byte AND 128 \<noteq> 0
         then GetVarint64Ptr_loop p' (lim - 1) (shift + 7) (result OR push_bit shift (byte AND 127))
         else Some (result OR push_bit shift byte, p'))
      else None)"

definition GetVarint64Ptr :: "mem \<Rightarrow> nat \<Rightarrow> (u64 \<times> mem) option" where
  "GetVarint64Ptr p lim = GetVarint64Ptr_loop p lim 0 0"

text \<open>\<open>VarintLength\<close>: the loop shifts by 7 until the value is below 128.\<close>

function VarintLength_loop :: "u64 \<Rightarrow> nat \<Rightarrow> nat" where
  "VarintLength_loop value len =
     (if 128 \<le> value then VarintLength_loop (drop_bit 7 value) (len + 1) else len)"
  by pat_completeness auto
termination
  by (relation "measure (\<lambda>(value, len). unat value)")
    (auto simp: drop_bit_eq_div unat_div word_le_nat_alt)

definition VarintLength :: "u64 \<Rightarrow> nat" where
  "VarintLength value = VarintLength_loop value 1"

text \<open>The appenders of \<open>coding.cpp\<close> work on a \<open>std::string\<close>, returned extended.\<close>

definition PutFixed32 :: "bytes \<Rightarrow> u32 \<Rightarrow> bytes" where
  "PutFixed32 dst value = dst @ EncodeFixed32 value"

definition PutFixed64 :: "bytes \<Rightarrow> u64 \<Rightarrow> bytes" where
  "PutFixed64 dst value = dst @ EncodeFixed64 value"

definition PutVarint32 :: "bytes \<Rightarrow> u32 \<Rightarrow> bytes" where
  "PutVarint32 dst value = dst @ EncodeVarint32 value"

text \<open>\<open>value.size()\<close> is a \<open>uint64_t\<close> passed as \<open>uint32_t\<close>: it is reduced modulo
  \<open>2 ^ 32\<close>, while all the bytes are appended.\<close>

definition PutLengthPrefixedSlice :: "bytes \<Rightarrow> bytes \<Rightarrow> bytes" where
  "PutLengthPrefixedSlice dst value = PutVarint32 dst (of_nat (length value)) @ value"

text \<open>The getters consume from the front of the input slice; \<open>None\<close> is \<open>false\<close>.
  The caller discards the input after a failure.\<close>

definition GetVarint32 :: "bytes \<Rightarrow> (u32 \<times> bytes) option" where
  "GetVarint32 input = GetVarint32Ptr input (length input)"

definition GetVarint64 :: "bytes \<Rightarrow> (u64 \<times> bytes) option" where
  "GetVarint64 input = GetVarint64Ptr input (length input)"

definition GetLengthPrefixedSlice :: "bytes \<Rightarrow> (bytes \<times> bytes) option" where
  "GetLengthPrefixedSlice input =
     (case GetVarint32 input of
        None \<Rightarrow> None
      | Some (len, input') \<Rightarrow>
          if unat len \<le> length input' then Some (take (unat len) input', drop (unat len) input')
          else None)"

declare GetVarint32Ptr_loop.simps [simp del]
declare GetVarint64Ptr_loop.simps [simp del]
declare VarintLength_loop.simps [simp del]

section \<open>Fixed-width integers\<close>

lemma length_EncodeFixed32 [simp]: "length (EncodeFixed32 v) = 4"
  by (simp add: EncodeFixed32_def)

lemma length_EncodeFixed64 [simp]: "length (EncodeFixed64 v) = 8"
  by (simp add: EncodeFixed64_def)

lemma DecodeFixed64_Encode [simp, coding_simps]: "DecodeFixed64 (EncodeFixed64 v @ r) = v"
proof (rule bit_word_eqI)
  fix n
  assume "n < LENGTH(64)"
  then have "n < 64" by simp
  from byte_lanes64 [OF this] show "bit (DecodeFixed64 (EncodeFixed64 v @ r)) n = bit v n"
    unfolding DecodeFixed64_def EncodeFixed64_def
    by (elim disjE) (simp_all add: bit_simps less_diff_conv2)
qed

lemma DecodeFixed32_Encode [simp, coding_simps]: "DecodeFixed32 (EncodeFixed32 v @ r) = ucast v"
proof (rule bit_word_eqI)
  fix n
  assume "n < LENGTH(64)"
  show "bit (DecodeFixed32 (EncodeFixed32 v @ r)) n = bit (ucast v :: u64) n"
  proof (cases "n < 32")
    case True
    from byte_lanes32 [OF this] show ?thesis
      unfolding DecodeFixed32_def EncodeFixed32_def
      by (elim disjE) (simp_all add: bit_simps less_diff_conv2)
  next
    case False
    then show ?thesis
      unfolding DecodeFixed32_def EncodeFixed32_def
      by (auto simp: bit_simps less_diff_conv2 dest: bit_imp_le_length)
  qed
qed

lemma DecodeFixed64_append:
  "8 \<le> length p \<Longrightarrow> DecodeFixed64 (p @ r) = DecodeFixed64 p"
  by (auto simp: DecodeFixed64_def nth_append)

lemma DecodeFixed32_append:
  "4 \<le> length p \<Longrightarrow> DecodeFixed32 (p @ r) = DecodeFixed32 p"
  by (auto simp: DecodeFixed32_def nth_append)


lemma EncodeFixed64_Decode:
  assumes "length p = 8"
  shows "EncodeFixed64 (DecodeFixed64 p) = p"
proof -
  obtain a b c d e f g h where p: "p = [a, b, c, d, e, f, g, h]"
    using assms by (auto simp: numeral_eq_Suc length_Suc_conv)
  show ?thesis
    unfolding p EncodeFixed64_def DecodeFixed64_def
    by (auto intro!: bit_word_eqI simp: bit_simps)
qed

section \<open>Varints\<close>

text \<open>The reference encoder: groups of seven bits, least significant first, the high bit
  set on every group but the last.\<close>

fun varint :: "nat \<Rightarrow> bytes" where
  "varint n = (if n < 128 then [of_nat n] else (of_nat n OR 128) # varint (n div 128))"

declare varint.simps [simp del]

lemma varint_small: "n < 128 \<Longrightarrow> varint n = [of_nat n]"
  by (subst varint.simps) simp

lemma varint_big: "128 \<le> n \<Longrightarrow> varint n = (of_nat n OR 128) # varint (n div 128)"
  by (subst varint.simps) simp

lemma of_nat_unat_div:
  "(of_nat (unat w div 2 ^ k) :: byte) = ucast (drop_bit k w)"
  for w :: u32
proof -
  have "unat w div 2 ^ k = unat (drop_bit k w)"
    unfolding unat_drop_bit_eq by (simp add: drop_bit_eq_div)
  then show ?thesis by simp
qed

lemmas of_nat_unat_groups =
  of_nat_unat_div [of _ 7, simplified] of_nat_unat_div [of _ 14, simplified]
  of_nat_unat_div [of _ 21, simplified] of_nat_unat_div [of _ 28, simplified]

text \<open>The unrolled encoder computes the reference encoding.\<close>

lemma EncodeVarint32_varint: "EncodeVarint32 v = varint (unat v)"
proof -
  have bound: "unat v < 4294967296"
    by (rule unat_u32_less)
  have cmp: "v < 2 ^ 7 \<longleftrightarrow> unat v < 128" "v < 2 ^ 14 \<longleftrightarrow> unat v < 16384"
    "v < 2 ^ 21 \<longleftrightarrow> unat v < 2097152" "v < 2 ^ 28 \<longleftrightarrow> unat v < 268435456"
    by (simp_all add: word_less_nat_alt)
  have div: "unat v div 128 div 128 = unat v div 16384"
    "unat v div 16384 div 128 = unat v div 2097152"
    "unat v div 2097152 div 128 = unat v div 268435456"
    by (simp_all add: div_mult2_eq [symmetric])
  show ?thesis
    using bound unfolding EncodeVarint32_def cmp
    by (simp add: varint_small varint_big div of_nat_unat_groups unsigned_or_eq)
qed

lemma length_varint_pos: "0 < length (varint n)"
  by (subst varint.simps) simp

lemma length_varint_le: "n < 2 ^ (7 * k) \<Longrightarrow> 0 < k \<Longrightarrow> length (varint n) \<le> k"
proof (induction k arbitrary: n)
  case 0
  then show ?case by simp
next
  case (Suc k)
  show ?case
  proof (cases "n < 128")
    case True
    then show ?thesis by (simp add: varint_small)
  next
    case False
    with Suc.prems have "0 < k" by (cases k) auto
    moreover from Suc.prems(1) have "n div 128 < 2 ^ (7 * k)"
      by (simp add: power_add less_mult_imp_div_less)
    ultimately show ?thesis
      using False Suc.IH [of "n div 128"] by (simp add: varint_big)
  qed
qed

lemma VarintLength_loop_varint: "VarintLength_loop v len + 1 = len + length (varint (unat v))"
proof (induction v len rule: VarintLength_loop.induct)
  case (1 v len)
  show ?case
  proof (cases "128 \<le> v")
    case True
    then have "128 \<le> unat v" by (simp add: word_le_nat_alt)
    moreover have "unat (drop_bit 7 v) = unat v div 128"
      unfolding unat_drop_bit_eq by (simp add: drop_bit_eq_div)
    ultimately show ?thesis
      using True "1.IH" by (simp add: VarintLength_loop.simps [of v len] varint_big)
  next
    case False
    then have "unat v < 128" by (simp add: word_le_nat_alt)
    with False show ?thesis by (simp add: VarintLength_loop.simps [of v len] varint_small)
  qed
qed

lemma VarintLength_varint: "VarintLength v = length (varint (unat v))"
  using VarintLength_loop_varint [of v 1] by (simp add: VarintLength_def)

text \<open>One group of the decoding loops: the continuation bit and the seven payload bits.\<close>

lemma bit_word_128: "bit (128 :: 'a::len word) n \<longleftrightarrow> n = 7 \<and> 7 < LENGTH('a)"
proof -
  have "(128 :: 'a word) = 2 ^ 7" by simp
  then show ?thesis by (simp only: bit_simps) auto
qed

lemma bit_int_128: "bit (128 :: int) n \<longleftrightarrow> n = 7"
proof -
  have "(128 :: int) = 2 ^ 7" by simp
  then show ?thesis by (simp only: bit_simps) auto
qed

lemma bit_int_127: "bit (127 :: int) n \<longleftrightarrow> n < 7"
proof -
  have "(127 :: int) = mask 7" by (simp add: mask_eq_exp_minus_1)
  then show ?thesis by (simp only: bit_simps) auto
qed

lemma group_continues: "(ucast (of_nat n OR 128 :: byte) :: 'a::len word) AND 128 \<noteq> 0"
  if "8 \<le> LENGTH('a)"
proof
  assume zero: "(ucast (of_nat n OR 128 :: byte) :: 'a word) AND 128 = 0"
  have "bit ((ucast (of_nat n OR 128 :: byte) :: 'a word) AND 128) 7"
    using that by (simp add: bit_simps bit_word_128)
  then show False by (simp only: zero bit_0_eq bot_apply bot_bool_def)
qed

lemma group_stops: "(of_nat n :: 'a::len word) AND 128 = 0"
  if "n < 128"
proof -
  have "take_bit 7 n = n" using that by (simp add: take_bit_nat_eq_self)
  then have "\<not> bit n 7" by (metis bit_take_bit_iff less_irrefl)
  then show ?thesis
    by (auto intro!: bit_word_eqI simp: bit_simps bit_int_128)
qed

lemma group_join:
  "result OR push_bit shift ((ucast (of_nat n OR 128 :: byte) :: 'a::len word) AND 127)
     OR push_bit (shift + 7) (of_nat (n div 128))
   = result OR push_bit shift (of_nat n)"
proof (rule bit_word_eqI)
  fix i
  assume "i < LENGTH('a)"
  have shifted: "bit (n div 128) j = bit n (7 + j)" for j
    using bit_drop_bit_eq [of 7 n] by (simp add: drop_bit_eq_div fun_eq_iff)
  have pos: "7 + (i - (shift + 7)) = i - shift" if "shift + 7 \<le> i"
    using that by simp
  show "bit (result OR push_bit shift (ucast (of_nat n OR 128 :: byte) AND 127)
     OR push_bit (shift + 7) (of_nat (n div 128))) i = bit (result OR push_bit shift (of_nat n)) i"
    using \<open>i < LENGTH('a)\<close>
    by (cases "shift + 7 \<le> i") (auto simp: bit_simps bit_int_128 bit_int_127 shifted pos)
qed

lemma ucast_of_nat_byte: "n < 256 \<Longrightarrow> (ucast (of_nat n :: byte) :: 'a::len word) = of_nat n"
  by (simp add: unsigned_of_nat take_bit_nat_eq_self)

text \<open>
  Both decoding loops are instances of one scheme, for a word of at least eight bits and a
  largest shift that admits every group of the word.
\<close>

locale varint_decoder =
  fixes loop :: "mem \<Rightarrow> nat \<Rightarrow> nat \<Rightarrow> 'a::len word \<Rightarrow> ('a word \<times> mem) option"
    and top :: nat
  assumes loop_eq: "loop p lim shift result =
     (if shift \<le> top \<and> 0 < lim then
        (let byte = ucast (hd p) :: 'a word; p' = tl p in
         if byte AND 128 \<noteq> 0
         then loop p' (lim - 1) (shift + 7) (result OR push_bit shift (byte AND 127))
         else Some (result OR push_bit shift byte, p'))
      else None)"
    and width: "8 \<le> LENGTH('a)"
    and groups: "7 * k + 7 < LENGTH('a) \<Longrightarrow> 7 * k + 7 \<le> top"
begin

text \<open>
  Decoding what the reference encoder wrote: the value still to come fits into the bits
  above the shift.
\<close>

lemma loop_varint:
  assumes "n < 2 ^ (LENGTH('a) - 7 * k)" and "7 * k \<le> top" and "length (varint n) \<le> lim"
  shows "loop (varint n @ r) lim (7 * k) result =
    Some (result OR push_bit (7 * k) (of_nat n), r)"
  using assms
proof (induction n arbitrary: k lim result rule: varint.induct)
  case (1 n)
  show ?case
  proof (cases "n < 128")
    case True
    with "1.prems" show ?thesis
      by (subst loop_eq) (simp add: varint_small group_stops ucast_of_nat_byte Let_def)
  next
    case False
    then have "7 < LENGTH('a) - 7 * k"
      using "1.prems"(1) power_increasing [of "LENGTH('a) - 7 * k" 7 "2::nat"]
      by (cases "LENGTH('a) - 7 * k \<le> 7") auto
    then have fits: "7 * k + 7 < LENGTH('a)" by linarith
    then have k: "7 * Suc k \<le> top" and exp: "LENGTH('a) - 7 * k = 7 + (LENGTH('a) - 7 * Suc k)"
      using groups [OF fits] by auto
    have small: "n div 128 < 2 ^ (LENGTH('a) - 7 * Suc k)"
      using "1.prems"(1) unfolding exp by (simp add: power_add less_mult_imp_div_less)
    have lim: "length (varint (n div 128)) \<le> lim - 1" "0 < lim"
      using "1.prems"(3) False by (auto simp: varint_big)
    have "loop (varint n @ r) lim (7 * k) result =
      loop (varint (n div 128) @ r) (lim - 1) (7 * Suc k)
        (result OR push_bit (7 * k) (ucast (of_nat n OR 128 :: byte) AND 127))"
      using False k lim(2) group_continues [OF width, of n]
      by (subst loop_eq) (simp add: varint_big add.commute Let_def)
    also have "\<dots> = Some (result OR push_bit (7 * k) (ucast (of_nat n OR 128 :: byte) AND 127)
        OR push_bit (7 * Suc k) (of_nat (n div 128)), r)"
      using "1.IH" [OF False small k lim(1)] by (simp add: or.assoc)
    also have "\<dots> = Some (result OR push_bit (7 * k) (of_nat n), r)"
      using group_join [of result "7 * k" n] by (simp add: add.commute)
    finally show ?thesis .
  qed
qed

text \<open>A decoder that succeeds has consumed at least one byte and returns a suffix.\<close>

lemma loop_suffix:
  "loop p lim shift result = Some (v, q) \<Longrightarrow> lim \<le> length p \<Longrightarrow>
   \<exists>m. 0 < m \<and> m \<le> lim \<and> q = drop m p"
proof (induction lim arbitrary: p shift result)
  case 0
  then show ?case by (subst (asm) loop_eq) simp
next
  case (Suc lim)
  then obtain b p' where p: "p = b # p'" by (cases p) auto
  show ?case
  proof (cases "(ucast b :: 'a word) AND 128 = 0")
    case True
    with Suc.prems p have "q = drop 1 p"
      by (subst (asm) loop_eq) (auto simp: Let_def split: if_splits)
    then show ?thesis by (intro exI [of _ 1]) simp
  next
    case False
    with Suc.prems p
    have "loop p' lim (shift + 7) (result OR push_bit shift (ucast b AND 127)) = Some (v, q)"
      by (subst (asm) loop_eq) (auto simp: Let_def split: if_splits)
    then obtain m where "0 < m \<and> m \<le> lim \<and> q = drop m p'"
      using Suc.IH [of p'] Suc.prems(2) p by fastforce
    then show ?thesis using p by (intro exI [of _ "Suc m"]) simp
  qed
qed

end

interpretation varint32: varint_decoder GetVarint32Ptr_loop 28
  by unfold_locales (simp_all add: GetVarint32Ptr_loop.simps)

interpretation varint64: varint_decoder GetVarint64Ptr_loop 63
  by unfold_locales (simp_all add: GetVarint64Ptr_loop.simps)

section \<open>Round trips\<close>

lemma GetVarint32Ptr_varint:
  assumes "n < 2 ^ 32" and "length (varint n) \<le> lim"
  shows "GetVarint32Ptr (varint n @ r) lim = Some (of_nat n, r)"
  using varint32.loop_varint [of n 0 lim r 0] assms by (simp add: GetVarint32Ptr_def)

lemma GetVarint64Ptr_varint:
  assumes "n < 2 ^ 64" and "length (varint n) \<le> lim"
  shows "GetVarint64Ptr (varint n @ r) lim = Some (of_nat n, r)"
  using varint64.loop_varint [of n 0 lim r 0] assms by (simp add: GetVarint64Ptr_def)

lemma length_EncodeVarint32: "length (EncodeVarint32 v) \<le> 5"
  using length_varint_le [of "unat v" 5] unat_u32_less [of v]
  by (simp add: EncodeVarint32_varint)

lemma GetVarint32Ptr_Encode:
  "length (EncodeVarint32 v) \<le> lim \<Longrightarrow> GetVarint32Ptr (EncodeVarint32 v @ r) lim = Some (v, r)"
  using GetVarint32Ptr_varint [of "unat v" lim r] unat_u32_less [of v]
  by (simp add: EncodeVarint32_varint)

lemma GetVarint32_Encode [simp, coding_simps]: "GetVarint32 (EncodeVarint32 v @ r) = Some (v, r)"
  by (simp add: GetVarint32_def GetVarint32Ptr_Encode)

lemma GetVarint32_suffix:
  "GetVarint32 input = Some (v, rest) \<Longrightarrow> \<exists>m. 0 < m \<and> m \<le> length input \<and> rest = drop m input"
  unfolding GetVarint32_def GetVarint32Ptr_def by (rule varint32.loop_suffix) simp_all

lemma GetLengthPrefixedSlice_suffix:
  assumes "GetLengthPrefixedSlice input = Some (s, rest)"
  shows "length rest < length input"
  using assms GetVarint32_suffix [of input]
  by (fastforce simp: GetLengthPrefixedSlice_def split: option.splits if_splits)

lemma PutLengthPrefixedSlice_append:
  "PutLengthPrefixedSlice dst value = dst @ PutLengthPrefixedSlice [] value"
  by (simp add: PutLengthPrefixedSlice_def PutVarint32_def)

lemma GetLengthPrefixedSlice_Put [coding_simps]:
  "length value < 2 ^ 32 \<Longrightarrow>
   GetLengthPrefixedSlice (PutLengthPrefixedSlice [] value @ r) = Some (value, r)"
  by (simp add: GetLengthPrefixedSlice_def PutLengthPrefixedSlice_def PutVarint32_def
      unat_of_nat_small)

section \<open>Properties\<close>

text \<open>\<open>EncodeFixed64\<close> and \<open>DecodeFixed64\<close> are inverse to each other: decoding ignores what
  follows the eight bytes, and every eight bytes are the encoding of the value they decode to.\<close>

theorem fixed64_bijection:
  "DecodeFixed64 (EncodeFixed64 v @ r) = v
   \<and> (length p = 8 \<longrightarrow> EncodeFixed64 (DecodeFixed64 p) = p)"
  using EncodeFixed64_Decode by simp

theorem fixed64_bijection_witness:
  "EncodeFixed64 (DecodeFixed64 [1, 2, 3, 4, 5, 6, 7, 8]) = [1, 2, 3, 4, 5, 6, 7, 8]"
  using fixed64_bijection [of 0 "[]" "[1, 2, 3, 4, 5, 6, 7, 8]"] by simp

text \<open>The unrolled \<open>EncodeVarint32\<close> writes the base-128 encoding of the reference encoder,
  in as many bytes (at most five) as \<open>VarintLength\<close> computes for the value.\<close>

theorem varint32_encoding:
  "EncodeVarint32 v = varint (unat v) \<and> length (EncodeVarint32 v) = VarintLength (ucast v)
   \<and> length (EncodeVarint32 v) \<le> 5"
proof -
  have "unat (ucast v :: u64) = unat v"
    using unat_u32_less [of v] by (simp add: unsigned_ucast_eq take_bit_nat_eq_self)
  then show ?thesis
    using length_EncodeVarint32 [of v] by (simp add: EncodeVarint32_varint VarintLength_varint)
qed

text \<open>C27. Both varint decoders read back what the encoder wrote, whatever follows it, as long as
  the limit admits the whole encoding; the pointer returned is the byte after it.\<close>

theorem varint_roundtrip:
  "GetVarint32 (PutVarint32 [] v @ r) = Some (v, r)
   \<and> GetVarint64 (EncodeVarint32 v @ r) = Some (ucast v, r)"
proof -
  have "unat v < 2 ^ 64" using unat_u32_less [of v] by simp
  then show ?thesis
    using GetVarint64Ptr_varint [of "unat v" "length (EncodeVarint32 v @ r)" r]
    by (simp add: PutVarint32_def GetVarint64_def EncodeVarint32_varint [symmetric])
qed

text \<open>A length-prefixed slice shorter than 4 GiB is read back with the rest of the input
  left over; a successful read always consumes at least one byte.\<close>

theorem length_prefixed_roundtrip:
  assumes "length s < 2 ^ 32"
  shows "GetLengthPrefixedSlice (PutLengthPrefixedSlice [] s @ r) = Some (s, r)
    \<and> (GetLengthPrefixedSlice input = Some (t, rest) \<longrightarrow> length rest < length input)"
  using assms GetLengthPrefixedSlice_suffix by (simp add: GetLengthPrefixedSlice_Put)

theorem length_prefixed_roundtrip_witness:
  "GetLengthPrefixedSlice (PutLengthPrefixedSlice [] [7, 8] @ [9]) = Some ([7, 8], [9])"
  using length_prefixed_roundtrip [of "[7, 8]" "[9]"] by simp

end
