(* ===== verification/Comparator.thy ===== *)
theory Comparator
  imports Slice
begin

text \<open>
  The interface \<open>Comparator\<close> (\<open>comparator/comparator.h\<close>) as a locale, and the default
  \<open>BytewiseComparatorImpl\<close> (\<open>comparator/comparator.cpp\<close>) as its interpretation.
  \<open>None\<close> as a result is a failed assertion.
\<close>

section \<open>The bytewise comparator\<close>

definition Bytewise_Compare :: "bytes \<Rightarrow> bytes \<Rightarrow> int" where
  "Bytewise_Compare a b = slice_compare (Slice_string a) (Slice_string b)"

definition Bytewise_Name :: bytes where
  "Bytewise_Name = str ''leveldb.BytewiseComparator''"

text \<open>
  The loop that finds the first difference compares \<open>(*start)[i]\<close>, a \<open>char\<close> (signed on
  x86-64), with \<open>limit[i]\<close>, a \<open>uint8_t\<close>: both are promoted to \<open>int\<close>.
\<close>

function diff_index :: "bytes \<Rightarrow> bytes \<Rightarrow> nat \<Rightarrow> nat \<Rightarrow> nat" where
  "diff_index start limit min_length i =
     (if i < min_length \<and> sint (start ! i) = uint (limit ! i)
      then diff_index start limit min_length (i + 1) else i)"
  by pat_completeness auto
termination
  by (relation "measure (\<lambda>(start, limit, min_length, i). min_length - i)") auto

definition Bytewise_FindShortestSeparator :: "bytes \<Rightarrow> bytes \<Rightarrow> bytes option" where
  "Bytewise_FindShortestSeparator start limit =
     (let min_length = min (length start) (length limit);
          i = diff_index start limit min_length 0 in
      if min_length \<le> i then Some start
      else let diff_byte = start ! i in
        if diff_byte < 0xFF \<and> unat diff_byte + 1 < unat (limit ! i) then
          (let start' = take (i + 1) (start[i := start ! i + 1]) in
           if Bytewise_Compare start' limit < 0 then Some start' else None)
        else Some start)"

function FindShortSuccessor_loop :: "bytes \<Rightarrow> nat \<Rightarrow> bytes" where
  "FindShortSuccessor_loop key i =
     (if i < length key then
        (let byte = key ! i in
         if byte \<noteq> 0xFF then take (i + 1) (key[i := byte + 1])
         else FindShortSuccessor_loop key (i + 1))
      else key)"
  by pat_completeness auto
termination
  by (relation "measure (\<lambda>(key, i). length key - i)") auto

definition Bytewise_FindShortSuccessor :: "bytes \<Rightarrow> bytes" where
  "Bytewise_FindShortSuccessor key = FindShortSuccessor_loop key 0"

declare diff_index.simps [simp del]
declare FindShortSuccessor_loop.simps [simp del]

section \<open>The contract of a comparator\<close>

text \<open>
  What the clients rely on: \<open>Compare a b < 0\<close> is a strict total order and a result of 0
  is given for equal keys only; \<open>FindShortestSeparator\<close> moves its argument within
  \<open>[start, limit)\<close>; \<open>FindShortSuccessor\<close> never makes a key smaller.  The laws do not
  promise that equal keys compare as 0.
\<close>

locale key_order =
  fixes Compare :: "bytes \<Rightarrow> bytes \<Rightarrow> int"
  assumes Compare_irrefl: "\<not> Compare a a < 0"
    and Compare_trans: "Compare a b < 0 \<Longrightarrow> Compare b c < 0 \<Longrightarrow> Compare a c < 0"
    and Compare_total: "a \<noteq> b \<Longrightarrow> Compare a b < 0 \<or> Compare b a < 0"
    and Compare_zero: "Compare a b = 0 \<Longrightarrow> a = b"
begin

lemma Compare_asym: "Compare a b < 0 \<Longrightarrow> \<not> Compare b a < 0"
  using Compare_irrefl Compare_trans by blast

lemma Compare_not_less_trans:
  "\<not> Compare a b < 0 \<Longrightarrow> \<not> Compare b c < 0 \<Longrightarrow> \<not> Compare a c < 0"
  by (metis Compare_total Compare_trans)

lemma Compare_pos: "a \<noteq> b \<Longrightarrow> 0 < Compare a b \<longleftrightarrow> Compare b a < 0"
  using Compare_total [of a b] Compare_asym [of a b] Compare_zero [of a b]
  by (cases "Compare a b" "0::int" rule: linorder_cases) auto

end

locale comparator = key_order Compare
  for Compare :: "bytes \<Rightarrow> bytes \<Rightarrow> int" +
  fixes FindShortestSeparator :: "bytes \<Rightarrow> bytes \<Rightarrow> bytes option"
    and FindShortSuccessor :: "bytes \<Rightarrow> bytes"
  assumes separator_Some: "\<exists>r. FindShortestSeparator start limit = Some r"
    and separator_between: "FindShortestSeparator start limit = Some r \<Longrightarrow>
      r = start \<or> Compare start r < 0 \<and> Compare r limit < 0"
    and successor_ge: "FindShortSuccessor key = key \<or> Compare key (FindShortSuccessor key) < 0"

section \<open>The bytewise comparator meets the contract\<close>

lemma Bytewise_Compare_less: "Bytewise_Compare a b < 0 \<longleftrightarrow> a < b"
  by (simp add: Bytewise_Compare_def slice_compare_less_iff)

lemma Bytewise_Compare_nonzero: "Bytewise_Compare a b \<noteq> 0"
  by (simp add: Bytewise_Compare_def slice_compare_nonzero)

lemma Bytewise_Compare_cases:
  "Bytewise_Compare a b < 0 \<and> a < b \<or> 0 < Bytewise_Compare a b \<and> b \<le> a"
  using Bytewise_Compare_less [of a b] Bytewise_Compare_nonzero [of a b] by auto

lemma sint_eq_uint_byte: "sint a = uint b \<Longrightarrow> a = b"
  for a b :: byte
proof -
  assume "sint a = uint b"
  then have "word_of_int (sint a) = (word_of_int (uint b) :: byte)" by simp
  then show ?thesis by simp
qed

lemma diff_index_ge: "i \<le> diff_index start limit m i"
proof (induction start limit m i rule: diff_index.induct)
  case (1 start limit m i)
  then show ?case by (subst diff_index.simps) (auto simp: Suc_le_eq)
qed

lemma diff_index_le: "i \<le> m \<Longrightarrow> diff_index start limit m i \<le> m"
proof (induction start limit m i rule: diff_index.induct)
  case (1 start limit m i)
  then show ?case by (subst diff_index.simps) auto
qed

lemma diff_index_prefix:
  assumes "m \<le> length start" and "m \<le> length limit" and "i \<le> m"
    and "take i start = take i limit"
  shows "take (diff_index start limit m i) start = take (diff_index start limit m i) limit"
  using assms
proof (induction start limit m i rule: diff_index.induct)
  case (1 start limit m i)
  show ?case
  proof (cases "i < m \<and> sint (start ! i) = uint (limit ! i)")
    case True
    then have "start ! i = limit ! i" by (auto intro: sint_eq_uint_byte)
    with True "1.prems" have "take (i + 1) start = take (i + 1) limit"
      by (simp add: take_Suc_conv_app_nth)
    with True "1.IH" "1.prems" show ?thesis by (subst (1 2) diff_index.simps) auto
  next
    case False
    with "1.prems" show ?thesis by (subst (1 2) diff_index.simps) auto
  qed
qed

lemma diff_index_stops:
  "i \<le> k \<Longrightarrow> sint (start ! k) \<noteq> uint (limit ! k) \<Longrightarrow> diff_index start limit m i \<le> k"
proof (induction start limit m i rule: diff_index.induct)
  case (1 start limit m i)
  then show ?case by (subst diff_index.simps) (cases "i = k"; auto simp: Suc_le_eq)
qed

lemma sint_neq_uint_high: "0x80 \<le> b \<Longrightarrow> sint b \<noteq> uint b"
  for b :: byte
proof -
  assume "0x80 \<le> b"
  then have "128 \<le> uint b" by (simp add: word_le_def)
  moreover have "sint b < 128" using sint_lt [of b] by simp
  ultimately show ?thesis by simp
qed

lemma append_less_iff:
  fixes p :: "'a::linorder list"
  shows "p @ xs < p @ ys \<longleftrightarrow> xs < ys"
  by (induction p) auto

lemma byte_plus_1_less:
  fixes a b :: byte
  assumes "unat a + 1 < unat b"
  shows "a \<noteq> 0xFF" and "a + 1 < b"
proof -
  have "unat b < 256" by (rule unat_byte_less)
  with assms have small: "unat a + 1 < 256" by simp
  then show "a \<noteq> 0xFF" by auto
  have "unat (a + 1) = unat a + 1"
    using small by (simp add: unat_word_ariths)
  with assms show "a + 1 < b" by (simp add: word_less_nat_alt)
qed

lemma byte_less_plus_1: "a \<noteq> 0xFF \<Longrightarrow> a < a + 1"
  for a :: byte
proof -
  assume "a \<noteq> 0xFF"
  then have "unat a \<noteq> 255" by (simp add: word_unat_eq_iff)
  moreover have "unat a < 256" by (rule unat_byte_less)
  ultimately have "unat (a + 1) = unat a + 1" by (simp add: unat_word_ariths)
  then show ?thesis by (simp add: word_less_nat_alt)
qed

text \<open>A string that is cut after position \<open>i\<close> and has its byte there increased.\<close>

lemma bump_greater:
  fixes s :: bytes
  assumes "i < length s" and "s ! i \<noteq> 0xFF"
  shows "s < take (i + 1) (s[i := s ! i + 1])"
proof -
  have s: "s = take i s @ s ! i # drop (Suc i) s"
    using assms(1) by (simp add: id_take_nth_drop)
  have "s ! i < s ! i + 1"
    using assms(2) by (rule byte_less_plus_1)
  then have "take i s @ s ! i # drop (Suc i) s < take i s @ [s ! i + 1]"
    by (simp add: append_less_iff)
  moreover have "take (i + 1) (s[i := s ! i + 1]) = take i s @ [s ! i + 1]"
    using assms(1) by (simp add: take_Suc_conv_app_nth)
  ultimately show ?thesis using s by simp
qed

lemma bump_less:
  fixes s l :: bytes
  assumes "i < length s" and "i < length l" and "take i s = take i l" and "s ! i + 1 < l ! i"
  shows "take (i + 1) (s[i := s ! i + 1]) < l"
proof -
  have "l = take i l @ l ! i # drop (Suc i) l"
    using assms(2) by (simp add: id_take_nth_drop)
  moreover have "take (i + 1) (s[i := s ! i + 1]) = take i l @ [s ! i + 1]"
    using assms(1,3) by (simp add: take_Suc_conv_app_nth)
  ultimately show ?thesis
    using assms(4) append_less_iff [of "take i l" "[s ! i + 1]" "l ! i # drop (Suc i) l"] by simp
qed

section \<open>Interpretation\<close>

lemma Bytewise_FindShortestSeparator_cases:
  "Bytewise_FindShortestSeparator start limit = Some start \<or>
   (\<exists>r. Bytewise_FindShortestSeparator start limit = Some r \<and> start < r \<and> r < limit
      \<and> length r \<le> length start)"
proof -
  define m where "m = min (length start) (length limit)"
  define i where "i = diff_index start limit m 0"
  show ?thesis
  proof (cases "i < m \<and> unat (start ! i) + 1 < unat (limit ! i)")
    case True
    define r where "r = take (i + 1) (start[i := start ! i + 1])"
    have len: "i < length start" "i < length limit"
      using True by (auto simp: m_def)
    have pre: "take i start = take i limit"
      unfolding i_def by (rule diff_index_prefix) (auto simp: m_def)
    have "start < r" unfolding r_def
      using bump_greater [OF len(1)] byte_plus_1_less(1) True by blast
    moreover have "r < limit" unfolding r_def
      using bump_less [OF len pre] byte_plus_1_less(2) True by blast
    moreover have "start ! i < 0xFF"
      using True unat_byte_less [of "limit ! i"] by (simp add: word_less_nat_alt)
    moreover have "Bytewise_FindShortestSeparator start limit =
      (if m \<le> i then Some start
       else if start ! i < 0xFF \<and> unat (start ! i) + 1 < unat (limit ! i)
         then (if Bytewise_Compare r limit < 0 then Some r else None) else Some start)"
      unfolding Bytewise_FindShortestSeparator_def Let_def m_def i_def r_def by (rule refl)
    ultimately have "Bytewise_FindShortestSeparator start limit = Some r"
      using True by (simp add: Bytewise_Compare_less)
    moreover have "length r \<le> length start" by (simp add: r_def)
    ultimately show ?thesis using \<open>start < r\<close> \<open>r < limit\<close> by blast
  next
    case False
    then have "Bytewise_FindShortestSeparator start limit = Some start"
      by (auto simp: Bytewise_FindShortestSeparator_def Let_def m_def [symmetric] i_def [symmetric])
    then show ?thesis by blast
  qed
qed

lemma FindShortSuccessor_loop_cases:
  "FindShortSuccessor_loop key i = key \<or>
   key < FindShortSuccessor_loop key i \<and> length (FindShortSuccessor_loop key i) \<le> length key"
proof (induction key i rule: FindShortSuccessor_loop.induct)
  case (1 key i)
  then show ?case
    by (subst (1 2 3) FindShortSuccessor_loop.simps) (auto simp: Let_def bump_greater [simplified])
qed

lemma Bytewise_key_order: "key_order Bytewise_Compare"
  by unfold_locales (auto simp: Bytewise_Compare_less Bytewise_Compare_nonzero)

interpretation bytewise: comparator
  Bytewise_Compare Bytewise_FindShortestSeparator Bytewise_FindShortSuccessor
proof -
  show "comparator Bytewise_Compare Bytewise_FindShortestSeparator Bytewise_FindShortSuccessor"
    unfolding comparator_def comparator_axioms_def Bytewise_Compare_less
      Bytewise_FindShortSuccessor_def
    using Bytewise_key_order Bytewise_FindShortestSeparator_cases FindShortSuccessor_loop_cases
    by (metis option.inject)
qed

section \<open>Properties\<close>

text \<open>\<open>BytewiseComparatorImpl::FindShortestSeparator\<close> never fails its assertion; it leaves
  \<open>start\<close> alone or replaces it by a string that is no longer and lies strictly between
  \<open>start\<close> and \<open>limit\<close>.\<close>

theorem separator_within_bounds:
  "Bytewise_FindShortestSeparator start limit = Some start
   \<or> (\<exists>r. Bytewise_FindShortestSeparator start limit = Some r
        \<and> Bytewise_Compare start r < 0 \<and> Bytewise_Compare r limit < 0 \<and> length r \<le> length start)"
  using Bytewise_FindShortestSeparator_cases [of start limit] by (simp add: Bytewise_Compare_less)

text \<open>A byte of 0x80 or above that both strings share ends the common prefix for
  \<open>FindShortestSeparator\<close>, because a signed \<open>char\<close> is compared with a \<open>uint8_t\<close>: the start
  key is then returned as it is, however far apart the rest of the strings is.\<close>

theorem separator_high_byte_not_shortened:
  assumes "0x80 \<le> b"
  shows "Bytewise_FindShortestSeparator (p @ b # s) (p @ b # l) = Some (p @ b # s)"
proof -
  define m where "m = min (length (p @ b # s)) (length (p @ b # l))"
  define i where "i = diff_index (p @ b # s) (p @ b # l) m 0"
  have "i \<le> length p"
    unfolding i_def using sint_neq_uint_high [OF assms] by (intro diff_index_stops) auto
  then have "(p @ b # s) ! i = (p @ b # l) ! i"
    by (cases "i = length p") (auto simp: nth_append)
  then show ?thesis
    unfolding Bytewise_FindShortestSeparator_def Let_def m_def [symmetric] i_def [symmetric] by simp
qed

theorem separator_high_byte_not_shortened_witness:
  "Bytewise_FindShortestSeparator [0x80, 1] [0x80, 9] = Some [0x80, 1]"
  using separator_high_byte_not_shortened [of "0x80" "[]" "[1]" "[9]"] by simp

end
