(* ===== verification/Status.thy ===== *)
theory Status
  imports Slice Coding
begin

text \<open>
  The class \<open>Status\<close> (\<open>util/status.h\<close>, \<open>util/status.cpp\<close>).  The state is the byte array
  of the code: four bytes of message length (host order, little-endian on x86-64), the
  code, the message; \<open>None\<close> is the null pointer of an OK status.
\<close>

section \<open>Definitions\<close>

datatype Code = kOk | kNotFound | kCorruption | kNotSupported | kInvalidArgument | kIOError
  | kOtherCode byte

fun Code_byte :: "Code \<Rightarrow> byte" where
  "Code_byte kOk = 0"
| "Code_byte kNotFound = 1"
| "Code_byte kCorruption = 2"
| "Code_byte kNotSupported = 3"
| "Code_byte kInvalidArgument = 4"
| "Code_byte kIOError = 5"
| "Code_byte (kOtherCode b) = b"

definition Code_of_byte :: "byte \<Rightarrow> Code" where
  "Code_of_byte b =
     (if b = 0 then kOk else if b = 1 then kNotFound else if b = 2 then kCorruption
      else if b = 3 then kNotSupported else if b = 4 then kInvalidArgument
      else if b = 5 then kIOError else kOtherCode b)"

record Status =
  status_state :: "mem option"

definition Status_OK :: Status where
  "Status_OK = \<lparr>status_state = None\<rparr>"

text \<open>The constructor: its body, and before it the assertion that the code is one of an error.  The lengths are
  truncated to \<open>uint32_t\<close> before use.\<close>

definition error_status :: "Code \<Rightarrow> bytes \<Rightarrow> bytes \<Rightarrow> Status" where
  "error_status code msg msg2 =
     (let len1 = of_nat (length msg) :: u32;
          len2 = of_nat (length msg2) :: u32;
          size = len1 + (if len2 \<noteq> 0 then 2 + len2 else 0) in
      \<lparr>status_state = Some (EncodeFixed32 size @ [Code_byte code] @ take (unat len1) msg
         @ (if len2 \<noteq> 0 then str '': '' @ take (unat len2) msg2 else []))\<rparr>)"

definition Status_new :: "Code \<Rightarrow> bytes \<Rightarrow> bytes \<Rightarrow> Status option" where
  "Status_new code msg msg2 = (if code = kOk then None else Some (error_status code msg msg2))"

text \<open>The static functions, whose codes pass the assertion.\<close>

definition Status_NotFound :: "bytes \<Rightarrow> bytes \<Rightarrow> Status" where
  "Status_NotFound msg msg2 = the (Status_new kNotFound msg msg2)"

definition Status_Corruption :: "bytes \<Rightarrow> bytes \<Rightarrow> Status" where
  "Status_Corruption msg msg2 = the (Status_new kCorruption msg msg2)"

definition Status_NotSupported :: "bytes \<Rightarrow> bytes \<Rightarrow> Status" where
  "Status_NotSupported msg msg2 = the (Status_new kNotSupported msg msg2)"

definition Status_InvalidArgument :: "bytes \<Rightarrow> bytes \<Rightarrow> Status" where
  "Status_InvalidArgument msg msg2 = the (Status_new kInvalidArgument msg msg2)"

definition Status_IOError :: "bytes \<Rightarrow> bytes \<Rightarrow> Status" where
  "Status_IOError msg msg2 = the (Status_new kIOError msg msg2)"

definition Status_ok :: "Status \<Rightarrow> bool" where
  "Status_ok s \<longleftrightarrow> status_state s = None"

definition Status_code :: "Status \<Rightarrow> Code" where
  "Status_code s = (case status_state s of None \<Rightarrow> kOk | Some st \<Rightarrow> Code_of_byte (st ! 4))"

definition IsNotFound :: "Status \<Rightarrow> bool" where
  "IsNotFound s \<longleftrightarrow> Status_code s = kNotFound"

definition IsCorruption :: "Status \<Rightarrow> bool" where
  "IsCorruption s \<longleftrightarrow> Status_code s = kCorruption"

definition IsNotSupported :: "Status \<Rightarrow> bool" where
  "IsNotSupported s \<longleftrightarrow> Status_code s = kNotSupported"

definition IsInvalidArgument :: "Status \<Rightarrow> bool" where
  "IsInvalidArgument s \<longleftrightarrow> Status_code s = kInvalidArgument"

definition IsIOError :: "Status \<Rightarrow> bool" where
  "IsIOError s \<longleftrightarrow> Status_code s = kIOError"

text \<open>\<open>CopyState\<close> reads the length from the first four bytes and copies \<open>size + 5\<close> bytes.\<close>

definition CopyState :: "mem \<Rightarrow> mem" where
  "CopyState st = (let size = ucast (DecodeFixed32 st) :: u32 in take (unat (size + 5)) st)"

definition Status_copy :: "Status \<Rightarrow> Status" where
  "Status_copy rhs = \<lparr>status_state = map_option CopyState (status_state rhs)\<rparr>"

text \<open>The move constructor and the move assignment: the pair of the two objects after it.\<close>

definition Status_move_construct :: "Status \<Rightarrow> Status \<times> Status" where
  "Status_move_construct rhs = (\<lparr>status_state = status_state rhs\<rparr>, rhs\<lparr>status_state := None\<rparr>)"

definition Status_move_assign :: "Status \<Rightarrow> Status \<Rightarrow> Status \<times> Status" where
  "Status_move_assign this rhs = (this\<lparr>status_state := status_state rhs\<rparr>, rhs\<lparr>status_state := status_state this\<rparr>)"

text \<open>The label \<open>ToString\<close> prints before the message; the code of an unknown byte is
  printed as a signed decimal by \<open>snprintf\<close>, a parameter here.\<close>

fun Code_label :: "(byte \<Rightarrow> bytes) \<Rightarrow> Code \<Rightarrow> bytes" where
  "Code_label unknown kOk = str ''OK''"
| "Code_label unknown kNotFound = str ''NotFound: ''"
| "Code_label unknown kCorruption = str ''Corruption: ''"
| "Code_label unknown kNotSupported = str ''Not implemented: ''"
| "Code_label unknown kInvalidArgument = str ''Invalid argument: ''"
| "Code_label unknown kIOError = str ''IO error: ''"
| "Code_label unknown (kOtherCode b) = unknown b"

definition Status_ToString :: "(byte \<Rightarrow> bytes) \<Rightarrow> Status \<Rightarrow> bytes" where
  "Status_ToString unknown s =
     (case status_state s of
        None \<Rightarrow> str ''OK''
      | Some st \<Rightarrow>
          (let length = ucast (DecodeFixed32 st) :: u32 in
           Code_label unknown (Status_code s) @ take (unat length) (drop 5 st)))"

section \<open>Codes\<close>

lemma Code_of_byte_inverse [simp]:
  "c \<notin> range kOtherCode \<Longrightarrow> Code_of_byte (Code_byte c) = c"
  by (cases c) (auto simp: Code_of_byte_def)

lemma Status_code_error [simp]:
  "c \<notin> range kOtherCode \<Longrightarrow> Status_code (error_status c m1 m2) = c"
  by (simp add: Status_code_def error_status_def Let_def nth_append EncodeFixed32_def)

lemma Status_ok_error [simp]: "\<not> Status_ok (error_status c m1 m2)"
  by (simp add: Status_ok_def error_status_def Let_def)

lemma Status_new_error [simp]: "c \<noteq> kOk \<Longrightarrow> Status_new c m1 m2 = Some (error_status c m1 m2)"
  by (simp add: Status_new_def)

lemma Status_ok_OK [simp]: "Status_ok Status_OK"
  by (simp add: Status_ok_def Status_OK_def)

lemmas status_kind_simps =
  Status_NotFound_def Status_Corruption_def Status_NotSupported_def Status_InvalidArgument_def
  Status_IOError_def IsNotFound_def IsCorruption_def IsNotSupported_def IsInvalidArgument_def
  IsIOError_def

lemma not_ok_kinds [simp]:
  "\<not> Status_ok (Status_NotFound m1 m2)" "\<not> Status_ok (Status_Corruption m1 m2)"
  "\<not> Status_ok (Status_NotSupported m1 m2)" "\<not> Status_ok (Status_InvalidArgument m1 m2)"
  "\<not> Status_ok (Status_IOError m1 m2)"
  by (simp_all add: status_kind_simps)

lemma is_own_kind [simp]:
  "IsNotFound (Status_NotFound m1 m2)" "IsCorruption (Status_Corruption m1 m2)"
  "IsNotSupported (Status_NotSupported m1 m2)" "IsInvalidArgument (Status_InvalidArgument m1 m2)"
  "IsIOError (Status_IOError m1 m2)"
  by (simp_all add: status_kind_simps image_iff)

section \<open>Messages\<close>

text \<open>The message a status carries: both parts, separated when the second is not empty.\<close>

definition status_message :: "bytes \<Rightarrow> bytes \<Rightarrow> bytes" where
  "status_message m1 m2 = m1 @ (if m2 = [] then [] else str '': '' @ m2)"

lemma error_status_state:
  assumes "length m1 + length m2 + 7 < 2 ^ 32"
  shows "status_state (error_status c m1 m2) =
    Some (EncodeFixed32 (of_nat (length (status_message m1 m2))) @ [Code_byte c] @ status_message m1 m2)"
proof -
  have small: "length m1 < 2 ^ 32" "length m2 < 2 ^ 32" using assms by auto
  have zero: "(of_nat (length m2) :: u32) = 0 \<longleftrightarrow> m2 = []"
    using of_nat_u32_eq_0 [OF small(2)] by simp
  show ?thesis
    using small
    by (simp add: error_status_def Let_def zero status_message_def unat_of_nat_small)
qed

lemma Status_copy_error:
  assumes "length m1 + length m2 + 7 < 2 ^ 32"
  shows "Status_copy (error_status c m1 m2) = error_status c m1 m2"
proof -
  define m where "m = status_message m1 m2"
  have len: "length m + 5 < 2 ^ 32" using assms by (simp add: m_def status_message_def)
  then have "unat (of_nat (length m) + 5 :: u32) = length m + 5"
    by (simp add: unat_word_ariths unat_of_nat)
  then have "CopyState (EncodeFixed32 (of_nat (length m)) @ [Code_byte c] @ m)
    = EncodeFixed32 (of_nat (length m)) @ [Code_byte c] @ m"
    by (simp add: CopyState_def Let_def)
  then show ?thesis
    using error_status_state [OF assms, of c] by (simp add: Status_copy_def m_def)
qed

section \<open>Properties\<close>

text \<open>An error status keeps its code and its message: exactly its own predicate holds of it,
  it is not OK, \<open>ToString\<close> prints the label of the code followed by both message parts, and a
  copy made by \<open>CopyState\<close> is equal to the original.\<close>

theorem status_keeps_code_and_message:
  assumes "length m1 + length m2 + 7 < 2 ^ 32" and "c \<notin> range kOtherCode" and "c \<noteq> kOk"
  shows "\<exists>s. Status_new c m1 m2 = Some s \<and> \<not> Status_ok s \<and> Status_code s = c
    \<and> Status_ToString u s = Code_label u c @ status_message m1 m2 \<and> Status_copy s = s"
proof -
  have "length (status_message m1 m2) < 2 ^ 32"
    using assms(1) by (simp add: status_message_def)
  then have "Status_ToString u (error_status c m1 m2) = Code_label u c @ status_message m1 m2"
    using assms(2) error_status_state [OF assms(1), of c]
    by (simp add: Status_ToString_def Let_def unat_of_nat_small)
  then show ?thesis
    using Status_copy_error [OF assms(1)] assms(2,3) by simp
qed

theorem status_keeps_code_and_message_witness:
  "\<exists>s. Status_new kIOError (str ''a'') (str ''b'') = Some s \<and> Status_ToString (\<lambda>_. []) s = str ''IO error: a: b''"
  using status_keeps_code_and_message [of "str ''a''" "str ''b''" kIOError "\<lambda>_. []"]
  by (simp add: status_message_def str_def image_iff)

end
