(* ===== verification/Status_Objects.thy ===== *)
theory Status_Objects
  imports Status "HOL-Library.Monad_Syntax"
begin

text \<open>
  \<open>Status\<close> objects and the arrays they own (\<open>util/status.h\<close>, \<open>util/status.cpp\<close>): constructors, copies,
  moves and the destructor on an explicit heap, where a copy allocates, an assignment frees and a move
  passes the pointer on.  \<open>Status\<close> has the same operations on values; here they are shown to be what the
  pointers implement.
\<close>

section \<open>Definitions\<close>

text \<open>
  The arrays of \<open>new char[]\<close>, \<open>None\<close> for a place that is free, and \<open>state_\<close> of every live object.
  \<open>pick\<close> stands for the allocator: it chooses where the next array goes.
\<close>

record status_heap =
  sh_arrays :: "mem option list"
  sh_objects :: "nat \<Rightarrow> nat option option"

definition new_array :: "(mem option list \<Rightarrow> nat) \<Rightarrow> mem option list \<Rightarrow> mem \<Rightarrow> nat \<times> mem option list" where
  "new_array pick h a = (let p = pick h in (p, if p < length h then h[p := Some a] else h @ [Some a]))"

text \<open>\<open>delete[]\<close>: nothing happens for the null pointer; freeing what is not allocated is undefined.\<close>

definition delete_array :: "mem option list \<Rightarrow> nat option \<Rightarrow> mem option list option" where
  "delete_array h ptr =
     (case ptr of
        None \<Rightarrow> Some h
      | Some p \<Rightarrow> if p < length h \<and> h ! p \<noteq> None then Some (h[p := None]) else None)"

definition read_array :: "mem option list \<Rightarrow> nat \<Rightarrow> mem option" where
  "read_array h p = (if p < length h then h ! p else None)"

text \<open>\<open>(rhs.state_ == nullptr) ? nullptr : CopyState(rhs.state_)\<close>.\<close>

definition copy_pointer :: "(mem option list \<Rightarrow> nat) \<Rightarrow> mem option list \<Rightarrow> nat option \<Rightarrow> (nat option \<times> mem option list) option" where
  "copy_pointer pick h ptr =
     (case ptr of
        None \<Rightarrow> Some (None, h)
      | Some p \<Rightarrow> do { a \<leftarrow> read_array h p; let (q, h) = new_array pick h (CopyState a) in Some (Some q, h) })"

datatype status_op =
    Op_default nat
  | Op_construct nat Code bytes bytes
  | Op_copy nat nat
  | Op_assign nat nat
  | Op_move nat nat
  | Op_move_assign nat nat
  | Op_destroy nat

fun status_exec :: "(mem option list \<Rightarrow> nat) \<Rightarrow> status_heap \<Rightarrow> status_op \<Rightarrow> status_heap option" where
  "status_exec pick st (Op_default x) = Some (st\<lparr>sh_objects := (sh_objects st)(x \<mapsto> None)\<rparr>)"
| "status_exec pick st (Op_construct x code m1 m2) =
     do {
       s \<leftarrow> Status_new code m1 m2;
       a \<leftarrow> status_state s;
       let (p, h) = new_array pick (sh_arrays st) a in
       Some (st\<lparr>sh_arrays := h, sh_objects := (sh_objects st)(x \<mapsto> Some p)\<rparr>)
     }"
| "status_exec pick st (Op_copy x rhs) =
     do {
       ptr \<leftarrow> sh_objects st rhs;
       (q, h) \<leftarrow> copy_pointer pick (sh_arrays st) ptr;
       Some (st\<lparr>sh_arrays := h, sh_objects := (sh_objects st)(x \<mapsto> q)\<rparr>)
     }"
| "status_exec pick st (Op_assign x rhs) =
     do {
       own \<leftarrow> sh_objects st x;
       ptr \<leftarrow> sh_objects st rhs;
       if own \<noteq> ptr
       then do {
         h \<leftarrow> delete_array (sh_arrays st) own;
         (q, h) \<leftarrow> copy_pointer pick h ptr;
         Some (st\<lparr>sh_arrays := h, sh_objects := (sh_objects st)(x \<mapsto> q)\<rparr>)
       }
       else Some st
     }"
| "status_exec pick st (Op_move x rhs) =
     do {
       ptr \<leftarrow> sh_objects st rhs;
       Some (st\<lparr>sh_objects := (sh_objects st)(x \<mapsto> ptr, rhs \<mapsto> None)\<rparr>)
     }"
| "status_exec pick st (Op_move_assign x rhs) =
     do {
       own \<leftarrow> sh_objects st x;
       ptr \<leftarrow> sh_objects st rhs;
       Some (st\<lparr>sh_objects := (sh_objects st)(x \<mapsto> ptr, rhs \<mapsto> own)\<rparr>)
     }"
| "status_exec pick st (Op_destroy x) =
     do {
       own \<leftarrow> sh_objects st x;
       h \<leftarrow> delete_array (sh_arrays st) own;
       Some (st\<lparr>sh_arrays := h, sh_objects := (sh_objects st)(x := None)\<rparr>)
     }"

fun status_run :: "(mem option list \<Rightarrow> nat) \<Rightarrow> status_heap \<Rightarrow> status_op list \<Rightarrow> status_heap option" where
  "status_run pick st [] = Some st"
| "status_run pick st (e # es) = do { st \<leftarrow> status_exec pick st e; status_run pick st es }"

definition status_init :: status_heap where
  "status_init = \<lparr>sh_arrays = [], sh_objects = Map.empty\<rparr>"

section \<open>Specification\<close>

text \<open>The codes of the five static functions that make an error.\<close>

definition error_codes :: "Code set" where
  "error_codes = {kNotFound, kCorruption, kNotSupported, kInvalidArgument, kIOError}"

text \<open>The same calls on values.  A constructor needs storage that is not in use, every other call a
  live object; the messages of a status fit in 32 bits.\<close>

fun status_spec :: "(nat \<rightharpoonup> Status) \<Rightarrow> status_op \<Rightarrow> (nat \<rightharpoonup> Status)" where
  "status_spec v (Op_default x) = v(x \<mapsto> Status_OK)"
| "status_spec v (Op_construct x code m1 m2) = v(x := Status_new code m1 m2)"
| "status_spec v (Op_copy x rhs) = v(x := v rhs)"
| "status_spec v (Op_assign x rhs) = v(x := v rhs)"
| "status_spec v (Op_move x rhs) = v(x := v rhs, rhs \<mapsto> Status_OK)"
| "status_spec v (Op_move_assign x rhs) = v(x := v rhs, rhs := v x)"
| "status_spec v (Op_destroy x) = v(x := None)"

fun op_allowed :: "(nat \<rightharpoonup> Status) \<Rightarrow> status_op \<Rightarrow> bool" where
  "op_allowed v (Op_default x) \<longleftrightarrow> v x = None"
| "op_allowed v (Op_construct x code m1 m2) \<longleftrightarrow> v x = None \<and> code \<in> error_codes \<and> length m1 + length m2 + 7 < 2 ^ 32"
| "op_allowed v (Op_copy x rhs) \<longleftrightarrow> v x = None \<and> v rhs \<noteq> None"
| "op_allowed v (Op_assign x rhs) \<longleftrightarrow> v x \<noteq> None \<and> v rhs \<noteq> None"
| "op_allowed v (Op_move x rhs) \<longleftrightarrow> v x = None \<and> v rhs \<noteq> None"
| "op_allowed v (Op_move_assign x rhs) \<longleftrightarrow> v x \<noteq> None \<and> v rhs \<noteq> None"
| "op_allowed v (Op_destroy x) \<longleftrightarrow> v x \<noteq> None"

fun ops_allowed :: "(nat \<rightharpoonup> Status) \<Rightarrow> status_op list \<Rightarrow> bool" where
  "ops_allowed v [] \<longleftrightarrow> True"
| "ops_allowed v (e # es) \<longleftrightarrow> op_allowed v e \<and> ops_allowed (status_spec v e) es"

text \<open>The form of \<open>state_\<close> that the comment in \<open>status.h\<close> gives: length, code, message.\<close>

definition state_wf :: "mem \<Rightarrow> bool" where
  "state_wf a \<longleftrightarrow> 5 \<le> length a \<and> length a < 2 ^ 32 \<and> ucast (DecodeFixed32 a) = (of_nat (length a - 5) :: u32)
     \<and> Code_of_byte (a ! 4) \<in> error_codes"

definition status_wf :: "Status \<Rightarrow> bool" where
  "status_wf s \<longleftrightarrow> (case status_state s of None \<Rightarrow> True | Some a \<Rightarrow> state_wf a)"

definition pick_ok :: "(mem option list \<Rightarrow> nat) \<Rightarrow> bool" where
  "pick_ok pick \<longleftrightarrow> (\<forall>h. pick h \<le> length h \<and> (pick h < length h \<longrightarrow> h ! pick h = None))"

definition pointer_value :: "mem option list \<Rightarrow> nat option \<Rightarrow> Status" where
  "pointer_value h ptr = \<lparr>status_state = (case ptr of None \<Rightarrow> None | Some p \<Rightarrow> read_array h p)\<rparr>"

definition status_abs :: "status_heap \<Rightarrow> nat \<rightharpoonup> Status" where
  "status_abs st x = map_option (pointer_value (sh_arrays st)) (sh_objects st x)"

text \<open>Every array belongs to exactly one object, and every object's pointer is null or to an array of
  that form.\<close>

definition owned :: "status_heap \<Rightarrow> bool" where
  "owned st \<longleftrightarrow>
     (\<forall>x p. sh_objects st x = Some (Some p) \<longrightarrow> (\<exists>a. read_array (sh_arrays st) p = Some a \<and> state_wf a))
     \<and> (\<forall>x y p. sh_objects st x = Some (Some p) \<longrightarrow> sh_objects st y = Some (Some p) \<longrightarrow> x = y)
     \<and> (\<forall>p. read_array (sh_arrays st) p \<noteq> None \<longrightarrow> (\<exists>x. sh_objects st x = Some (Some p)))"

section \<open>Arrays\<close>

lemma read_new:
  assumes "pick_ok pick" and "new_array pick h a = (p, h')"
  shows "read_array h p = None" "read_array h' q = (if q = p then Some a else read_array h q)"
proof -
  have p: "p = pick h" "h' = (if p < length h then h[p := Some a] else h @ [Some a])"
    using assms(2) by (auto simp: new_array_def Let_def)
  have "p \<le> length h" "p < length h \<Longrightarrow> h ! p = None" using assms(1) p(1) by (auto simp: pick_ok_def)
  then show "read_array h p = None" "read_array h' q = (if q = p then Some a else read_array h q)"
    unfolding p(2) by (auto simp: read_array_def nth_append)
qed

lemma read_delete:
  assumes "read_array h p = Some a"
  shows "\<exists>h'. delete_array h (Some p) = Some h' \<and> (\<forall>q. read_array h' q = (if q = p then None else read_array h q))"
  using assms by (auto simp: delete_array_def read_array_def split: if_splits)

lemma delete_null [simp]: "delete_array h None = Some h"
  by (simp add: delete_array_def)

lemma CopyState_wf: "state_wf a \<Longrightarrow> CopyState a = a"
proof -
  assume a: "state_wf a"
  then have "unat (of_nat (length a - 5) + 5 :: u32) = length a"
    by (simp add: state_wf_def unat_word_ariths unat_of_nat)
  moreover have "ucast (DecodeFixed32 a) = (of_nat (length a - 5) :: u32)" using a by (simp add: state_wf_def)
  ultimately show ?thesis by (simp add: CopyState_def Let_def)
qed

lemma error_status_wf:
  assumes "length m1 + length m2 + 7 < 2 ^ 32" and "c \<in> error_codes"
  shows "\<exists>a. Status_new c m1 m2 = Some \<lparr>status_state = Some a\<rparr> \<and> state_wf a"
proof -
  have "length (status_message m1 m2) + 5 < 2 ^ 32" using assms by (simp add: status_message_def)
  moreover have "error_status c m1 m2 = \<lparr>status_state =
      Some (EncodeFixed32 (of_nat (length (status_message m1 m2))) @ [Code_byte c] @ status_message m1 m2)\<rparr>"
    using error_status_state [OF assms(1), of c] by (cases "error_status c m1 m2") simp
  ultimately show ?thesis
    using assms(2) by (auto simp: state_wf_def error_codes_def nth_append Code_of_byte_def)
qed

section \<open>The operations\<close>

lemma owned_pointer:
  assumes "owned st" and "sh_objects st x = Some ptr"
  shows "ptr = None \<or> (\<exists>p a. ptr = Some p \<and> read_array (sh_arrays st) p = Some a \<and> state_wf a)"
  using assms by (cases ptr) (auto simp: owned_def)

lemma status_abs_update:
  assumes "\<And>z p. z \<noteq> x \<Longrightarrow> sh_objects st z = Some (Some p) \<Longrightarrow> read_array h p = read_array (sh_arrays st) p"
  shows "status_abs (st\<lparr>sh_arrays := h, sh_objects := (sh_objects st)(x := y)\<rparr>)
    = (status_abs st)(x := map_option (pointer_value h) y)"
proof (rule ext)
  fix z
  have "pointer_value h ptr = pointer_value (sh_arrays st) ptr" if "z \<noteq> x" "sh_objects st z = Some ptr" for ptr
    using assms [of z] that by (cases ptr) (simp_all add: pointer_value_def)
  then show "status_abs (st\<lparr>sh_arrays := h, sh_objects := (sh_objects st)(x := y)\<rparr>) z
    = ((status_abs st)(x := map_option (pointer_value h) y)) z"
    by (cases "sh_objects st z") (auto simp: status_abs_def)
qed

text \<open>A fresh array for an object without one, and an array freed with its object.\<close>

lemma owned_new:
  assumes "pick_ok pick" and "owned st" and "\<forall>p. sh_objects st x \<noteq> Some (Some p)" and "state_wf a"
    and "new_array pick (sh_arrays st) a = (p, h)"
  defines "st' \<equiv> st\<lparr>sh_arrays := h, sh_objects := (sh_objects st)(x \<mapsto> Some p)\<rparr>"
  shows "owned st'" and "status_abs st' = (status_abs st)(x \<mapsto> \<lparr>status_state = Some a\<rparr>)"
proof -
  note new = read_new [OF assms(1,5)]
  have other: "sh_objects st y \<noteq> Some (Some p)" for y
    using assms(2) new(1) by (force simp: owned_def)
  have "\<exists>z. sh_objects st' z = Some (Some q)" if q: "read_array h q \<noteq> None" for q
  proof (cases "q = p")
    case False
    then obtain z where "sh_objects st z = Some (Some q)" using q assms(2) new(2) by (auto simp: owned_def)
    then show ?thesis using assms(3) by (intro exI [of _ z]) (auto simp: st'_def)
  qed (auto simp: st'_def)
  then show "owned st'" using assms(2-4) other new by (auto simp: owned_def st'_def)
  have "read_array h q = read_array (sh_arrays st) q" if "sh_objects st z = Some (Some q)" for z q
    using other [of z] that new(2) by auto
  then have "status_abs st' = (status_abs st)(x := map_option (pointer_value h) (Some (Some p)))"
    unfolding st'_def by (rule status_abs_update)
  then show "status_abs st' = (status_abs st)(x \<mapsto> \<lparr>status_state = Some a\<rparr>)"
    using new(2) by (simp add: pointer_value_def)
qed

lemma owned_update:
  assumes "owned st" and "\<forall>p. y \<noteq> Some (Some p)"
    and "\<And>z q. sh_objects st z = Some (Some q) \<Longrightarrow> z \<noteq> x \<Longrightarrow> read_array h q = read_array (sh_arrays st) q"
    and "\<And>q. read_array h q \<noteq> None \<Longrightarrow> read_array (sh_arrays st) q \<noteq> None \<and> sh_objects st x \<noteq> Some (Some q)"
  shows "owned (st\<lparr>sh_arrays := h, sh_objects := (sh_objects st)(x := y)\<rparr>)"
  unfolding owned_def
proof (intro conjI allI impI)
  fix q assume "read_array (sh_arrays (st\<lparr>sh_arrays := h, sh_objects := (sh_objects st)(x := y)\<rparr>)) q \<noteq> None"
  then have "read_array (sh_arrays st) q \<noteq> None" "sh_objects st x \<noteq> Some (Some q)" using assms(4) by auto
  then obtain z where "sh_objects st z = Some (Some q)" "z \<noteq> x" using assms(1) unfolding owned_def by metis
  then show "\<exists>z. sh_objects (st\<lparr>sh_arrays := h, sh_objects := (sh_objects st)(x := y)\<rparr>) z = Some (Some q)"
    by (intro exI [of _ z]) simp
qed (use assms(1-3) in \<open>auto simp: owned_def split: if_splits\<close>)

lemma owned_delete:
  assumes "owned st" and "sh_objects st x = Some ptr" and "y = None \<or> y = Some None"
  obtains h where "delete_array (sh_arrays st) ptr = Some h"
    "owned (st\<lparr>sh_arrays := h, sh_objects := (sh_objects st)(x := y)\<rparr>)"
    "status_abs (st\<lparr>sh_arrays := h, sh_objects := (sh_objects st)(x := y)\<rparr>)
      = (status_abs st)(x := map_option (\<lambda>_. Status_OK) y)"
    "\<And>q z. sh_objects st z = Some (Some q) \<Longrightarrow> z \<noteq> x \<Longrightarrow> read_array h q = read_array (sh_arrays st) q"
proof (cases ptr)
  case None
  then have "owned (st\<lparr>sh_arrays := sh_arrays st, sh_objects := (sh_objects st)(x := y)\<rparr>)"
    using assms by (intro owned_update [OF assms(1)]) auto
  moreover have "status_abs (st\<lparr>sh_arrays := sh_arrays st, sh_objects := (sh_objects st)(x := y)\<rparr>)
      = (status_abs st)(x := map_option (\<lambda>_. Status_OK) y)"
    using assms(3) status_abs_update [of x st "sh_arrays st" y] by (auto simp: pointer_value_def Status_OK_def)
  ultimately show thesis using that [of "sh_arrays st"] None by simp
next
  case (Some p)
  then obtain a where "read_array (sh_arrays st) p = Some a" using owned_pointer [OF assms(1,2)] by auto
  from read_delete [OF this] obtain h where
    h: "delete_array (sh_arrays st) (Some p) = Some h" "\<And>q. read_array h q = (if q = p then None else read_array (sh_arrays st) q)"
    by blast
  have other: "q \<noteq> p" if "sh_objects st z = Some (Some q)" "z \<noteq> x" for z q
    using that assms(1,2) Some by (auto simp: owned_def)
  have "owned (st\<lparr>sh_arrays := h, sh_objects := (sh_objects st)(x := y)\<rparr>)"
    using assms Some h(2) other by (intro owned_update [OF assms(1)]) (auto split: if_splits)
  moreover have "status_abs (st\<lparr>sh_arrays := h, sh_objects := (sh_objects st)(x := y)\<rparr>)
      = (status_abs st)(x := map_option (\<lambda>_. Status_OK) y)"
    using assms(3) status_abs_update [of x st h y] h(2) other by (auto simp: pointer_value_def Status_OK_def)
  ultimately show thesis using that [of h] Some h other by simp
qed

lemma abs_None [simp]: "status_abs st x = None \<longleftrightarrow> sh_objects st x = None"
  by (simp add: status_abs_def)

lemma set_null:
  assumes "owned st" and "\<forall>p. sh_objects st x \<noteq> Some (Some p)"
  shows "owned (st\<lparr>sh_objects := (sh_objects st)(x \<mapsto> None)\<rparr>)"
    and "status_abs (st\<lparr>sh_objects := (sh_objects st)(x \<mapsto> None)\<rparr>) = (status_abs st)(x \<mapsto> Status_OK)"
proof -
  show "owned (st\<lparr>sh_objects := (sh_objects st)(x \<mapsto> None)\<rparr>)"
    using owned_update [OF assms(1), of "Some None" x "sh_arrays st"] assms(2) by simp
  show "status_abs (st\<lparr>sh_objects := (sh_objects st)(x \<mapsto> None)\<rparr>) = (status_abs st)(x \<mapsto> Status_OK)"
    using status_abs_update [of x st "sh_arrays st" "Some None"] by (simp add: pointer_value_def Status_OK_def)
qed

text \<open>Moving pointers between objects.\<close>

definition exchange :: "nat \<Rightarrow> nat \<Rightarrow> nat \<Rightarrow> nat" where
  "exchange x y z = (if z = x then y else if z = y then x else z)"

lemma bij_exchange: "bij (exchange x y)"
  by (rule o_bij [of "exchange x y"]) (auto simp: exchange_def fun_eq_iff)

lemma owned_permute:
  assumes "owned st" and "bij f" and "\<And>z. g z = sh_objects st (f z) \<or> g z = Some None \<and> (\<forall>p. sh_objects st (f z) \<noteq> Some (Some p))"
  shows "owned (st\<lparr>sh_objects := g\<rparr>)"
proof -
  have g: "g z = Some (Some p) \<longleftrightarrow> sh_objects st (f z) = Some (Some p)" for z p using assms(3) [of z] by auto
  have "\<exists>z. f z = y" for y using assms(2) by (metis bij_pointE)
  moreover have "f x = f y \<Longrightarrow> x = y" for x y using bij_is_inj [OF assms(2)] by (auto dest: injD)
  ultimately show ?thesis using assms(1) unfolding owned_def by (simp add: g) metis
qed

lemma copy_value:
  assumes "pick_ok pick" and "owned st" and "sh_objects st rhs = Some ptr" and "\<forall>p. sh_objects st x \<noteq> Some (Some p)"
  shows "\<exists>q h. copy_pointer pick (sh_arrays st) ptr = Some (q, h)
    \<and> owned (st\<lparr>sh_arrays := h, sh_objects := (sh_objects st)(x \<mapsto> q)\<rparr>)
    \<and> status_abs (st\<lparr>sh_arrays := h, sh_objects := (sh_objects st)(x \<mapsto> q)\<rparr>) = (status_abs st)(x := status_abs st rhs)"
proof (cases ptr)
  case None
  then have "status_abs st rhs = Some Status_OK"
    using assms(3) by (simp add: status_abs_def pointer_value_def Status_OK_def)
  then show ?thesis using None set_null [OF assms(2,4)] by (simp add: copy_pointer_def)
next
  case (Some p)
  with owned_pointer [OF assms(2,3)] obtain a where a: "read_array (sh_arrays st) p = Some a" "state_wf a" by auto
  obtain q h where new: "new_array pick (sh_arrays st) a = (q, h)" by fastforce
  have "status_abs st rhs = Some \<lparr>status_state = Some a\<rparr>"
    using assms(3) Some a(1) by (simp add: status_abs_def pointer_value_def)
  then show ?thesis
    using owned_new [OF assms(1,2,4) a(2) new] Some a CopyState_wf [OF a(2)] new by (simp add: copy_pointer_def)
qed

lemma assign_exec:
  assumes pick: "pick_ok pick" and own: "owned st" and x: "sh_objects st x = Some own" and rhs: "sh_objects st rhs = Some ptr"
    and ne: "own \<noteq> ptr"
  shows "\<exists>st'. status_exec pick st (Op_assign x rhs) = Some st' \<and> owned st'
    \<and> status_abs st' = (status_abs st)(x := status_abs st rhs)"
proof -
  let ?d = "\<lambda>h. st\<lparr>sh_arrays := h, sh_objects := (sh_objects st)(x \<mapsto> None)\<rparr>"
  obtain h where h: "delete_array (sh_arrays st) own = Some h" "owned (?d h)"
    "status_abs (?d h) = (status_abs st)(x := Some Status_OK)"
    by (rule owned_delete [OF own x, of "Some None"]) simp_all
  have rx: "rhs \<noteq> x" using x rhs ne by auto
  have "sh_objects (?d h) rhs = Some ptr" "\<forall>p. sh_objects (?d h) x \<noteq> Some (Some p)" using rx rhs by simp_all
  from copy_value [OF pick h(2) this] obtain q h' where
    "copy_pointer pick h ptr = Some (q, h')"
    "owned (st\<lparr>sh_arrays := h', sh_objects := (sh_objects st)(x \<mapsto> q)\<rparr>)"
    "status_abs (st\<lparr>sh_arrays := h', sh_objects := (sh_objects st)(x \<mapsto> q)\<rparr>) = (status_abs st)(x := status_abs st rhs)"
    using rx h(3) by auto
  then show ?thesis using x rhs ne h(1) by simp
qed

lemma exec_refines:
  assumes pick: "pick_ok pick" and own: "owned st" and ok: "op_allowed (status_abs st) e"
  shows "\<exists>st'. status_exec pick st e = Some st' \<and> owned st' \<and> status_abs st' = status_spec (status_abs st) e"
proof (cases e)
  case (Op_default x)
  then show ?thesis using set_null [OF own, of x] ok by simp
next
  case (Op_construct x code m1 m2)
  with ok obtain a where a: "Status_new code m1 m2 = Some \<lparr>status_state = Some a\<rparr>" "state_wf a"
    using error_status_wf [of m1 m2 code] by auto
  obtain p h where new: "new_array pick (sh_arrays st) a = (p, h)" by fastforce
  show ?thesis using owned_new [OF pick own _ a(2) new, of x] Op_construct ok a(1) new by simp
next
  case (Op_copy x rhs)
  with ok obtain ptr where "sh_objects st rhs = Some ptr" "sh_objects st x = None" by auto
  with copy_value [OF pick own this(1), of x] Op_copy show ?thesis by auto
next
  case (Op_assign x rhs)
  with ok obtain own' ptr where x: "sh_objects st x = Some own'" and rhs: "sh_objects st rhs = Some ptr" by auto
  show ?thesis
  proof (cases "own' = ptr")
    case True
    with x rhs have "status_abs st x = status_abs st rhs" by (simp add: status_abs_def)
    then have "(status_abs st)(x := status_abs st rhs) = status_abs st" by (metis fun_upd_triv)
    with True x rhs own Op_assign show ?thesis by simp
  qed (use assign_exec [OF pick own x rhs] Op_assign in simp)
next
  case (Op_move x rhs)
  with ok obtain ptr where r: "sh_objects st rhs = Some ptr" "sh_objects st x = None" by auto
  then have ne: "x \<noteq> rhs" by auto
  have "owned (st\<lparr>sh_objects := (sh_objects st)(x \<mapsto> ptr, rhs \<mapsto> None)\<rparr>)"
    by (rule owned_permute [OF own bij_exchange [of x rhs]])
      (use r ne in \<open>auto simp: exchange_def\<close>)
  moreover have "status_abs (st\<lparr>sh_objects := (sh_objects st)(x \<mapsto> ptr, rhs \<mapsto> None)\<rparr>) = status_spec (status_abs st) e"
    using r ne Op_move by (auto simp: status_abs_def fun_eq_iff pointer_value_def Status_OK_def)
  ultimately show ?thesis using r Op_move by simp
next
  case (Op_move_assign x rhs)
  with ok obtain own' ptr where r: "sh_objects st x = Some own'" "sh_objects st rhs = Some ptr" by auto
  have "owned (st\<lparr>sh_objects := (sh_objects st)(x \<mapsto> ptr, rhs \<mapsto> own')\<rparr>)"
    by (rule owned_permute [OF own bij_exchange [of x rhs]])
      (use r in \<open>auto simp: exchange_def\<close>)
  moreover have "status_abs (st\<lparr>sh_objects := (sh_objects st)(x \<mapsto> ptr, rhs \<mapsto> own')\<rparr>) = status_spec (status_abs st) e"
    using r Op_move_assign by (auto simp: status_abs_def fun_eq_iff)
  ultimately show ?thesis using r Op_move_assign by simp
next
  case (Op_destroy x)
  with ok obtain ptr where x: "sh_objects st x = Some ptr" by auto
  obtain h where "delete_array (sh_arrays st) ptr = Some h"
    "owned (st\<lparr>sh_arrays := h, sh_objects := (sh_objects st)(x := None)\<rparr>)"
    "status_abs (st\<lparr>sh_arrays := h, sh_objects := (sh_objects st)(x := None)\<rparr>) = (status_abs st)(x := None)"
    by (rule owned_delete [OF own x, of None]) simp_all
  then show ?thesis using x Op_destroy by simp
qed

lemma run_refines:
  "pick_ok pick \<Longrightarrow> owned st \<Longrightarrow> ops_allowed (status_abs st) es \<Longrightarrow>
   \<exists>st'. status_run pick st es = Some st' \<and> owned st' \<and> status_abs st' = foldl status_spec (status_abs st) es"
proof (induction es arbitrary: st)
  case (Cons e es)
  obtain st1 where st1: "status_exec pick st e = Some st1" "owned st1" "status_abs st1 = status_spec (status_abs st) e"
    using exec_refines [OF Cons.prems(1,2)] Cons.prems(3) by auto
  with Cons.IH [OF Cons.prems(1) st1(2)] Cons.prems(3) show ?case by simp
qed simp

section \<open>Properties\<close>

text \<open>C25. \<open>Status\<close> objects own their state.  For an allocator that gives out free memory and any sequence
  of constructions, copies, assignments (also to itself), moves and destructions of live objects: no call
  reads or frees memory that is not allocated; afterwards every object has the value that the same calls
  on values give it, each array belongs to exactly one object, and every array has the form of a length,
  one of the five error codes and a message.  When the last object is gone, no array is left.\<close>

theorem status_objects_own_their_state:
  assumes "pick_ok pick" and "ops_allowed Map.empty es"
  shows "\<exists>st. status_run pick status_init es = Some st \<and> owned st
    \<and> status_abs st = foldl status_spec Map.empty es
    \<and> (\<forall>x s. status_abs st x = Some s \<longrightarrow> status_wf s)
    \<and> (foldl status_spec Map.empty es = Map.empty \<longrightarrow> (\<forall>a \<in> set (sh_arrays st). a = None))"
proof -
  have init: "owned status_init" "status_abs status_init = Map.empty"
    by (auto simp: status_init_def owned_def read_array_def status_abs_def fun_eq_iff)
  obtain st where st: "status_run pick status_init es = Some st" "owned st"
    "status_abs st = foldl status_spec Map.empty es"
    using run_refines [OF assms(1) init(1)] assms(2) init(2) by auto
  have wf: "status_wf s" if s: "status_abs st x = Some s" for x s
  proof -
    obtain ptr where "sh_objects st x = Some ptr" "s = pointer_value (sh_arrays st) ptr"
      using s by (auto simp: status_abs_def)
    then show ?thesis using owned_pointer [OF st(2)] by (fastforce simp: status_wf_def pointer_value_def)
  qed
  have "a = None" if none: "foldl status_spec Map.empty es = Map.empty" and a: "a \<in> set (sh_arrays st)" for a
  proof (rule ccontr)
    assume "a \<noteq> None"
    moreover from a obtain p where "p < length (sh_arrays st)" "sh_arrays st ! p = a" by (auto simp: in_set_conv_nth)
    ultimately have "read_array (sh_arrays st) p \<noteq> None" by (simp add: read_array_def)
    then obtain x where "sh_objects st x = Some (Some p)" using st(2) unfolding owned_def by blast
    then have "status_abs st x \<noteq> None" by simp
    with none st(3) show False by simp
  qed
  with st wf show ?thesis by blast
qed

text \<open>An allocator that uses the first free place again.\<close>

fun first_free :: "mem option list \<Rightarrow> nat" where
  "first_free [] = 0"
| "first_free (a # h) = (if a = None then 0 else Suc (first_free h))"

lemma first_free_ok: "pick_ok first_free"
proof -
  have "first_free h \<le> length h \<and> (first_free h < length h \<longrightarrow> h ! first_free h = None)" for h
    by (induction h) auto
  then show ?thesis by (simp add: pick_ok_def)
qed

theorem status_objects_own_their_state_witness:
  "\<exists>st. status_run first_free status_init
      [Op_construct 0 kIOError (str ''a'') (str ''b''), Op_copy 1 0, Op_default 2, Op_assign 2 1, Op_assign 1 1,
       Op_move 3 2, Op_destroy 2, Op_move_assign 3 0, Op_destroy 0, Op_destroy 1, Op_destroy 3] = Some st
    \<and> owned st \<and> (\<forall>a \<in> set (sh_arrays st). a = None)"
proof -
  let ?es = "[Op_construct 0 kIOError (str ''a'') (str ''b''), Op_copy 1 0, Op_default 2, Op_assign 2 1, Op_assign 1 1,
       Op_move 3 2, Op_destroy 2, Op_move_assign 3 0, Op_destroy 0, Op_destroy 1, Op_destroy 3]"
  have "ops_allowed Map.empty ?es" by (simp add: error_codes_def str_def)
  moreover have "foldl status_spec Map.empty ?es = Map.empty" by (auto simp: fun_eq_iff)
  ultimately show ?thesis using status_objects_own_their_state [OF first_free_ok, of ?es] by blast
qed

end
