(* ===== verification/Logging.thy ===== *)
theory Logging
  imports Slice
begin

text \<open>
  The text helpers of \<open>log/logging.cpp\<close>: escaping of arbitrary bytes for diagnostics and
  decimal printing, with the meaning of what they print.
\<close>

section \<open>Definitions\<close>

text \<open>\<open>snprintf (buf, sizeof(buf), "\\x%02x", c & 0xFF)\<close>: two lower-case hexadecimal digits.\<close>

definition hex_digit :: "nat \<Rightarrow> byte" where
  "hex_digit d = (if d < 10 then of_nat (48 + d) else of_nat (87 + d))"

definition snprintf_x02x :: "byte \<Rightarrow> bytes" where
  "snprintf_x02x c = [92, 120, hex_digit (unat c div 16), hex_digit (unat c mod 16)]"

fun AppendEscapedStringTo :: "bytes \<Rightarrow> bytes \<Rightarrow> bytes" where
  "AppendEscapedStringTo s [] = s"
| "AppendEscapedStringTo s (c # value) =
     (if 32 \<le> c \<and> c \<le> 126 then AppendEscapedStringTo (s @ [c]) value
      else AppendEscapedStringTo (s @ snprintf_x02x c) value)"

definition EscapeString :: "bytes \<Rightarrow> bytes" where
  "EscapeString value = AppendEscapedStringTo [] value"

text \<open>\<open>snprintf (buf, sizeof(buf), "%llu", num)\<close>: the decimal digits.\<close>

fun decimal :: "nat \<Rightarrow> bytes" where
  "decimal n = (if n < 10 then [of_nat (48 + n)] else decimal (n div 10) @ [of_nat (48 + n mod 10)])"

declare decimal.simps [simp del]

definition AppendNumberTo :: "bytes \<Rightarrow> u64 \<Rightarrow> bytes" where
  "AppendNumberTo s num = s @ decimal (unat num)"

definition NumberToString :: "u64 \<Rightarrow> bytes" where
  "NumberToString num = AppendNumberTo [] num"

section \<open>Escaping\<close>

definition printable :: "byte \<Rightarrow> bool" where
  "printable c \<longleftrightarrow> 32 \<le> c \<and> c \<le> 126"

definition escape_byte :: "byte \<Rightarrow> bytes" where
  "escape_byte c = (if printable c then [c] else snprintf_x02x c)"

lemma AppendEscapedStringTo_concat:
  "AppendEscapedStringTo s v = s @ concat (map escape_byte v)"
  by (induction s v rule: AppendEscapedStringTo.induct)
    (auto simp: escape_byte_def printable_def)

lemma EscapeString_concat: "EscapeString value = concat (map escape_byte value)"
  by (simp add: EscapeString_def AppendEscapedStringTo_concat)

lemma printable_hex_digit: "d < 16 \<Longrightarrow> printable (hex_digit d)"
  by (auto simp: hex_digit_def printable_def word_le_nat_alt unat_of_nat unat_word_ariths)

lemma printable_escape_byte: "b \<in> set (escape_byte c) \<Longrightarrow> printable b"
proof -
  have "unat c div 16 < 16" using unat_byte_less [of c] by simp
  then show "b \<in> set (escape_byte c) \<Longrightarrow> printable b"
    using printable_hex_digit [of "unat c div 16"] printable_hex_digit [of "unat c mod 16"]
    by (auto simp: escape_byte_def snprintf_x02x_def printable_def split: if_splits)
qed

lemma length_escape_byte: "length (escape_byte c) \<in> {1, 4}"
  by (simp add: escape_byte_def snprintf_x02x_def)

section \<open>Decimal numbers\<close>

text \<open>The value of a string of decimal digits.\<close>

definition decimal_value :: "bytes \<Rightarrow> nat" where
  "decimal_value s = foldl (\<lambda>v c. 10 * v + (unat c - 48)) 0 s"

lemma decimal_value_snoc [simp]:
  "decimal_value (s @ [c]) = 10 * decimal_value s + (unat c - 48)"
  by (simp add: decimal_value_def)

lemma decimal_value_decimal: "decimal_value (decimal n) = n"
proof (induction n rule: decimal.induct)
  case (1 n)
  show ?case
  proof (cases "n < 10")
    case True
    then show ?thesis
      by (subst decimal.simps) (simp add: decimal_value_def unat_of_nat unat_word_ariths)
  next
    case False
    with 1 show ?thesis
      by (subst decimal.simps) (simp add: unat_of_nat unat_word_ariths)
  qed
qed

lemma length_decimal: "n < 10 ^ k \<Longrightarrow> 0 < k \<Longrightarrow> length (decimal n) \<le> k"
proof (induction k arbitrary: n)
  case 0
  then show ?case by simp
next
  case (Suc k)
  show ?case
  proof (cases "n < 10")
    case True
    then show ?thesis by (subst decimal.simps) simp
  next
    case False
    with Suc.prems have "0 < k" by (cases k) auto
    moreover have "n div 10 < 10 ^ k" using Suc.prems by (simp add: less_mult_imp_div_less mult.commute)
    ultimately show ?thesis using False Suc.IH by (subst decimal.simps) simp
  qed
qed

section \<open>Properties\<close>

text \<open>\<open>EscapeString\<close> prints only printable ASCII characters, one or four per input byte, and
  \<open>NumberToString\<close> prints the decimal digits of the number in at most twenty characters, so that
  its buffer of thirty is large enough.\<close>

theorem logging_output:
  "list_all printable (EscapeString v)
   \<and> length v \<le> length (EscapeString v) \<and> length (EscapeString v) \<le> 4 * length v
   \<and> decimal_value (NumberToString num) = unat num \<and> length (NumberToString num) \<le> 20"
proof -
  have "length v \<le> length (EscapeString v) \<and> length (EscapeString v) \<le> 4 * length v"
    unfolding EscapeString_concat
  proof (induction v)
    case (Cons c v)
    then show ?case using length_escape_byte [of c] by auto
  qed simp
  moreover have "list_all printable (EscapeString v)"
    by (auto simp: EscapeString_concat list_all_iff printable_escape_byte)
  moreover have "length (NumberToString num) \<le> 20"
    using length_decimal [of "unat num" 20] unat_u64_less [of num]
    by (simp add: NumberToString_def AppendNumberTo_def)
  ultimately show ?thesis
    by (simp add: NumberToString_def AppendNumberTo_def decimal_value_decimal)
qed

end
