(* ===== verification/Db_Format.thy ===== *)
theory Db_Format
  imports Comparator Coding Logging "HOL-Library.Monad_Syntax"
begin

text \<open>
  Internal keys (\<open>db_format/db_format.h\<close>, \<open>db_format/db_format.cpp\<close>): a user key followed
  by the eight bytes of a tag that packs a sequence number and a value type; their
  comparator; and the lookup key of a memtable search.  \<open>None\<close> is a failed assertion or, in
  \<open>AppendInternalKey\<close>, a read past the end of the object the user key points into.
\<close>

section \<open>Definitions\<close>

datatype ValueType = kTypeDeletion | kTypeValue | kTypeOther byte

fun ValueType_byte :: "ValueType \<Rightarrow> byte" where
  "ValueType_byte kTypeDeletion = 0"
| "ValueType_byte kTypeValue = 1"
| "ValueType_byte (kTypeOther b) = b"

text \<open>\<open>static_cast<ValueType>(c)\<close>\<close>

definition ValueType_of_byte :: "byte \<Rightarrow> ValueType" where
  "ValueType_of_byte c = (if c = 0 then kTypeDeletion else if c = 1 then kTypeValue else kTypeOther c)"

definition kMaxSequenceNumber :: u64 where
  "kMaxSequenceNumber = push_bit 56 1 - 1"

definition kValueTypeForSeek :: ValueType where
  "kValueTypeForSeek = kTypeValue"

record ParsedInternalKey =
  pk_user_key :: slice
  pk_sequence :: u64
  pk_type :: ValueType

definition PackSequenceAndType :: "u64 \<Rightarrow> ValueType \<Rightarrow> u64 option" where
  "PackSequenceAndType seq t =
     (if seq \<le> kMaxSequenceNumber \<and> ValueType_byte t \<le> ValueType_byte kValueTypeForSeek
      then Some (push_bit 8 seq OR ucast (ValueType_byte t)) else None)"

text \<open>
  \<open>result->append(reinterpret_cast<char const *>(key.user_key.data()))\<close> has no length
  argument: it appends the C string at the data pointer, up to the first NUL.
\<close>

definition append_cstr :: "bytes \<Rightarrow> mem \<Rightarrow> bytes option" where
  "append_cstr result p =
     (if 0 \<in> set p then Some (result @ take (strlen p) p) else None)"

definition AppendInternalKey :: "bytes \<Rightarrow> ParsedInternalKey \<Rightarrow> bytes option" where
  "AppendInternalKey result key =
     (case append_cstr result (sdata (pk_user_key key)) of
        None \<Rightarrow> None
      | Some r \<Rightarrow>
          (case PackSequenceAndType (pk_sequence key) (pk_type key) of
             None \<Rightarrow> None
           | Some tag \<Rightarrow> Some (PutFixed64 r tag)))"

text \<open>\<open>None\<close> is the failed assertion \<open>internal_key.size() >= 8\<close>.\<close>

definition ExtractUserKey :: "bytes \<Rightarrow> bytes option" where
  "ExtractUserKey internal_key =
     (if 8 \<le> length internal_key then Some (take (length internal_key - 8) internal_key) else None)"

text \<open>The returned flag and the output parameter, which keeps its old value on a key that is
  too short.  The user key of the result points into the internal key.\<close>

definition ParseInternalKey ::
  "bytes \<Rightarrow> ParsedInternalKey \<Rightarrow> bool \<times> ParsedInternalKey" where
  "ParseInternalKey internal_key result =
     (let n = length internal_key in
      if n < 8 then (False, result)
      else
        (let num = DecodeFixed64 (drop (n - 8) internal_key);
             c = ucast (num AND 0xFF) :: byte in
         (c \<le> ValueType_byte kTypeValue,
          result\<lparr>pk_sequence := drop_bit 8 num, pk_type := ValueType_of_byte c,
                 pk_user_key := Slice_ptr internal_key (n - 8)\<rparr>)))"

text \<open>The class \<open>InternalKey\<close>: its representation is the encoded key.\<close>

record InternalKey =
  rep :: bytes

definition InternalKey_new :: "slice \<Rightarrow> u64 \<Rightarrow> ValueType \<Rightarrow> InternalKey option" where
  "InternalKey_new user_key s t =
     map_option (\<lambda>r. \<lparr>rep = r\<rparr>)
       (AppendInternalKey [] \<lparr>pk_user_key = user_key, pk_sequence = s, pk_type = t\<rparr>)"

definition InternalKey_DecodeFrom :: "InternalKey \<Rightarrow> bytes \<Rightarrow> bool \<times> InternalKey" where
  "InternalKey_DecodeFrom k s = (s \<noteq> [], k\<lparr>rep := s\<rparr>)"

definition InternalKey_Encode :: "InternalKey \<Rightarrow> bytes option" where
  "InternalKey_Encode k = (if rep k \<noteq> [] then Some (rep k) else None)"

definition InternalKey_user_key :: "InternalKey \<Rightarrow> bytes option" where
  "InternalKey_user_key k = ExtractUserKey (rep k)"

definition InternalKey_SetFrom :: "InternalKey \<Rightarrow> ParsedInternalKey \<Rightarrow> InternalKey option" where
  "InternalKey_SetFrom k p = map_option (\<lambda>r. k\<lparr>rep := r\<rparr>) (AppendInternalKey [] p)"

definition InternalKey_Clear :: "InternalKey \<Rightarrow> InternalKey" where
  "InternalKey_Clear k = k\<lparr>rep := []\<rparr>"

definition ParsedInternalKey_DebugString :: "ParsedInternalKey \<Rightarrow> bytes" where
  "ParsedInternalKey_DebugString k =
     [39] @ EscapeString (slice_ToString (pk_user_key k)) @ [39] @ str '' @ ''
     @ decimal (unat (pk_sequence k)) @ str '' : '' @ decimal (unat (ValueType_byte (pk_type k)))"

definition InternalKey_DebugString :: "InternalKey \<Rightarrow> bytes" where
  "InternalKey_DebugString k =
     (let (ok, parsed) = ParseInternalKey (rep k)
        \<lparr>pk_user_key = Slice_default, pk_sequence = 0, pk_type = kTypeDeletion\<rparr> in
      if ok then ParsedInternalKey_DebugString parsed
      else str ''(bad)'' @ EscapeString (rep k))"

text \<open>
  \<open>InternalKeyComparator\<close> over a user comparator, given by its three functions.  \<open>None\<close> is a failed assertion:
  that of \<open>ExtractUserKey\<close> on a key of fewer than eight bytes, or one of the two shortening operations.
\<close>

definition InternalKeyComparator_Compare ::
  "(bytes \<Rightarrow> bytes \<Rightarrow> int) \<Rightarrow> bytes \<Rightarrow> bytes \<Rightarrow> int option" where
  "InternalKeyComparator_Compare ucmp a_key b_key =
     do {
       a_user \<leftarrow> ExtractUserKey a_key;
       b_user \<leftarrow> ExtractUserKey b_key;
       let ret = ucmp a_user b_user in
       if ret = 0 then
         (let anum = DecodeFixed64 (drop (length a_key - 8) a_key);
              bnum = DecodeFixed64 (drop (length b_key - 8) b_key) in
          Some (if anum > bnum then -1 else 1))
       else Some ret
     }"

text \<open>The overload for internal keys; \<open>Encode\<close> asserts that the key is not empty.\<close>

definition InternalKeyComparator_Compare_keys ::
  "(bytes \<Rightarrow> bytes \<Rightarrow> int) \<Rightarrow> InternalKey \<Rightarrow> InternalKey \<Rightarrow> int option" where
  "InternalKeyComparator_Compare_keys ucmp a b =
     do {
       a \<leftarrow> InternalKey_Encode a;
       b \<leftarrow> InternalKey_Encode b;
       InternalKeyComparator_Compare ucmp a b
     }"

definition InternalKeyComparator_Name :: bytes where
  "InternalKeyComparator_Name = str ''leveldb.InternalKeyComparator''"

definition InternalKeyComparator_FindShortestSeparator ::
  "(bytes \<Rightarrow> bytes \<Rightarrow> int) \<Rightarrow> (bytes \<Rightarrow> bytes \<Rightarrow> bytes option) \<Rightarrow> bytes \<Rightarrow> bytes \<Rightarrow> bytes option"
where
  "InternalKeyComparator_FindShortestSeparator ucmp usep start limit =
     do {
       user_start \<leftarrow> ExtractUserKey start;
       user_limit \<leftarrow> ExtractUserKey limit;
       tmp \<leftarrow> usep user_start user_limit;
       if length tmp < length user_start \<and> ucmp user_start tmp < 0 then
         do {
           tag \<leftarrow> PackSequenceAndType kMaxSequenceNumber kValueTypeForSeek;
           let tmp = PutFixed64 tmp tag in
           do {
             c \<leftarrow> InternalKeyComparator_Compare ucmp start tmp;
             if \<not> c < 0 then None
             else
               do {
                 d \<leftarrow> InternalKeyComparator_Compare ucmp tmp limit;
                 if \<not> d < 0 then None else Some tmp
               }
           }
         }
       else Some start
     }"

definition InternalKeyComparator_FindShortSuccessor ::
  "(bytes \<Rightarrow> bytes \<Rightarrow> int) \<Rightarrow> (bytes \<Rightarrow> bytes) \<Rightarrow> bytes \<Rightarrow> bytes option" where
  "InternalKeyComparator_FindShortSuccessor ucmp usucc key =
     do {
       user_key \<leftarrow> ExtractUserKey key;
       let tmp = usucc user_key in
       if length tmp < length user_key \<and> ucmp user_key tmp < 0 then
         do {
           tag \<leftarrow> PackSequenceAndType kMaxSequenceNumber kValueTypeForSeek;
           let tmp = PutFixed64 tmp tag in
           do {
             c \<leftarrow> InternalKeyComparator_Compare ucmp key tmp;
             if \<not> c < 0 then None else Some tmp
           }
         }
       else Some key
     }"

text \<open>
  \<open>LookupKey\<close>: the bytes from \<open>start_\<close> to \<open>end_\<close>, the offset of \<open>kstart_\<close>, and whether the
  inline buffer \<open>space_\<close> of 200 bytes holds them (otherwise \<open>needed\<close> bytes are allocated).
\<close>

record LookupKey =
  lk_bytes :: bytes
  lk_kstart :: nat
  lk_inline :: bool
  lk_capacity :: nat

definition LookupKey_new :: "bytes \<Rightarrow> u64 \<Rightarrow> LookupKey option" where
  "LookupKey_new user_key sequence =
     (let usize = length user_key;
          needed = usize + 13;
          inline = (needed \<le> 200);
          klength = EncodeVarint32 (of_nat (usize + 8)) in
      case PackSequenceAndType sequence kValueTypeForSeek of
        None \<Rightarrow> None
      | Some tag \<Rightarrow>
          Some \<lparr>lk_bytes = klength @ user_key @ EncodeFixed64 tag, lk_kstart = length klength,
                lk_inline = inline, lk_capacity = (if inline then 200 else needed)\<rparr>)"

text \<open>The destructor frees an array that is not the inline buffer: its size, if there is one.\<close>

definition LookupKey_delete :: "LookupKey \<Rightarrow> nat option" where
  "LookupKey_delete k = (if \<not> lk_inline k then Some (lk_capacity k) else None)"

definition memtable_key :: "LookupKey \<Rightarrow> bytes" where
  "memtable_key k = lk_bytes k"

definition internal_key :: "LookupKey \<Rightarrow> bytes" where
  "internal_key k = drop (lk_kstart k) (lk_bytes k)"

definition LookupKey_user_key :: "LookupKey \<Rightarrow> bytes" where
  "LookupKey_user_key k =
     take (length (lk_bytes k) - lk_kstart k - 8) (drop (lk_kstart k) (lk_bytes k))"

section \<open>Tags\<close>

text \<open>An internal key in abstract form: a user key and a packed tag.\<close>

definition ikey :: "bytes \<Rightarrow> u64 \<Rightarrow> bytes" where
  "ikey user_key tag = user_key @ EncodeFixed64 tag"

definition ik_tag :: "bytes \<Rightarrow> u64" where
  "ik_tag k = DecodeFixed64 (drop (length k - 8) k)"

text \<open>What \<open>ExtractUserKey\<close> and the comparator return when their assertion holds.\<close>

definition user_part :: "bytes \<Rightarrow> bytes" where
  "user_part k = take (length k - 8) k"

definition internal_compare :: "(bytes \<Rightarrow> bytes \<Rightarrow> int) \<Rightarrow> bytes \<Rightarrow> bytes \<Rightarrow> int" where
  "internal_compare ucmp a b =
     (let ret = ucmp (user_part a) (user_part b) in
      if ret = 0 then (if ik_tag b < ik_tag a then -1 else 1) else ret)"

definition tag_of :: "u64 \<Rightarrow> ValueType \<Rightarrow> u64" where
  "tag_of seq t = push_bit 8 seq OR ucast (ValueType_byte t)"

lemma length_ikey [simp]: "length (ikey u t) = length u + 8"
  by (simp add: ikey_def)

lemma user_part_ikey [simp]: "user_part (ikey u t) = u"
  by (simp add: user_part_def ikey_def)

lemma ExtractUserKey_eq: "ExtractUserKey k = (if 8 \<le> length k then Some (user_part k) else None)"
  by (simp add: ExtractUserKey_def user_part_def)

lemma InternalKeyComparator_Compare_eq:
  "InternalKeyComparator_Compare ucmp a b =
   (if 8 \<le> length a \<and> 8 \<le> length b then Some (internal_compare ucmp a b) else None)"
  by (simp add: InternalKeyComparator_Compare_def ExtractUserKey_eq internal_compare_def ik_tag_def Let_def)

lemma ik_tag_ikey [simp]: "ik_tag (ikey u t) = t"
  using DecodeFixed64_Encode [of t "[]"] by (simp add: ik_tag_def ikey_def)

text \<open>Every byte string of at least eight bytes is an internal key.\<close>

lemma ikey_surj: "8 \<le> length k \<Longrightarrow> k = ikey (user_part k) (ik_tag k)"
  by (simp add: ikey_def ik_tag_def user_part_def EncodeFixed64_Decode)

lemma kMaxSequenceNumber_mask: "kMaxSequenceNumber = mask 56"
  by (simp add: kMaxSequenceNumber_def mask_eq_exp_minus_1)

lemma seq_bit_bound: "seq \<le> kMaxSequenceNumber \<Longrightarrow> bit seq n \<Longrightarrow> n < 56"
  for seq :: u64
proof (rule ccontr)
  assume "seq \<le> kMaxSequenceNumber" and bit: "bit seq n" and n: "\<not> n < 56"
  then have "take_bit 56 seq = seq"
    by (simp add: kMaxSequenceNumber_def word_le_nat_alt word_unat_eq_iff unsigned_take_bit_eq
        take_bit_nat_eq_self)
  then show False using n bit by (metis bit_take_bit_iff)
qed

lemma drop_bit_tag_of: "seq \<le> kMaxSequenceNumber \<Longrightarrow> drop_bit 8 (tag_of seq t) = seq"
  by (rule bit_word_eqI) (auto simp: tag_of_def bit_simps dest: seq_bit_bound)

lemma bit_int_255: "bit (255 :: int) n \<longleftrightarrow> n < 8"
proof -
  have "(255 :: int) = mask 8" by (simp add: mask_eq_exp_minus_1)
  then show ?thesis by (simp only: bit_simps) auto
qed

lemma low_byte_tag_of: "(ucast (tag_of seq t AND 0xFF) :: byte) = ValueType_byte t"
  by (rule bit_word_eqI) (auto simp: tag_of_def bit_simps bit_int_255)

lemma PackSequenceAndType_tag_of:
  "seq \<le> kMaxSequenceNumber \<Longrightarrow> t = kTypeDeletion \<or> t = kTypeValue \<Longrightarrow>
   PackSequenceAndType seq t = Some (tag_of seq t)"
  by (auto simp: PackSequenceAndType_def kValueTypeForSeek_def tag_of_def)

text \<open>Tags of later sequence numbers are greater, whatever the value types.\<close>

lemma tag_of_add: "tag_of seq t = push_bit 8 seq + ucast (ValueType_byte t)"
  unfolding tag_of_def
  by (rule disjunctive_add [symmetric]) (auto simp: bit_simps)

lemma unat_tag_of:
  assumes "seq \<le> kMaxSequenceNumber"
  shows "unat (tag_of seq t) = 256 * unat seq + unat (ValueType_byte t)"
proof -
  have seq: "unat seq < 2 ^ 56"
    using assms by (simp add: kMaxSequenceNumber_def word_le_nat_alt)
  have "unat (push_bit 8 seq) = 256 * unat seq"
    using seq by (simp add: push_bit_eq_mult unat_word_ariths)
  moreover have "unat (ucast (ValueType_byte t) :: u64) = unat (ValueType_byte t)"
    using unat_byte_less [of "ValueType_byte t"] by (simp add: unsigned_ucast_eq take_bit_nat_eq_self)
  moreover have "256 * unat seq + unat (ValueType_byte t) < 2 ^ 64"
    using seq unat_byte_less [of "ValueType_byte t"] by simp
  ultimately show ?thesis by (simp add: tag_of_add unat_word_ariths)
qed

lemma tag_of_less:
  assumes "s1 < s2" and "s2 \<le> kMaxSequenceNumber"
  shows "tag_of s1 t1 < tag_of s2 t2"
proof -
  have "s1 \<le> kMaxSequenceNumber" using assms by simp
  moreover have "unat s1 < unat s2" using assms(1) by (simp add: word_less_nat_alt)
  ultimately show ?thesis
    using assms(2) unat_byte_less [of "ValueType_byte t1"]
    by (simp add: word_less_nat_alt unat_tag_of)
qed

section \<open>Parsing what was appended\<close>

lemma append_cstr_terminated: "0 \<notin> set u \<Longrightarrow> append_cstr r (u @ 0 # w) = Some (r @ u)"
proof -
  assume "0 \<notin> set u"
  then have "takeWhile (\<lambda>b. b \<noteq> 0) (u @ 0 # w) = u"
    by (subst takeWhile_append2) auto
  then show ?thesis by (simp add: append_cstr_def strlen_def)
qed

lemma ParseInternalKey_ikey:
  "ParseInternalKey (ikey u (tag_of seq t)) r =
   (ValueType_byte t \<le> 1,
    r\<lparr>pk_sequence := drop_bit 8 (tag_of seq t), pk_type := ValueType_of_byte (ValueType_byte t),
      pk_user_key := Slice_ptr (ikey u (tag_of seq t)) (length u)\<rparr>)"
proof -
  have "DecodeFixed64 (drop (length u) (ikey u (tag_of seq t))) = tag_of seq t"
    using DecodeFixed64_Encode [of _ "[]"] by (simp add: ikey_def)
  then show ?thesis
    by (simp add: ParseInternalKey_def Let_def low_byte_tag_of)
qed

lemma ParseInternalKey_short: "length k < 8 \<Longrightarrow> ParseInternalKey k r = (False, r)"
  by (simp add: ParseInternalKey_def)

section \<open>The internal key comparator\<close>

lemma internal_compare_less:
  "internal_compare ucmp a b < 0 \<longleftrightarrow>
   ucmp (user_part a) (user_part b) < 0 \<or> ucmp (user_part a) (user_part b) = 0 \<and> ik_tag b < ik_tag a"
  by (simp add: internal_compare_def Let_def)

lemma internal_compare_nonzero: "internal_compare ucmp a b \<noteq> 0"
  by (simp add: internal_compare_def Let_def)

text \<open>
  Over a lawful user comparator the internal comparator is a strict weak order: this is what
  a skip list needs of its comparator.
\<close>

context key_order
begin

lemma ikc_irrefl: "\<not> internal_compare Compare a a < 0"
  using Compare_irrefl by (simp add: internal_compare_less)

lemma ikc_trans:
  "internal_compare Compare a b < 0 \<Longrightarrow>
   internal_compare Compare b c < 0 \<Longrightarrow>
   internal_compare Compare a c < 0"
  unfolding internal_compare_less
  by (metis Compare_trans Compare_zero order_less_trans)

lemma ikc_not_less_trans:
  assumes ab: "\<not> internal_compare Compare a b < 0"
    and bc: "\<not> internal_compare Compare b c < 0"
  shows "\<not> internal_compare Compare a c < 0"
proof
  assume ac: "internal_compare Compare a c < 0"
  have users: "\<not> Compare (user_part a) (user_part b) < 0"
    "\<not> Compare (user_part b) (user_part c) < 0"
    using ab bc by (simp_all add: internal_compare_less)
  then have zero: "Compare (user_part a) (user_part c) = 0" and tags: "ik_tag c < ik_tag a"
    using ac Compare_not_less_trans by (auto simp: internal_compare_less)
  have "user_part a = user_part c" using zero by (rule Compare_zero)
  moreover have "user_part a = user_part b"
    using users calculation Compare_total by metis
  ultimately have "\<not> ik_tag b < ik_tag a" "\<not> ik_tag c < ik_tag b"
    using ab bc zero by (auto simp: internal_compare_less)
  with tags show False by simp
qed

end

lemma Pack_seek: "PackSequenceAndType kMaxSequenceNumber kValueTypeForSeek =
    Some (tag_of kMaxSequenceNumber kValueTypeForSeek)"
  by (simp add: PackSequenceAndType_def tag_of_def kValueTypeForSeek_def)

lemma PutFixed64_ikey: "PutFixed64 u t = ikey u t"
  by (simp add: PutFixed64_def ikey_def)

context comparator
begin

text \<open>The assertions of the two key-shortening operations never fail on internal keys, and the result
  stays between its bounds in the internal order.\<close>

lemma ikc_separator:
  assumes "8 \<le> length start" and "8 \<le> length limit"
  shows "\<exists>r. InternalKeyComparator_FindShortestSeparator Compare FindShortestSeparator start limit = Some r
     \<and> 8 \<le> length r \<and> length r \<le> length start
     \<and> (r = start \<or> internal_compare Compare start r < 0 \<and> internal_compare Compare r limit < 0)"
proof -
  obtain tmp where tmp: "FindShortestSeparator (user_part start) (user_part limit) = Some tmp"
    using separator_Some by blast
  show ?thesis
  proof (cases "length tmp < length (user_part start) \<and> Compare (user_part start) tmp < 0")
    case True
    then have "Compare tmp (user_part limit) < 0"
      using separator_between [OF tmp] by auto
    moreover have "length tmp + 8 \<le> length start" using True by (auto simp: user_part_def)
    ultimately show ?thesis
      using True tmp assms
      by (simp add: InternalKeyComparator_FindShortestSeparator_def Let_def Pack_seek ExtractUserKey_eq
          PutFixed64_ikey InternalKeyComparator_Compare_eq internal_compare_less)
  next
    case False
    with tmp assms show ?thesis
      by (auto simp: InternalKeyComparator_FindShortestSeparator_def ExtractUserKey_eq)
  qed
qed

lemma ikc_successor:
  assumes "8 \<le> length key"
  shows "\<exists>r. InternalKeyComparator_FindShortSuccessor Compare FindShortSuccessor key = Some r
     \<and> 8 \<le> length r \<and> length r \<le> length key \<and> (r = key \<or> internal_compare Compare key r < 0)"
proof (cases "length (FindShortSuccessor (user_part key)) < length (user_part key)
    \<and> Compare (user_part key) (FindShortSuccessor (user_part key)) < 0")
  case True
  then have "length (FindShortSuccessor (user_part key)) + 8 < length key"
    by (auto simp: user_part_def)
  with True assms show ?thesis
    by (simp add: InternalKeyComparator_FindShortSuccessor_def Let_def Pack_seek ExtractUserKey_eq
        PutFixed64_ikey InternalKeyComparator_Compare_eq internal_compare_less)
next
  case False
  with assms show ?thesis
    by (auto simp: InternalKeyComparator_FindShortSuccessor_def Let_def ExtractUserKey_eq)
qed

end

text \<open>On a key of fewer than eight bytes both fail the assertion of \<open>ExtractUserKey\<close>.\<close>

lemma shortening_short_key:
  "length start < 8 \<or> length limit < 8 \<Longrightarrow> InternalKeyComparator_FindShortestSeparator ucmp usep start limit = None"
  "length start < 8 \<Longrightarrow> InternalKeyComparator_FindShortSuccessor ucmp usucc start = None"
  by (auto simp: InternalKeyComparator_FindShortestSeparator_def InternalKeyComparator_FindShortSuccessor_def
      ExtractUserKey_eq)

section \<open>Lookup keys\<close>

lemma LookupKey_new_Some:
  assumes "sequence \<le> kMaxSequenceNumber"
  shows "\<exists>k. LookupKey_new u sequence = Some k
    \<and> memtable_key k = EncodeVarint32 (of_nat (length u + 8)) @ ikey u (tag_of sequence kTypeValue)
    \<and> internal_key k = ikey u (tag_of sequence kTypeValue)
    \<and> LookupKey_user_key k = u
    \<and> length (lk_bytes k) \<le> lk_capacity k"
  using assms length_EncodeVarint32 [of "of_nat (length u + 8)"]
  by (simp add: LookupKey_new_def Let_def PackSequenceAndType_tag_of kValueTypeForSeek_def
      memtable_key_def internal_key_def LookupKey_user_key_def ikey_def)

section \<open>Properties\<close>

text \<open>C24. Round trip of internal keys: for a user key whose bytes contain no NUL and are followed by a NUL in the
  buffer the slice points into (as in a \<open>std::string\<close> or a C string), a sequence number of at most 56 bits and
  a proper value type, \<open>AppendInternalKey\<close> succeeds and \<open>ParseInternalKey\<close> of what it appended returns true with
  the three parts.\<close>

theorem internal_key_roundtrip:
  assumes "slice_bytes s = u" and "drop (ssize s) (sdata s) = 0 # w" and "0 \<notin> set u"
    and "seq \<le> kMaxSequenceNumber" and "t = kTypeDeletion \<or> t = kTypeValue"
  shows "\<exists>k p. AppendInternalKey result \<lparr>pk_user_key = s, pk_sequence = seq, pk_type = t\<rparr> = Some (result @ k)
    \<and> ParseInternalKey k r = (True, p)
    \<and> slice_bytes (pk_user_key p) = u \<and> pk_sequence p = seq \<and> pk_type p = t"
proof -
  have "append_cstr result (sdata s) = Some (result @ u)"
    using append_cstr_terminated [OF assms(3), of result w] assms(1,2)
    by (metis append_take_drop_id slice_ToString_def)
  then have "AppendInternalKey result \<lparr>pk_user_key = s, pk_sequence = seq, pk_type = t\<rparr>
    = Some (result @ ikey u (tag_of seq t))"
    using assms(4,5) by (simp add: AppendInternalKey_def PackSequenceAndType_tag_of PutFixed64_ikey ikey_def)
  moreover have "slice_ToString (Slice_ptr (ikey u (tag_of seq t)) (length u)) = u"
    by (simp add: slice_ToString_def Slice_ptr_def ikey_def)
  ultimately show ?thesis
    using assms(4,5) ParseInternalKey_ikey [of u seq t r]
    by (auto simp: drop_bit_tag_of ValueType_of_byte_def)
qed

theorem internal_key_roundtrip_witness:
  "\<exists>k p. AppendInternalKey [1] \<lparr>pk_user_key = Slice_ptr (str ''foo'' @ 0 # str ''bar'') 3, pk_sequence = 100,
       pk_type = kTypeValue\<rparr> = Some ([1] @ k)
    \<and> ParseInternalKey k \<lparr>pk_user_key = Slice_default, pk_sequence = 0, pk_type = kTypeDeletion\<rparr> = (True, p)
    \<and> slice_bytes (pk_user_key p) = str ''foo'' \<and> pk_sequence p = 100 \<and> pk_type p = kTypeValue"
proof -
  let ?s = "Slice_ptr (str ''foo'' @ 0 # str ''bar'') 3"
  have "slice_bytes ?s = str ''foo''" "drop (ssize ?s) (sdata ?s) = 0 # str ''bar''" "(0::byte) \<notin> set (str ''foo'')"
    by (simp_all add: str_def slice_ToString_def Slice_ptr_def)
  moreover have "100 \<le> kMaxSequenceNumber" by (simp add: kMaxSequenceNumber_def)
  ultimately show ?thesis
    by (intro internal_key_roundtrip) simp_all
qed

text \<open>\<open>AppendInternalKey\<close> appends a C string, not the slice: from a user key whose data is
  followed by further bytes it takes those bytes too, up to the first NUL, and from a user key
  with a NUL byte only what precedes it, so that the stored user key differs from the slice.\<close>

theorem append_internal_key_ignores_size:
  assumes "seq \<le> kMaxSequenceNumber" and "t = kTypeDeletion \<or> t = kTypeValue" and "0 \<notin> set u"
  shows "AppendInternalKey [] \<lparr>pk_user_key = Slice_ptr (u @ 0 # w) n, pk_sequence = seq, pk_type = t\<rparr>
    = Some (ikey u (tag_of seq t))"
  using assms by (simp add: AppendInternalKey_def Slice_ptr_def append_cstr_terminated
      PackSequenceAndType_tag_of PutFixed64_ikey)

theorem append_internal_key_ignores_size_witness:
  "AppendInternalKey [] \<lparr>pk_user_key = Slice_ptr [1, 2, 0, 3] 4, pk_sequence = 5, pk_type = kTypeValue\<rparr>
   = Some (ikey [1, 2] (tag_of 5 kTypeValue))"
proof -
  have "5 \<le> kMaxSequenceNumber" by (simp add: kMaxSequenceNumber_def)
  then show ?thesis
    using append_internal_key_ignores_size [of 5 kTypeValue "[1, 2]" "[3]" 4] by simp
qed

text \<open>C28. Shortening internal keys over the bytewise comparator.  On internal keys, of at least eight bytes each,
  neither \<open>FindShortestSeparator\<close> nor \<open>FindShortSuccessor\<close> fails an assertion; the result is an internal key that
  is not longer than the first argument, and it is that argument or lies, in the order of the internal keys,
  after it and (for the separator) before the limit.  With a shorter key the assertion of \<open>ExtractUserKey\<close>
  fails.\<close>

theorem internal_separator_ok:
  "(8 \<le> length start \<and> 8 \<le> length limit \<longrightarrow>
     (\<exists>r. InternalKeyComparator_FindShortestSeparator Bytewise_Compare Bytewise_FindShortestSeparator
           start limit = Some r
        \<and> 8 \<le> length r \<and> length r \<le> length start
        \<and> (r = start \<or>
           (\<exists>c d. InternalKeyComparator_Compare Bytewise_Compare start r = Some c \<and> c < 0
              \<and> InternalKeyComparator_Compare Bytewise_Compare r limit = Some d \<and> d < 0))))
   \<and> (8 \<le> length start \<longrightarrow>
     (\<exists>r. InternalKeyComparator_FindShortSuccessor Bytewise_Compare Bytewise_FindShortSuccessor start = Some r
        \<and> 8 \<le> length r \<and> length r \<le> length start
        \<and> (r = start \<or> (\<exists>c. InternalKeyComparator_Compare Bytewise_Compare start r = Some c \<and> c < 0))))
   \<and> (length start < 8 \<or> length limit < 8 \<longrightarrow>
     InternalKeyComparator_FindShortestSeparator Bytewise_Compare Bytewise_FindShortestSeparator start limit = None)
   \<and> (length start < 8 \<longrightarrow>
     InternalKeyComparator_FindShortSuccessor Bytewise_Compare Bytewise_FindShortSuccessor start = None)"
  using bytewise.ikc_separator [of start limit] bytewise.ikc_successor [of start]
    shortening_short_key(1) [where start = start and limit = limit] shortening_short_key(2) [where start = start]
  by (fastforce simp: InternalKeyComparator_Compare_eq)

theorem internal_separator_ok_witness:
  "(\<exists>r. InternalKeyComparator_FindShortestSeparator Bytewise_Compare Bytewise_FindShortestSeparator
      (ikey [97, 98, 99] 5) (ikey [97, 122] 7) = Some r \<and> length r \<le> 11)
   \<and> InternalKeyComparator_FindShortSuccessor Bytewise_Compare Bytewise_FindShortSuccessor [1, 2] = None"
  using internal_separator_ok [of "ikey [97, 98, 99] 5" "ikey [97, 122] 7"] internal_separator_ok [of "[1, 2]" "[]"]
  by auto

text \<open>Order of internal keys over a user comparator that recognises equal keys: ascending by
  user key and, for one user key, descending by sequence number, so that the newest version
  comes first.\<close>

theorem internal_key_newest_first:
  assumes "ucmp u u = 0" and "s1 < s2" and "s2 \<le> kMaxSequenceNumber"
  shows "InternalKeyComparator_Compare ucmp (ikey u (tag_of s2 t2)) (ikey u (tag_of s1 t1)) = Some (-1)
    \<and> InternalKeyComparator_Compare ucmp (ikey u (tag_of s1 t1)) (ikey u (tag_of s2 t2)) = Some 1"
  using assms(1) tag_of_less [OF assms(2,3), of t1 t2]
  by (simp add: InternalKeyComparator_Compare_eq internal_compare_def order.asym)

theorem internal_key_newest_first_witness:
  "InternalKeyComparator_Compare (\<lambda>a b. 0) (ikey [1] (tag_of 9 kTypeValue)) (ikey [1] (tag_of 3 kTypeDeletion)) = Some (-1)"
  using internal_key_newest_first [of "\<lambda>a b. 0" "[1]" 3 9 kTypeValue kTypeDeletion]
  by (simp add: kMaxSequenceNumber_def)

text \<open>\<open>LookupKey\<close> lays out the varint of the internal key's length, the user key and the seek
  tag of the sequence number; its three views are those parts, and what the constructor writes
  fits into the buffer it chose.\<close>

theorem lookup_key_layout:
  assumes "sequence \<le> kMaxSequenceNumber"
  shows "\<exists>k. LookupKey_new u sequence = Some k
    \<and> memtable_key k = EncodeVarint32 (of_nat (length u + 8)) @ internal_key k
    \<and> internal_key k = ikey u (tag_of sequence kTypeValue)
    \<and> LookupKey_user_key k = u
    \<and> length (lk_bytes k) \<le> lk_capacity k"
  using LookupKey_new_Some [OF assms, of u] by auto

theorem lookup_key_layout_witness:
  "\<exists>k. LookupKey_new [7] 3 = Some k \<and> LookupKey_user_key k = [7]"
proof -
  have "3 \<le> kMaxSequenceNumber" by (simp add: kMaxSequenceNumber_def)
  then show ?thesis using lookup_key_layout [of 3 "[7]"] by blast
qed

end
