(* ===== verification/Env_File.thy ===== *)
theory Env_File
  imports Status "HOL-Library.Monad_Syntax"
begin

text \<open>
  The file classes of the environment: the interfaces \<open>WritableFile\<close> and \<open>SequentialFile\<close>
  (\<open>env/env.h\<close>) as locales, and their POSIX implementations \<open>PosixWritableFile\<close> and
  \<open>PosixSequentialFile\<close> (\<open>env/env_posix.cpp\<close>) over the system calls of the kernel.

  The kernel is a parameter: the record \<open>sys\<close> gives each system call as a function on an
  abstract kernel state.  A call that may block or retry for ever has the result \<open>None\<close> when
  it does not return.
\<close>

section \<open>System calls\<close>

text \<open>A result of at least 0, or -1 with \<open>errno\<close>.\<close>

datatype 'a sysres = Ret 'a | Err nat

record 'os sys =
  sys_read :: "int \<Rightarrow> nat \<Rightarrow> 'os \<Rightarrow> bytes sysres \<times> 'os"
  sys_lseek_cur :: "int \<Rightarrow> nat \<Rightarrow> 'os \<Rightarrow> unit sysres \<times> 'os"
  sys_write :: "int \<Rightarrow> bytes \<Rightarrow> 'os \<Rightarrow> nat sysres \<times> 'os"
  sys_close :: "int \<Rightarrow> 'os \<Rightarrow> unit sysres \<times> 'os"
  sys_sync :: "int \<Rightarrow> 'os \<Rightarrow> unit sysres \<times> 'os"
  sys_open_rd :: "bytes \<Rightarrow> 'os \<Rightarrow> int sysres \<times> 'os"
  sys_strerror :: "nat \<Rightarrow> bytes"

text \<open>Error numbers of Linux.\<close>

definition EINTR :: nat where "EINTR = 4"
definition ENOENT :: nat where "ENOENT = 2"
definition ENONET :: nat where "ENONET = 64"
definition EINVAL :: nat where "EINVAL = 22"

definition PosixError :: "(nat \<Rightarrow> bytes) \<Rightarrow> bytes \<Rightarrow> nat \<Rightarrow> Status" where
  "PosixError strerror context error_number =
     (if error_number = ENONET then Status_NotFound context (strerror error_number)
      else Status_IOError context (strerror error_number))"

section \<open>PosixSequentialFile\<close>

record 'os seqfile =
  sf_fd :: int
  sf_filename :: bytes
  sf_os :: 'os

text \<open>
  On an error other than \<open>EINTR\<close> the code sets the status and still builds
  \<open>Slice(scratch, read_size)\<close> with \<open>read_size = -1\<close>, a slice of size \<open>2 ^ 64 - 1\<close>; its
  bytes are those of the caller's scratch buffer.
\<close>

partial_function (option) PosixSequentialFile_Read ::
  "'os sys \<Rightarrow> 'os seqfile \<Rightarrow> nat \<Rightarrow> bytes \<Rightarrow> (Status \<times> slice \<times> 'os seqfile) option" where
  "PosixSequentialFile_Read sys f n scratch =
     (case sys_read sys (sf_fd f) n (sf_os f) of
        (Err e, os) \<Rightarrow>
          if e = EINTR then PosixSequentialFile_Read sys (f\<lparr>sf_os := os\<rparr>) n scratch
          else Some (PosixError (sys_strerror sys) (sf_filename f) e,
                     Slice_ptr scratch (2 ^ 64 - 1), f\<lparr>sf_os := os\<rparr>)
      | (Ret d, os) \<Rightarrow>
          Some (Status_OK, Slice_ptr (write_at 0 d scratch) (length d), f\<lparr>sf_os := os\<rparr>))"

definition PosixSequentialFile_Skip ::
  "'os sys \<Rightarrow> 'os seqfile \<Rightarrow> nat \<Rightarrow> Status \<times> 'os seqfile" where
  "PosixSequentialFile_Skip sys f n =
     (case sys_lseek_cur sys (sf_fd f) n (sf_os f) of
        (Err e, os) \<Rightarrow> (PosixError (sys_strerror sys) (sf_filename f) e, f\<lparr>sf_os := os\<rparr>)
      | (Ret _, os) \<Rightarrow> (Status_OK, f\<lparr>sf_os := os\<rparr>))"

section \<open>PosixWritableFile\<close>

definition kWritableFileBufferSize :: nat where
  "kWritableFileBufferSize = 65536"

text \<open>\<open>wf_buf\<close> is \<open>buf_[0 .. pos_)\<close>, so that \<open>pos_\<close> is its length.\<close>

record 'os writefile =
  wf_buf :: bytes
  wf_fd :: int
  wf_is_manifest :: bool
  wf_filename :: bytes
  wf_dirname :: bytes
  wf_os :: 'os

abbreviation wf_pos :: "'os writefile \<Rightarrow> nat" where
  "wf_pos f \<equiv> length (wf_buf f)"

text \<open>\<open>rfind ('/')\<close>\<close>

definition Dirname :: "bytes \<Rightarrow> bytes" where
  "Dirname filename =
     (if 47 \<notin> set filename then str ''.''
      else rev (tl (dropWhile (\<lambda>c. c \<noteq> 47) (rev filename))))"

definition Basename :: "bytes \<Rightarrow> bytes" where
  "Basename filename = rev (takeWhile (\<lambda>c. c \<noteq> 47) (rev filename))"

definition IsManifest :: "bytes \<Rightarrow> bool" where
  "IsManifest filename = starts_with (Slice_string (Basename filename)) (Slice_cstr (str ''MANIFEST'' @ [0]))"

text \<open>
  The members are initialised in the order of their declaration, \<open>filename_\<close> before
  \<open>dirname_\<close>: \<open>Dirname(filename)\<close> is applied to the parameter after \<open>std::move(filename)\<close>.
  The contents of a moved-from string are unspecified, the parameter \<open>moved\<close>.
\<close>

definition PosixWritableFile_new :: "(bytes \<Rightarrow> bytes) \<Rightarrow> bytes \<Rightarrow> int \<Rightarrow> 'os \<Rightarrow> 'os writefile" where
  "PosixWritableFile_new moved filename fd os =
     \<lparr>wf_buf = [], wf_fd = fd, wf_is_manifest = IsManifest filename, wf_filename = filename,
      wf_dirname = Dirname (moved filename), wf_os = os\<rparr>"

partial_function (option) WriteUnbuffered ::
  "'os sys \<Rightarrow> 'os writefile \<Rightarrow> bytes \<Rightarrow> (Status \<times> 'os writefile) option" where
  "WriteUnbuffered sys f data =
     (if data = [] then Some (Status_OK, f)
      else
        (case sys_write sys (wf_fd f) data (wf_os f) of
           (Err e, os) \<Rightarrow>
             if e = EINTR then WriteUnbuffered sys (f\<lparr>wf_os := os\<rparr>) data
             else Some (PosixError (sys_strerror sys) (wf_filename f) e, f\<lparr>wf_os := os\<rparr>)
         | (Ret n, os) \<Rightarrow> WriteUnbuffered sys (f\<lparr>wf_os := os\<rparr>) (drop n data)))"

definition FlushBuffer :: "'os sys \<Rightarrow> 'os writefile \<Rightarrow> (Status \<times> 'os writefile) option" where
  "FlushBuffer sys f =
     do {
       (status, f) \<leftarrow> WriteUnbuffered sys f (wf_buf f);
       Some (status, f\<lparr>wf_buf := []\<rparr>)
     }"

definition PosixWritableFile_Append ::
  "'os sys \<Rightarrow> 'os writefile \<Rightarrow> bytes \<Rightarrow> (Status \<times> 'os writefile) option" where
  "PosixWritableFile_Append sys f data =
     (let copy_size = min (length data) (kWritableFileBufferSize - wf_pos f);
          f = f\<lparr>wf_buf := wf_buf f @ take copy_size data\<rparr>;
          write_data = drop copy_size data in
      if write_data = [] then Some (Status_OK, f)
      else
        do {
          (status, f) \<leftarrow> FlushBuffer sys f;
          if \<not> Status_ok status then Some (status, f)
          else if length write_data < kWritableFileBufferSize
            then Some (Status_OK, f\<lparr>wf_buf := write_data\<rparr>)
          else WriteUnbuffered sys f write_data
        })"

definition PosixWritableFile_Flush ::
  "'os sys \<Rightarrow> 'os writefile \<Rightarrow> (Status \<times> 'os writefile) option" where
  "PosixWritableFile_Flush sys f = FlushBuffer sys f"

definition PosixWritableFile_Close ::
  "'os sys \<Rightarrow> 'os writefile \<Rightarrow> (Status \<times> 'os writefile) option" where
  "PosixWritableFile_Close sys f =
     do {
       (status, f) \<leftarrow> FlushBuffer sys f;
       let (r, os) = sys_close sys (wf_fd f) (wf_os f);
           status' = (case r of
               Err e \<Rightarrow> if Status_ok status then PosixError (sys_strerror sys) (wf_filename f) e else status
             | Ret _ \<Rightarrow> status) in
       Some (status', f\<lparr>wf_os := os, wf_fd := -1\<rparr>)
     }"

text \<open>\<open>SyncFd\<close> in a build without \<open>HAVE_FULLFSYNC\<close>: \<open>fdatasync\<close> or \<open>fsync\<close>, one call.\<close>

definition SyncFd :: "'os sys \<Rightarrow> int \<Rightarrow> bytes \<Rightarrow> 'os \<Rightarrow> Status \<times> 'os" where
  "SyncFd sys fd fd_path os =
     (case sys_sync sys fd os of
        (Ret _, os) \<Rightarrow> (Status_OK, os)
      | (Err e, os) \<Rightarrow> (PosixError (sys_strerror sys) fd_path e, os))"

definition SyncDirIfManifest :: "'os sys \<Rightarrow> 'os writefile \<Rightarrow> Status \<times> 'os writefile" where
  "SyncDirIfManifest sys f =
     (if \<not> wf_is_manifest f then (Status_OK, f)
      else
        (case sys_open_rd sys (wf_dirname f) (wf_os f) of
           (Err e, os) \<Rightarrow> (PosixError (sys_strerror sys) (wf_dirname f) e, f\<lparr>wf_os := os\<rparr>)
         | (Ret fd, os) \<Rightarrow>
             (let (status, os) = SyncFd sys fd (wf_dirname f) os;
                  (r, os) = sys_close sys fd os in
              (status, f\<lparr>wf_os := os\<rparr>))))"

definition PosixWritableFile_Sync ::
  "'os sys \<Rightarrow> 'os writefile \<Rightarrow> (Status \<times> 'os writefile) option" where
  "PosixWritableFile_Sync sys f =
     (let (status, f) = SyncDirIfManifest sys f in
      if \<not> Status_ok status then Some (status, f)
      else
        do {
          (status, f) \<leftarrow> FlushBuffer sys f;
          if \<not> Status_ok status then Some (status, f)
          else
            let (status, os) = SyncFd sys (wf_fd f) (wf_filename f) (wf_os f) in
            Some (status, f\<lparr>wf_os := os\<rparr>)
        })"

section \<open>The interfaces\<close>

text \<open>
  A file that takes every byte: an append succeeds and extends the contents, a flush succeeds
  and keeps them.
\<close>

locale writable_file =
  fixes Append :: "'f \<Rightarrow> bytes \<Rightarrow> (Status \<times> 'f) option"
    and Flush :: "'f \<Rightarrow> (Status \<times> 'f) option"
    and contents :: "'f \<Rightarrow> bytes"
    and invar :: "'f \<Rightarrow> bool"
  assumes Append_ok: "invar f \<Longrightarrow>
      \<exists>f'. Append f d = Some (Status_OK, f') \<and> invar f' \<and> contents f' = contents f @ d"
    and Flush_ok: "invar f \<Longrightarrow>
      \<exists>f'. Flush f = Some (Status_OK, f') \<and> invar f' \<and> contents f' = contents f"

text \<open>Appending a list of pieces, up to the first failure.\<close>

fun append_all :: "('f \<Rightarrow> bytes \<Rightarrow> (Status \<times> 'f) option) \<Rightarrow> 'f \<Rightarrow> bytes list \<Rightarrow> (Status \<times> 'f) option" where
  "append_all Append f [] = Some (Status_OK, f)"
| "append_all Append f (d # ds) =
     do {
       (status, f) \<leftarrow> Append f d;
       if Status_ok status then append_all Append f ds else Some (status, f)
     }"

context writable_file
begin

lemma append_all_ok:
  "invar f \<Longrightarrow> \<exists>f'. append_all Append f ds = Some (Status_OK, f') \<and> invar f'
     \<and> contents f' = contents f @ concat ds"
proof (induction ds arbitrary: f)
  case (Cons d ds)
  then obtain f1 where f1: "Append f d = Some (Status_OK, f1)" "invar f1" "contents f1 = contents f @ d"
    using Append_ok by blast
  with Cons.IH [OF f1(2)] show ?case by auto
qed simp

end

text \<open>
  A file that is read from front to back: a read returns as many of the remaining bytes as
  asked for, fewer only at the end; a skip drops bytes, at most all of them.
\<close>

locale sequential_file =
  fixes Read :: "'f \<Rightarrow> nat \<Rightarrow> (Status \<times> slice \<times> 'f) option"
    and Skip :: "'f \<Rightarrow> nat \<Rightarrow> Status \<times> 'f"
    and remaining :: "'f \<Rightarrow> bytes"
  assumes Read_ok: "\<exists>s f'. Read f n = Some (Status_OK, s, f') \<and> slice_wf s
      \<and> slice_bytes s = take n (remaining f) \<and> remaining f' = drop n (remaining f)"
    and Skip_ok: "n < 2 ^ 63 \<Longrightarrow>
      \<exists>f'. Skip f n = (Status_OK, f') \<and> remaining f' = drop n (remaining f)"

section \<open>The POSIX files over a kernel that works\<close>

text \<open>
  Documented behaviour of \<open>write\<close> on a regular file with space left: it transfers at least one
  byte and possibly fewer than asked, and appends what it transferred.
\<close>

locale kernel_write =
  fixes sys :: "'os sys" and on_disk :: "int \<Rightarrow> 'os \<Rightarrow> bytes"
  assumes write_progress: "d \<noteq> [] \<Longrightarrow> \<exists>n os'. sys_write sys fd d os = (Ret n, os')
      \<and> 0 < n \<and> n \<le> length d \<and> on_disk fd os' = on_disk fd os @ take n d"
begin

lemma WriteUnbuffered_ok:
  "\<exists>os'. WriteUnbuffered sys f data = Some (Status_OK, f\<lparr>wf_os := os'\<rparr>)
     \<and> on_disk (wf_fd f) os' = on_disk (wf_fd f) (wf_os f) @ data"
proof (induction data arbitrary: f rule: length_induct)
  case (1 data)
  show ?case
  proof (cases "data = []")
    case True
    then show ?thesis
      by (intro exI [of _ "wf_os f"]) (simp add: WriteUnbuffered.simps)
  next
    case False
    then obtain n os where w: "sys_write sys (wf_fd f) data (wf_os f) = (Ret n, os)"
      and n: "0 < n" "n \<le> length data"
      and os: "on_disk (wf_fd f) os = on_disk (wf_fd f) (wf_os f) @ take n data"
      using write_progress by blast
    from False n have "length (drop n data) < length data" by simp
    with "1.IH" have "\<exists>os'. WriteUnbuffered sys (f\<lparr>wf_os := os\<rparr>) (drop n data)
        = Some (Status_OK, f\<lparr>wf_os := os, wf_os := os'\<rparr>)
      \<and> on_disk (wf_fd (f\<lparr>wf_os := os\<rparr>)) os'
        = on_disk (wf_fd (f\<lparr>wf_os := os\<rparr>)) (wf_os (f\<lparr>wf_os := os\<rparr>)) @ drop n data"
      by blast
    then obtain os' where
      "WriteUnbuffered sys (f\<lparr>wf_os := os\<rparr>) (drop n data) = Some (Status_OK, f\<lparr>wf_os := os'\<rparr>)"
      "on_disk (wf_fd f) os' = on_disk (wf_fd f) os @ drop n data"
      by auto
    then show ?thesis
      using False w os by (intro exI [of _ os']) (simp add: WriteUnbuffered.simps [of sys f data])
  qed
qed

lemma FlushBuffer_ok:
  "\<exists>os'. FlushBuffer sys f = Some (Status_OK, f\<lparr>wf_os := os', wf_buf := []\<rparr>)
     \<and> on_disk (wf_fd f) os' = on_disk (wf_fd f) (wf_os f) @ wf_buf f"
  using WriteUnbuffered_ok [of f "wf_buf f"] by (auto simp: FlushBuffer_def)

end

text \<open>What the file holds when its buffer is written out, and the bound of the buffer.\<close>

definition writefile_contents :: "(int \<Rightarrow> 'os \<Rightarrow> bytes) \<Rightarrow> 'os writefile \<Rightarrow> bytes" where
  "writefile_contents on_disk f = on_disk (wf_fd f) (wf_os f) @ wf_buf f"

definition writefile_inv :: "int \<Rightarrow> 'os writefile \<Rightarrow> bool" where
  "writefile_inv fd f \<longleftrightarrow> wf_fd f = fd \<and> wf_pos f \<le> kWritableFileBufferSize"

context kernel_write
begin

lemma Append_contents:
  assumes "writefile_inv fd f"
  shows "\<exists>f'. PosixWritableFile_Append sys f d = Some (Status_OK, f') \<and> writefile_inv fd f'
    \<and> writefile_contents on_disk f' = writefile_contents on_disk f @ d"
proof -
  define c where "c = min (length d) (kWritableFileBufferSize - wf_pos f)"
  define f1 where "f1 = f\<lparr>wf_buf := wf_buf f @ take c d\<rparr>"
  have inv1: "writefile_inv fd f1"
    using assms by (auto simp: writefile_inv_def f1_def c_def)
  have con1: "writefile_contents on_disk f1 = writefile_contents on_disk f @ take c d"
    by (simp add: writefile_contents_def f1_def)
  show ?thesis
  proof (cases "drop c d = []")
    case True
    then show ?thesis
      using inv1 con1 by (simp add: PosixWritableFile_Append_def Let_def c_def f1_def)
  next
    case False
    obtain os2 where fl: "FlushBuffer sys f1 = Some (Status_OK, f1\<lparr>wf_os := os2, wf_buf := []\<rparr>)"
      and os2: "on_disk (wf_fd f1) os2 = writefile_contents on_disk f1"
      using FlushBuffer_ok [of f1] by (auto simp: writefile_contents_def)
    define f2 where "f2 = f1\<lparr>wf_os := os2, wf_buf := []\<rparr>"
    have app: "PosixWritableFile_Append sys f d =
      (if length (drop c d) < kWritableFileBufferSize
       then Some (Status_OK, f2\<lparr>wf_buf := drop c d\<rparr>) else WriteUnbuffered sys f2 (drop c d))"
      using False fl unfolding PosixWritableFile_Append_def Let_def f2_def
      by (simp add: f1_def [symmetric] c_def [symmetric])
    have con2: "on_disk (wf_fd f2) os2 = writefile_contents on_disk f @ take c d"
      using os2 con1 by (simp add: f2_def)
    show ?thesis
    proof (cases "length (drop c d) < kWritableFileBufferSize")
      case True
      then show ?thesis
        using app con2 inv1 by (simp add: f2_def writefile_inv_def writefile_contents_def)
    next
      case False
      obtain os3 where "WriteUnbuffered sys f2 (drop c d) = Some (Status_OK, f2\<lparr>wf_os := os3\<rparr>)"
        "on_disk (wf_fd f2) os3 = on_disk (wf_fd f2) (wf_os f2) @ drop c d"
        using WriteUnbuffered_ok [of f2] by blast
      then show ?thesis
        using app con2 inv1 False by (simp add: f2_def writefile_inv_def writefile_contents_def)
    qed
  qed
qed

lemma Flush_contents:
  assumes "writefile_inv fd f"
  shows "\<exists>f'. PosixWritableFile_Flush sys f = Some (Status_OK, f') \<and> writefile_inv fd f'
    \<and> writefile_contents on_disk f' = writefile_contents on_disk f
    \<and> on_disk (wf_fd f') (wf_os f') = writefile_contents on_disk f"
  using assms FlushBuffer_ok [of f]
  by (auto simp: PosixWritableFile_Flush_def writefile_inv_def writefile_contents_def)

end

sublocale kernel_write \<subseteq> posix_write: writable_file
  "PosixWritableFile_Append sys" "PosixWritableFile_Flush sys"
  "writefile_contents on_disk" "writefile_inv fd"
  for fd
  by unfold_locales (use Append_contents Flush_contents in blast)+

context kernel_write
begin

lemmas Append_all_contents = posix_write.append_all_ok

end

text \<open>
  Documented behaviour of \<open>read\<close> on a regular file: it returns the next \<open>n\<close> bytes, fewer only
  at the end of the file.  \<open>lseek\<close> relative to the current offset moves past \<open>n\<close> bytes, possibly
  beyond the end, when \<open>n\<close> is not negative as an \<open>off_t\<close>.
\<close>

locale kernel_read =
  fixes sys :: "'os sys" and left :: "int \<Rightarrow> 'os \<Rightarrow> bytes" and scratch :: bytes
  assumes read_next: "\<exists>os'. sys_read sys fd n os = (Ret (take n (left fd os)), os')
      \<and> left fd os' = drop n (left fd os)"
    and seek_next: "n < 2 ^ 63 \<Longrightarrow> \<exists>os'. sys_lseek_cur sys fd n os = (Ret (), os')
      \<and> left fd os' = drop n (left fd os)"

definition seqfile_left :: "(int \<Rightarrow> 'os \<Rightarrow> bytes) \<Rightarrow> 'os seqfile \<Rightarrow> bytes" where
  "seqfile_left left f = left (sf_fd f) (sf_os f)"

lemma Slice_ptr_write_at:
  "slice_bytes (Slice_ptr (write_at 0 d m) (length d)) = d" "slice_wf (Slice_ptr (write_at 0 d m) (length d))"
  by (simp_all add: slice_ToString_def Slice_ptr_def write_at_def slice_wf_def)

sublocale kernel_read \<subseteq> posix_read: sequential_file
  "\<lambda>f n. PosixSequentialFile_Read sys f n scratch" "PosixSequentialFile_Skip sys" "seqfile_left left"
proof
  fix f :: "'os seqfile" and n
  obtain os where "sys_read sys (sf_fd f) n (sf_os f) = (Ret (take n (left (sf_fd f) (sf_os f))), os)"
    "left (sf_fd f) os = drop n (left (sf_fd f) (sf_os f))"
    using read_next by blast
  then show "\<exists>s f'. PosixSequentialFile_Read sys f n scratch = Some (Status_OK, s, f') \<and> slice_wf s
      \<and> slice_bytes s = take n (seqfile_left left f) \<and> seqfile_left left f' = drop n (seqfile_left left f)"
    using Slice_ptr_write_at [of "take n (left (sf_fd f) (sf_os f))" scratch]
    by (simp add: PosixSequentialFile_Read.simps seqfile_left_def)
next
  fix f :: "'os seqfile" and n :: nat
  assume "n < 2 ^ 63"
  then obtain os where "sys_lseek_cur sys (sf_fd f) n (sf_os f) = (Ret (), os)"
    "left (sf_fd f) os = drop n (left (sf_fd f) (sf_os f))"
    using seek_next by blast
  then show "\<exists>f'. PosixSequentialFile_Skip sys f n = (Status_OK, f')
      \<and> seqfile_left left f' = drop n (seqfile_left left f)"
    by (simp add: PosixSequentialFile_Skip_def seqfile_left_def)
qed

text \<open>
  A kernel that satisfies both: one regular file, \<open>write\<close> transfers at most 4096 bytes per call.
\<close>

record memfile =
  mf_data :: bytes
  mf_pos :: nat

definition mem_sys :: "memfile sys" where
  "mem_sys =
     \<lparr>sys_read = (\<lambda>fd n m. (Ret (take n (drop (mf_pos m) (mf_data m))),
        m\<lparr>mf_pos := mf_pos m + min n (length (mf_data m) - mf_pos m)\<rparr>)),
      sys_lseek_cur = (\<lambda>fd n m. (Ret (), m\<lparr>mf_pos := mf_pos m + n\<rparr>)),
      sys_write = (\<lambda>fd d m. (Ret (min 4096 (length d)), m\<lparr>mf_data := mf_data m @ take 4096 d\<rparr>)),
      sys_close = (\<lambda>fd m. (Ret (), m)),
      sys_sync = (\<lambda>fd m. (Ret (), m)),
      sys_open_rd = (\<lambda>name m. (Ret 3, m)),
      sys_strerror = (\<lambda>e. str ''error'')\<rparr>"

interpretation memk: kernel_write mem_sys "\<lambda>fd. mf_data"
proof
  fix d :: bytes and fd os
  assume "d \<noteq> []"
  then show "\<exists>n os'. sys_write mem_sys fd d os = (Ret n, os') \<and> 0 < n \<and> n \<le> length d
      \<and> mf_data os' = mf_data os @ take n d"
    by (auto simp: mem_sys_def min_def)
qed

interpretation memr: kernel_read mem_sys "\<lambda>fd m. drop (mf_pos m) (mf_data m)" scratch
  for scratch
proof
  fix fd n and os :: memfile
  have "drop (mf_pos os + min n (length (mf_data os) - mf_pos os)) (mf_data os)
    = drop n (drop (mf_pos os) (mf_data os))"
    by (cases "n \<le> length (mf_data os) - mf_pos os") (auto simp: min_def add.commute)
  then show "\<exists>os'. sys_read mem_sys fd n os = (Ret (take n (drop (mf_pos os) (mf_data os))), os')
      \<and> drop (mf_pos os') (mf_data os') = drop n (drop (mf_pos os) (mf_data os))"
    by (simp add: mem_sys_def)
qed (simp add: mem_sys_def add.commute)

section \<open>Properties\<close>

text \<open>C8. Nothing is lost on the way to the disk: over a kernel whose \<open>write\<close> makes progress, any
  sequence of \<open>Append\<close>s on a file with a valid buffer returns, succeeds and keeps the buffer
  valid; a \<open>Flush\<close> after it returns, succeeds, empties the buffer and leaves on the disk what was
  there, the buffered bytes and all appended pieces, in order.\<close>

theorem appends_reach_disk:
  assumes "kernel_write sys on_disk" and "writefile_inv fd f"
  shows "\<exists>f1 f2. append_all (PosixWritableFile_Append sys) f ds = Some (Status_OK, f1)
    \<and> writefile_inv fd f1 \<and> PosixWritableFile_Flush sys f1 = Some (Status_OK, f2)
    \<and> wf_buf f2 = [] \<and> wf_fd f2 = fd
    \<and> on_disk fd (wf_os f2) = on_disk fd (wf_os f) @ wf_buf f @ concat ds"
proof -
  from assms obtain f1 where f1: "append_all (PosixWritableFile_Append sys) f ds = Some (Status_OK, f1)"
    "writefile_inv fd f1" "writefile_contents on_disk f1 = writefile_contents on_disk f @ concat ds"
    using kernel_write.Append_all_contents by blast
  from kernel_write.FlushBuffer_ok [OF assms(1), of f1] obtain os2 where
    "PosixWritableFile_Flush sys f1 = Some (Status_OK, f1\<lparr>wf_os := os2, wf_buf := []\<rparr>)"
    "on_disk fd os2 = writefile_contents on_disk f1"
    using f1(2) by (auto simp: PosixWritableFile_Flush_def writefile_contents_def writefile_inv_def)
  with f1 assms(2) show ?thesis
    by (simp add: writefile_contents_def writefile_inv_def)
qed

theorem appends_reach_disk_witness:
  "\<exists>f1 f2. append_all (PosixWritableFile_Append mem_sys)
      (PosixWritableFile_new (\<lambda>_. []) (str ''db/LOG'') 7 \<lparr>mf_data = [1], mf_pos = 0\<rparr>) [[2], [3, 4]]
        = Some (Status_OK, f1)
    \<and> writefile_inv 7 f1 \<and> PosixWritableFile_Flush mem_sys f1 = Some (Status_OK, f2)
    \<and> wf_buf f2 = [] \<and> wf_fd f2 = 7 \<and> mf_data (wf_os f2) = [1, 2, 3, 4]"
  using appends_reach_disk [OF memk.kernel_write_axioms, of 7
      "PosixWritableFile_new (\<lambda>_. []) (str ''db/LOG'') 7 \<lparr>mf_data = [1], mf_pos = 0\<rparr>" "[[2], [3, 4]]"]
  by (simp add: writefile_inv_def PosixWritableFile_new_def)

text \<open>
  A write of some data that fails with an error: after any number of short writes and of interrupted calls, the
  kernel refuses what is left.
\<close>

inductive write_fails :: "'os sys \<Rightarrow> int \<Rightarrow> bytes \<Rightarrow> 'os \<Rightarrow> nat \<Rightarrow> 'os \<Rightarrow> bool"
  for sys fd where
  refused: "data \<noteq> [] \<Longrightarrow> sys_write sys fd data os = (Err e, os') \<Longrightarrow> e \<noteq> EINTR \<Longrightarrow> write_fails sys fd data os e os'"
| interrupted: "data \<noteq> [] \<Longrightarrow> sys_write sys fd data os = (Err EINTR, mid) \<Longrightarrow> write_fails sys fd data mid e os' \<Longrightarrow>
    write_fails sys fd data os e os'"
| short: "data \<noteq> [] \<Longrightarrow> sys_write sys fd data os = (Ret n, mid) \<Longrightarrow> write_fails sys fd (drop n data) mid e os' \<Longrightarrow>
    write_fails sys fd data os e os'"

lemma WriteUnbuffered_fails:
  assumes "write_fails sys fd data os e os'"
  shows "wf_fd f = fd \<Longrightarrow> wf_os f = os \<Longrightarrow>
    WriteUnbuffered sys f data = Some (PosixError (sys_strerror sys) (wf_filename f) e, f\<lparr>wf_os := os'\<rparr>)"
  using assms
proof (induction arbitrary: f)
  case (refused data os e os')
  then show ?case by (simp add: WriteUnbuffered.simps [of sys f])
next
  case (interrupted data os mid e os')
  then show ?case by (simp add: WriteUnbuffered.simps [of sys f])
next
  case (short data os n mid e os')
  then show ?case by (simp add: WriteUnbuffered.simps [of sys f])
qed

lemma FlushBuffer_fails:
  assumes "write_fails sys (wf_fd f) (wf_buf f) (wf_os f) e os"
  shows "FlushBuffer sys f = Some (PosixError (sys_strerror sys) (wf_filename f) e, f\<lparr>wf_os := os, wf_buf := []\<rparr>)"
  using WriteUnbuffered_fails [OF assms refl refl] by (simp add: FlushBuffer_def)

text \<open>C33. The status of a failing \<open>write\<close> is reported and the buffered bytes are dropped.  If the kernel refuses the
  bytes of a buffer, at once or after any number of short writes and of calls interrupted by a signal, with an
  error other than \<open>EINTR\<close>: \<open>Flush\<close>, \<open>Close\<close>, \<open>Sync\<close> (of a manifest too, after its directory has been synced) and
  an \<open>Append\<close> that fills the buffer return that error as an I/O error (not found only for \<open>ENONET\<close>) with an
  empty buffer, so that what was not written is lost.  A missing file, \<open>ENOENT\<close>, is not reported as not
  found.\<close>

theorem failed_flush_reports_and_drops:
  assumes "write_fails sys (wf_fd f) (wf_buf f) (wf_os f) e os"
  defines "err \<equiv> PosixError (sys_strerror sys) (wf_filename f) e"
  shows "PosixWritableFile_Flush sys f = Some (err, f\<lparr>wf_os := os, wf_buf := []\<rparr>)
    \<and> (\<exists>f'. PosixWritableFile_Close sys f = Some (err, f') \<and> wf_buf f' = [] \<and> wf_fd f' = -1)
    \<and> (\<forall>g. SyncDirIfManifest sys g = (Status_OK, f) \<longrightarrow>
         PosixWritableFile_Sync sys g = Some (err, f\<lparr>wf_os := os, wf_buf := []\<rparr>))
    \<and> (\<forall>g d. f = g\<lparr>wf_buf := wf_buf g @ take (kWritableFileBufferSize - wf_pos g) d\<rparr>
           \<and> kWritableFileBufferSize - wf_pos g < length d \<longrightarrow>
         PosixWritableFile_Append sys g d = Some (err, f\<lparr>wf_os := os, wf_buf := []\<rparr>))
    \<and> \<not> Status_ok err \<and> (if e = ENONET then IsNotFound err else IsIOError err)
    \<and> IsIOError (PosixError (sys_strerror sys) (wf_filename f) ENOENT)"
proof -
  have ko: "\<not> Status_ok err" and kind: "if e = ENONET then IsNotFound err else IsIOError err"
    and noent: "IsIOError (PosixError (sys_strerror sys) (wf_filename f) ENOENT)"
    by (simp_all add: err_def PosixError_def ENOENT_def ENONET_def)
  have fl: "FlushBuffer sys f = Some (err, f\<lparr>wf_os := os, wf_buf := []\<rparr>)"
    using FlushBuffer_fails [OF assms(1)] by (simp add: err_def)
  then have "\<exists>f'. PosixWritableFile_Close sys f = Some (err, f') \<and> wf_buf f' = [] \<and> wf_fd f' = -1"
    using ko by (auto simp: PosixWritableFile_Close_def split: prod.splits sysres.splits)
  moreover have "PosixWritableFile_Append sys g d = Some (err, f\<lparr>wf_os := os, wf_buf := []\<rparr>)"
    if g: "f = g\<lparr>wf_buf := wf_buf g @ take (kWritableFileBufferSize - wf_pos g) d\<rparr>"
      and d: "kWritableFileBufferSize - wf_pos g < length d" for g d
  proof -
    have "min (length d) (kWritableFileBufferSize - wf_pos g) = kWritableFileBufferSize - wf_pos g" using d by simp
    then show ?thesis
      using fl ko d unfolding PosixWritableFile_Append_def Let_def g [symmetric] by (simp flip: g)
  qed
  ultimately show ?thesis
    using fl ko kind noent by (simp add: PosixWritableFile_Flush_def PosixWritableFile_Sync_def)
qed

text \<open>A kernel whose disk has room for one byte, and which is interrupted once before it finds out.\<close>

definition full_sys :: "memfile sys" where
  "full_sys = mem_sys\<lparr>sys_write := (\<lambda>fd d m.
     if mf_data m = [] then (Ret 1, m\<lparr>mf_data := take 1 d\<rparr>)
     else if mf_pos m = 0 then (Err EINTR, m\<lparr>mf_pos := 1\<rparr>)
     else (Err 28, m))\<rparr>"

theorem failed_flush_reports_and_drops_witness:
  "PosixWritableFile_Sync full_sys
     \<lparr>wf_buf = [1, 2], wf_fd = 7, wf_is_manifest = False, wf_filename = str ''LOG'', wf_dirname = str ''.'',
      wf_os = \<lparr>mf_data = [], mf_pos = 0\<rparr>\<rparr>
   = Some (PosixError (sys_strerror full_sys) (str ''LOG'') 28,
     \<lparr>wf_buf = [], wf_fd = 7, wf_is_manifest = False, wf_filename = str ''LOG'', wf_dirname = str ''.'',
      wf_os = \<lparr>mf_data = [1], mf_pos = 1\<rparr>\<rparr>)"
proof -
  let ?f = "\<lparr>wf_buf = [1, 2], wf_fd = 7, wf_is_manifest = False, wf_filename = str ''LOG'', wf_dirname = str ''.'',
      wf_os = \<lparr>mf_data = [], mf_pos = 0\<rparr>\<rparr>"
  have "write_fails full_sys 7 [2] \<lparr>mf_data = [1], mf_pos = 1\<rparr> 28 \<lparr>mf_data = [1], mf_pos = 1\<rparr>"
    by (rule refused) (simp_all add: full_sys_def EINTR_def)
  then have "write_fails full_sys 7 [2] \<lparr>mf_data = [1], mf_pos = 0\<rparr> 28 \<lparr>mf_data = [1], mf_pos = 1\<rparr>"
    by (rule interrupted [rotated 2]) (simp_all add: full_sys_def)
  then have "write_fails full_sys (wf_fd ?f) (wf_buf ?f) (wf_os ?f) 28 \<lparr>mf_data = [1], mf_pos = 1\<rparr>"
    using short [of "[1, 2]" full_sys 7 "\<lparr>mf_data = [], mf_pos = 0\<rparr>" 1 "\<lparr>mf_data = [1], mf_pos = 0\<rparr>"]
    by (simp add: full_sys_def)
  from failed_flush_reports_and_drops [OF this] show ?thesis
    by (simp add: SyncDirIfManifest_def)
qed

text \<open>
  With a moved-from string left empty, as the standard library of GCC does, the directory of every
  writable file is the working directory: \<open>SyncDirIfManifest\<close> then syncs a directory that need not
  hold the manifest.
\<close>

lemma dirname_of_moved_string:
  "wf_dirname (PosixWritableFile_new (\<lambda>_. []) filename fd os) = str ''.''"
  by (simp add: PosixWritableFile_new_def Dirname_def)

end
