(* ===== verification/Log_Format.thy ===== *)
theory Log_Format
  imports Coding
begin

text \<open>
  The format of the write-ahead log (\<open>log/log_format.h\<close>): physical records inside blocks of
  32 KiB, and, as the specification of the writer and the reader, the bytes a logical record takes
  when it is written at a given offset of the log.
\<close>

datatype RecordType = kZeroType | kFullType | kFirstType | kMiddleType | kLastType

fun RecordType_code :: "RecordType \<Rightarrow> nat" where
  "RecordType_code kZeroType = 0"
| "RecordType_code kFullType = 1"
| "RecordType_code kFirstType = 2"
| "RecordType_code kMiddleType = 3"
| "RecordType_code kLastType = 4"

definition kMaxRecordType :: nat where
  "kMaxRecordType = RecordType_code kLastType"

definition kBlockSize :: nat where
  "kBlockSize = 32768"

text \<open>Checksum (4 bytes), length (2 bytes), type (1 byte).\<close>

definition kHeaderSize :: nat where
  "kHeaderSize = 4 + 2 + 1"

lemma RecordType_code_le: "RecordType_code t \<le> kMaxRecordType"
  by (cases t) (simp_all add: kMaxRecordType_def)

section \<open>The image of a record\<close>

text \<open>A physical record: checksum 0, length low byte first, type, payload.\<close>

definition phys_record :: "RecordType \<Rightarrow> bytes \<Rightarrow> bytes" where
  "phys_record t d =
     [0, 0, 0, 0, of_nat (length d), of_nat (length d div 256), of_nat (RecordType_code t)] @ d"

lemma length_phys_record [simp]: "length (phys_record t d) = kHeaderSize + length d"
  by (simp add: phys_record_def kHeaderSize_def)

text \<open>The zero bytes that fill a block whose rest cannot hold a header.\<close>

definition trailer :: "nat \<Rightarrow> nat" where
  "trailer p = (if kBlockSize - p mod kBlockSize < kHeaderSize then kBlockSize - p mod kBlockSize else 0)"

text \<open>The payload that fits behind a header at offset \<open>p\<close>, after the trailer.\<close>

definition room :: "nat \<Rightarrow> nat" where
  "room p = kBlockSize - (p + trailer p) mod kBlockSize - kHeaderSize"

definition fragment_type :: "bool \<Rightarrow> bool \<Rightarrow> RecordType" where
  "fragment_type bgn fin =
     (if bgn \<and> fin then kFullType
      else if bgn then kFirstType
      else if fin then kLastType
      else kMiddleType)"

lemma trailer_cases:
  obtains "p mod kBlockSize \<le> kBlockSize - kHeaderSize" "trailer p = 0"
  | "kBlockSize - kHeaderSize < p mod kBlockSize" "trailer p = kBlockSize - p mod kBlockSize"
    "0 < trailer p" "trailer p < kHeaderSize" "(p + trailer p) mod kBlockSize = 0"
proof (cases "p mod kBlockSize \<le> kBlockSize - kHeaderSize")
  case True
  then show ?thesis using that(1) by (simp add: trailer_def kBlockSize_def kHeaderSize_def)
next
  case False
  have "p mod kBlockSize < kBlockSize" by (simp add: kBlockSize_def)
  moreover from this have "(p + (kBlockSize - p mod kBlockSize)) mod kBlockSize = 0"
    by (subst mod_add_left_eq [symmetric]) simp
  ultimately show ?thesis using that(2) False by (simp add: trailer_def kBlockSize_def kHeaderSize_def)
qed

lemma header_fits: "(p + trailer p) mod kBlockSize + kHeaderSize \<le> kBlockSize"
  by (cases p rule: trailer_cases) (simp_all add: kBlockSize_def kHeaderSize_def)

lemma room_fits: "(p + trailer p) mod kBlockSize + kHeaderSize + room p = kBlockSize"
  using header_fits [of p] by (simp add: room_def)

lemma room_le: "room p \<le> 32761"
  using room_fits [of p] by (simp add: kBlockSize_def kHeaderSize_def)

lemma room_zero: "room p = 0 \<longleftrightarrow> p mod kBlockSize = kBlockSize - kHeaderSize"
proof (cases p rule: trailer_cases)
  case 1
  then show ?thesis using room_fits [of p] by (auto simp: kBlockSize_def kHeaderSize_def)
next
  case 2
  then show ?thesis using room_fits [of p] by (auto simp: kBlockSize_def kHeaderSize_def)
qed

lemma block_full: "(p + trailer p + kHeaderSize + room p) mod kBlockSize = 0"
proof -
  have "((p + trailer p) + (kHeaderSize + room p)) mod kBlockSize
    = ((p + trailer p) mod kBlockSize + (kHeaderSize + room p)) mod kBlockSize"
    by (simp only: mod_add_left_eq)
  then show ?thesis using room_fits [of p] by (simp add: add.assoc)
qed

text \<open>
  The image of a record at offset \<open>p\<close>: as many fragments as the blocks need, each behind a
  header.  A block with exactly seven bytes left takes an empty fragment.
\<close>

function record_image :: "nat \<Rightarrow> bool \<Rightarrow> bytes \<Rightarrow> bytes" where
  "record_image p bgn d =
     (let frag = take (room p) d; rest = drop (room p) d in
      replicate (trailer p) 0 @ phys_record (fragment_type bgn (rest = [])) frag
      @ (if rest = [] then []
         else record_image (p + trailer p + kHeaderSize + length frag) False rest))"
  by pat_completeness auto

termination
proof (relation "measure (\<lambda>(p, bgn, d). 2 * length d + (if p mod kBlockSize = kBlockSize - kHeaderSize then 1 else 0))")
  show "wf (measure (\<lambda>(p, bgn, d). 2 * length d + (if p mod kBlockSize = kBlockSize - kHeaderSize then 1 else 0)))"
    by simp
next
  fix p bgn and d frag rest :: bytes
  assume frag: "frag = take (room p) d" and rest: "rest = drop (room p) d" "rest \<noteq> []"
  then have len: "length frag = room p" "length d = room p + length rest" by auto
  have "(p + trailer p + kHeaderSize + room p) mod kBlockSize = 0"
    by (rule block_full)
  then show "((p + trailer p + kHeaderSize + length frag, False, rest), (p, bgn, d))
    \<in> measure (\<lambda>(p, bgn, d). 2 * length d + (if p mod kBlockSize = kBlockSize - kHeaderSize then 1 else 0))"
    using len room_zero [of p] by (auto simp: kBlockSize_def kHeaderSize_def)
qed

declare record_image.simps [simp del]

text \<open>The image of a list of records, written one after the other from offset \<open>p\<close>.\<close>

fun log_image :: "nat \<Rightarrow> bytes list \<Rightarrow> bytes" where
  "log_image p [] = []"
| "log_image p (d # ds) = record_image p True d @ log_image (p + length (record_image p True d)) ds"

text \<open>The offsets of the first headers of the records.\<close>

fun log_offsets :: "nat \<Rightarrow> bytes list \<Rightarrow> nat list" where
  "log_offsets p [] = []"
| "log_offsets p (d # ds) = (p + trailer p) # log_offsets (p + length (record_image p True d)) ds"

text \<open>The records whose image is complete within the first \<open>n\<close> bytes from offset \<open>p\<close>.\<close>

fun log_complete :: "nat \<Rightarrow> nat \<Rightarrow> bytes list \<Rightarrow> bytes list" where
  "log_complete n p [] = []"
| "log_complete n p (d # ds) =
     (let k = length (record_image p True d) in
      if k \<le> n then d # log_complete (n - k) (p + k) ds else [])"

lemma log_complete_prefix: "log_complete n p ds = take (length (log_complete n p ds)) ds"
  by (induction n p ds rule: log_complete.induct) (simp_all add: Let_def)

lemma log_complete_all: "length (log_image p ds) \<le> n \<Longrightarrow> log_complete n p ds = ds"
  by (induction n p ds rule: log_complete.induct) (simp_all add: Let_def)

lemma log_image_append: "log_image p (ds @ es) = log_image p ds @ log_image (p + length (log_image p ds)) es"
  by (induction p ds rule: log_image.induct) (simp_all add: add.assoc)

lemma length_log_offsets [simp]: "length (log_offsets p ds) = length ds"
  by (induction p ds rule: log_offsets.induct) simp_all

lemma length_record_image: "kHeaderSize \<le> length (record_image p bgn d)"
  by (simp add: record_image.simps [of p] Let_def)

end
