(* ===== verification/Log_Writer.thy ===== *)
theory Log_Writer
  imports Log_Format Env_File
begin

text \<open>
  The log writer (\<open>log_writer/log_writer.h\<close>, \<open>log_writer/log_writer.cpp\<close>) over any writable
  file, and the proof that it writes the image of each record.

  The destination's \<open>Append\<close> and \<open>Flush\<close> are parameters.  The result \<open>None\<close> stands for a call
  that does not return or an assertion that fails.
\<close>

text \<open>\<open>type_crc_\<close> is never set nor read: \<open>InitTypeCrc\<close> is empty.\<close>

record 'f Writer =
  w_dest :: 'f
  w_block_offset :: int

definition Writer_new :: "'f \<Rightarrow> 'f Writer" where
  "Writer_new dest = \<lparr>w_dest = dest, w_block_offset = 0\<rparr>"

definition Writer_new_length :: "'f \<Rightarrow> u64 \<Rightarrow> 'f Writer" where
  "Writer_new_length dest dest_length =
     \<lparr>w_dest = dest, w_block_offset = int (unat (dest_length mod of_nat kBlockSize))\<rparr>"

definition EmitPhysicalRecord ::
  "('f \<Rightarrow> bytes \<Rightarrow> (Status \<times> 'f) option) \<Rightarrow> ('f \<Rightarrow> (Status \<times> 'f) option) \<Rightarrow>
   'f Writer \<Rightarrow> RecordType \<Rightarrow> bytes \<Rightarrow> (Status \<times> 'f Writer) option" where
  "EmitPhysicalRecord Append Flush w type ptr =
     (let len = length ptr in
      if \<not> len \<le> 0xFFFF then None
      else if \<not> w_block_offset w + int kHeaderSize + int len \<le> int kBlockSize then None
      else
        let buf = EncodeFixed32 0 @ [of_nat len AND 0xFF, of_nat (len div 256), of_nat (RecordType_code type)] in
        do {
          (s, dest) \<leftarrow> Append (w_dest w) buf;
          (s, dest) \<leftarrow>
            (if Status_ok s then do {
               (s, dest) \<leftarrow> Append dest ptr;
               if Status_ok s then Flush dest else Some (s, dest)
             }
             else Some (s, dest));
          Some (s, w\<lparr>w_dest := dest,
                     w_block_offset := w_block_offset w + int kHeaderSize + int len\<rparr>)
        })"

text \<open>
  The start of an iteration: a block with less than a header's space left is filled with zeros.
  The status of that \<open>Append\<close> is not looked at.
\<close>

definition AddRecord_trailer ::
  "('f \<Rightarrow> bytes \<Rightarrow> (Status \<times> 'f) option) \<Rightarrow> 'f Writer \<Rightarrow> 'f Writer option" where
  "AddRecord_trailer Append w =
     (let left_over = int kBlockSize - w_block_offset w in
      if \<not> left_over \<ge> 0 then None
      else if left_over < int kHeaderSize then
        do {
          dest \<leftarrow>
            (if left_over > 0 then do {
               (_, dest) \<leftarrow> Append (w_dest w) (replicate (nat left_over) 0);
               Some dest
             }
             else Some (w_dest w));
          Some (w\<lparr>w_dest := dest, w_block_offset := 0\<rparr>)
        }
      else Some w)"

partial_function (option) AddRecord_loop ::
  "('f \<Rightarrow> bytes \<Rightarrow> (Status \<times> 'f) option) \<Rightarrow> ('f \<Rightarrow> (Status \<times> 'f) option) \<Rightarrow>
   'f Writer \<Rightarrow> bool \<Rightarrow> bytes \<Rightarrow> (Status \<times> 'f Writer) option" where
  "AddRecord_loop Append Flush w bgn ptr =
     do {
       w \<leftarrow> AddRecord_trailer Append w;
       if \<not> int kBlockSize - w_block_offset w - int kHeaderSize \<ge> 0 then None
       else
         let avail = nat (int kBlockSize - w_block_offset w - int kHeaderSize);
             fragment_length = (if length ptr < avail then length ptr else avail);
             type = fragment_type bgn (length ptr = fragment_length) in
         do {
           (s, w) \<leftarrow> EmitPhysicalRecord Append Flush w type (take fragment_length ptr);
           let ptr = drop fragment_length ptr in
           if Status_ok s \<and> length ptr > 0 then AddRecord_loop Append Flush w False ptr
           else Some (s, w)
         }
     }"

definition AddRecord ::
  "('f \<Rightarrow> bytes \<Rightarrow> (Status \<times> 'f) option) \<Rightarrow> ('f \<Rightarrow> (Status \<times> 'f) option) \<Rightarrow>
   'f Writer \<Rightarrow> slice \<Rightarrow> (Status \<times> 'f Writer) option" where
  "AddRecord Append Flush w sl = AddRecord_loop Append Flush w True (slice_bytes sl)"

text \<open>A sequence of records, up to the first failure.\<close>

fun AddRecords ::
  "('f \<Rightarrow> bytes \<Rightarrow> (Status \<times> 'f) option) \<Rightarrow> ('f \<Rightarrow> (Status \<times> 'f) option) \<Rightarrow>
   'f Writer \<Rightarrow> slice list \<Rightarrow> (Status \<times> 'f Writer) option" where
  "AddRecords Append Flush w [] = Some (Status_OK, w)"
| "AddRecords Append Flush w (s # ss) =
     do {
       (status, w) \<leftarrow> AddRecord Append Flush w s;
       if Status_ok status then AddRecords Append Flush w ss else Some (status, w)
     }"

section \<open>The writer writes the image\<close>

text \<open>
  The block offset follows the length of the log.  At the end of a block it is either 0 or the
  block size.
\<close>

definition writer_at :: "'f Writer \<Rightarrow> nat \<Rightarrow> bool" where
  "writer_at w p \<longleftrightarrow> w_block_offset w = int (p mod kBlockSize)
     \<or> (w_block_offset w = int kBlockSize \<and> p mod kBlockSize = 0)"

lemma header_bytes:
  assumes "length d \<le> 0xFFFF"
  shows "EncodeFixed32 0 @ [of_nat (length d) AND 0xFF, of_nat (length d div 256), of_nat (RecordType_code t)]
      @ d = phys_record t d"
proof -
  have "(0xFF :: byte) = - 1" by simp
  then have "x AND 0xFF = x" for x :: byte by (simp only: and.right_neutral)
  then show ?thesis by (simp add: phys_record_def EncodeFixed32_def)
qed

context writable_file
begin

lemma trailer_ok:
  assumes "writer_at w p" and "invar (w_dest w)"
  shows "\<exists>w'. AddRecord_trailer Append w = Some w' \<and> invar (w_dest w')
    \<and> contents (w_dest w') = contents (w_dest w) @ replicate (trailer p) 0
    \<and> w_block_offset w' = int ((p + trailer p) mod kBlockSize)"
proof -
  have b: "p mod kBlockSize < kBlockSize" by (simp add: kBlockSize_def)
  show ?thesis
  proof (cases "w_block_offset w = int (p mod kBlockSize)")
    case True
    show ?thesis
    proof (cases p rule: trailer_cases)
      case 1
      with True assms show ?thesis
        by (simp add: AddRecord_trailer_def Let_def kBlockSize_def kHeaderSize_def)
    next
      case 2
      obtain f' where f': "Append (w_dest w) (replicate (trailer p) 0) = Some (Status_OK, f')"
        "invar f'" "contents f' = contents (w_dest w) @ replicate (trailer p) 0"
        using Append_ok [OF assms(2)] by blast
      have "nat (int kBlockSize - w_block_offset w) = trailer p"
        "0 < int kBlockSize - w_block_offset w" "int kBlockSize - w_block_offset w < int kHeaderSize"
        using True 2 b by simp_all
      then show ?thesis
        using 2 f' by (simp add: AddRecord_trailer_def Let_def)
    qed
  next
    case False
    with assms(1) have "w_block_offset w = int kBlockSize" "p mod kBlockSize = 0"
      by (auto simp: writer_at_def)
    moreover from this have "trailer p = 0" by (simp add: trailer_def kBlockSize_def kHeaderSize_def)
    ultimately show ?thesis
      using assms(2) by (simp add: AddRecord_trailer_def Let_def kHeaderSize_def)
  qed
qed

lemma EmitPhysicalRecord_ok:
  assumes "invar (w_dest w)" and "w_block_offset w = int b" and "b + kHeaderSize + length d \<le> kBlockSize"
  shows "\<exists>f'. EmitPhysicalRecord Append Flush w t d =
      Some (Status_OK, w\<lparr>w_dest := f', w_block_offset := int (b + kHeaderSize + length d)\<rparr>)
    \<and> invar f' \<and> contents f' = contents (w_dest w) @ phys_record t d"
proof -
  let ?buf = "EncodeFixed32 0 @ [of_nat (length d) AND 0xFF, of_nat (length d div 256), of_nat (RecordType_code t)]"
  have len: "length d \<le> 0xFFFF" using assms(3) by (simp add: kBlockSize_def)
  obtain f1 where f1: "Append (w_dest w) ?buf = Some (Status_OK, f1)" "invar f1"
    "contents f1 = contents (w_dest w) @ ?buf"
    using Append_ok [OF assms(1)] by blast
  obtain f2 where f2: "Append f1 d = Some (Status_OK, f2)" "invar f2" "contents f2 = contents f1 @ d"
    using Append_ok [OF f1(2)] by blast
  obtain f3 where f3: "Flush f2 = Some (Status_OK, f3)" "invar f3" "contents f3 = contents f2"
    using Flush_ok [OF f2(2)] by blast
  have "contents f3 = contents (w_dest w) @ phys_record t d"
    using f1(3) f2(3) f3(3) header_bytes [OF len, of t] by simp
  moreover have "int b + int kHeaderSize + int (length d) \<le> int kBlockSize"
    using assms(3) by linarith
  ultimately show ?thesis
    using f1(1) f2(1) f3(1,2) len assms(2)
    by (intro exI [of _ f3]) (simp add: EmitPhysicalRecord_def Let_def)
qed

lemma AddRecord_loop_ok:
  assumes "writer_at w p" and "invar (w_dest w)"
  shows "\<exists>w'. AddRecord_loop Append Flush w bgn d = Some (Status_OK, w')
    \<and> writer_at w' (p + length (record_image p bgn d)) \<and> invar (w_dest w')
    \<and> contents (w_dest w') = contents (w_dest w) @ record_image p bgn d"
  using assms
proof (induction p bgn d arbitrary: w rule: record_image.induct)
  case (1 p bgn d)
  obtain w1 where w1: "AddRecord_trailer Append w = Some w1" "invar (w_dest w1)"
    "contents (w_dest w1) = contents (w_dest w) @ replicate (trailer p) 0"
    "w_block_offset w1 = int ((p + trailer p) mod kBlockSize)"
    using trailer_ok [OF "1.prems"] by blast
  define b where "b = (p + trailer p) mod kBlockSize"
  define frag where "frag = take (room p) d"
  define rest where "rest = drop (room p) d"
  define t where "t = fragment_type bgn (rest = [])"
  have room: "b + kHeaderSize + room p = kBlockSize" using room_fits [of p] by (simp add: b_def)
  then have fits: "b + kHeaderSize + length frag \<le> kBlockSize" by (simp add: frag_def)
  obtain f2 where emit: "EmitPhysicalRecord Append Flush w1 t frag =
      Some (Status_OK, w1\<lparr>w_dest := f2, w_block_offset := int (b + kHeaderSize + length frag)\<rparr>)"
    and f2: "invar f2" "contents f2 = contents (w_dest w1) @ phys_record t frag"
    using EmitPhysicalRecord_ok [OF w1(2) w1(4) [folded b_def] fits] by blast
  define w2 where "w2 = w1\<lparr>w_dest := f2, w_block_offset := int (b + kHeaderSize + length frag)\<rparr>"
  have flen: "(if length d < room p then length d else room p) = length frag" by (simp add: frag_def)
  have avail: "nat (int kBlockSize - w_block_offset w1 - int kHeaderSize) = room p"
    "\<not> int kBlockSize - w_block_offset w1 - int kHeaderSize < 0"
    using room w1(4) by (simp_all add: b_def)
  have fin: "(length d = length frag) = (rest = [])" "(length d \<le> length frag) = (rest = [])" "take (length frag) d = frag" "drop (length frag) d = rest"
    by (auto simp: frag_def rest_def min_def)
  have loop: "AddRecord_loop Append Flush w bgn d =
      (if rest = [] then Some (Status_OK, w2) else AddRecord_loop Append Flush w2 False rest)"
    using emit [folded w2_def] w1(1) avail
    by (subst AddRecord_loop.simps) (simp add: Let_def flen fin t_def [symmetric])
  define q where "q = p + trailer p + kHeaderSize + length frag"
  have at2: "writer_at w2 q"
  proof -
    have "q mod kBlockSize = (b + (kHeaderSize + length frag)) mod kBlockSize"
      unfolding b_def q_def by (simp add: mod_add_left_eq add.assoc)
    then show ?thesis
      using fits by (cases "b + kHeaderSize + length frag = kBlockSize")
        (auto simp: writer_at_def w2_def add.assoc)
  qed
  have img: "record_image p bgn d = replicate (trailer p) 0 @ phys_record t frag
      @ (if rest = [] then [] else record_image q False rest)"
    by (subst record_image.simps) (simp add: Let_def frag_def rest_def t_def q_def)
  show ?case
  proof (cases "rest = []")
    case True
    then show ?thesis
      using loop img at2 f2 w1(3) by (simp add: w2_def q_def add.assoc)
  next
    case False
    have "\<exists>w'. AddRecord_loop Append Flush w2 False rest = Some (Status_OK, w')
      \<and> writer_at w' (q + length (record_image q False rest)) \<and> invar (w_dest w')
      \<and> contents (w_dest w') = contents (w_dest w2) @ record_image q False rest"
      using "1.IH" [OF frag_def rest_def False, of w2] at2 f2(1) by (simp add: q_def w2_def)
    then show ?thesis
      using loop img f2 w1(3) False by (auto simp: w2_def q_def add.assoc)
  qed
qed

lemma AddRecords_ok:
  assumes "writer_at w p" and "invar (w_dest w)"
  shows "\<exists>w'. AddRecords Append Flush w ss = Some (Status_OK, w')
    \<and> writer_at w' (p + length (log_image p (map slice_bytes ss))) \<and> invar (w_dest w')
    \<and> contents (w_dest w') = contents (w_dest w) @ log_image p (map slice_bytes ss)"
  using assms
proof (induction ss arbitrary: w p)
  case (Cons s ss)
  define q where "q = p + length (record_image p True (slice_bytes s))"
  obtain w1 where w1: "AddRecord Append Flush w s = Some (Status_OK, w1)" "writer_at w1 q"
    "invar (w_dest w1)" "contents (w_dest w1) = contents (w_dest w) @ record_image p True (slice_bytes s)"
    using AddRecord_loop_ok [OF Cons.prems] by (auto simp: AddRecord_def q_def)
  have img: "log_image p (map slice_bytes (s # ss))
      = record_image p True (slice_bytes s) @ log_image q (map slice_bytes ss)"
    by (simp add: q_def)
  have len: "p + length (log_image p (map slice_bytes (s # ss))) = q + length (log_image q (map slice_bytes ss))"
    unfolding img by (simp add: q_def)
  from Cons.IH [OF w1(2,3)] obtain w2 where "AddRecords Append Flush w1 ss = Some (Status_OK, w2)"
    "writer_at w2 (q + length (log_image q (map slice_bytes ss)))" "invar (w_dest w2)"
    "contents (w_dest w2) = contents (w_dest w1) @ log_image q (map slice_bytes ss)"
    by blast
  then show ?case
    using w1(1,4) unfolding len by (simp add: img del: log_image.simps list.map)
qed simp

end

end
