(* ===== verification/Log_Reader.thy ===== *)
theory Log_Reader
  imports Log_Format Env_File Logging
begin

text \<open>
  The log reader (\<open>log_reader/log_reader.h\<close>, \<open>log_reader/log_reader.cpp\<close>) over any sequential
  file.

  The file's \<open>Read\<close> and \<open>Skip\<close> are parameters.  The result \<open>None\<close> of an operation means that it
  does not return.  \<open>buffer_\<close> is the byte string the slice denotes: every access of the code stays
  inside the slice.  Records the code returns as slices into its backing store are returned as
  their bytes.
\<close>

record 'f Reader =
  r_file :: 'f
  r_reporter :: bool \<comment> \<open>\<open>reporter_ != nullptr\<close>\<close>
  r_checksum :: bool
  r_buffer :: bytes
  r_eof :: bool
  r_last_record_offset :: u64
  r_end_of_buffer_offset :: u64
  r_initial_offset :: u64
  r_resyncing :: bool
  r_reports :: "(u64 \<times> Status) list" \<comment> \<open>the calls of \<open>Reporter::Corruption\<close>\<close>

definition kEof :: nat where
  "kEof = kMaxRecordType + 1"

definition kBadRecord :: nat where
  "kBadRecord = kMaxRecordType + 2"

definition Reader_new :: "'f \<Rightarrow> bool \<Rightarrow> bool \<Rightarrow> u64 \<Rightarrow> 'f Reader" where
  "Reader_new f reporter checksum initial_offset =
     \<lparr>r_file = f, r_reporter = reporter, r_checksum = checksum, r_buffer = [], r_eof = False,
      r_last_record_offset = 0, r_end_of_buffer_offset = 0, r_initial_offset = initial_offset,
      r_resyncing = (initial_offset > 0), r_reports = []\<rparr>"

abbreviation buffer_size :: "'f Reader \<Rightarrow> u64" where
  "buffer_size r \<equiv> of_nat (length (r_buffer r))"

definition ReportDrop :: "'f Reader \<Rightarrow> u64 \<Rightarrow> Status \<Rightarrow> 'f Reader" where
  "ReportDrop r bytes reason =
     (if r_reporter r \<and> r_end_of_buffer_offset r - buffer_size r - bytes \<ge> r_initial_offset r
      then r\<lparr>r_reports := r_reports r @ [(bytes, reason)]\<rparr> else r)"

definition ReportCorruption :: "'f Reader \<Rightarrow> u64 \<Rightarrow> bytes \<Rightarrow> 'f Reader" where
  "ReportCorruption r bytes reason = ReportDrop r bytes (Status_Corruption reason [])"

definition SkipToInitialBlock ::
  "('f \<Rightarrow> nat \<Rightarrow> Status \<times> 'f) \<Rightarrow> 'f Reader \<Rightarrow> bool \<times> 'f Reader" where
  "SkipToInitialBlock Skip r =
     (let offset_in_block = r_initial_offset r mod of_nat kBlockSize;
          block_start_location = r_initial_offset r - offset_in_block;
          block_start_location =
            (if offset_in_block > of_nat kBlockSize - 6 then block_start_location + of_nat kBlockSize
             else block_start_location);
          r = r\<lparr>r_end_of_buffer_offset := block_start_location\<rparr> in
      if block_start_location > 0 then
        (case Skip (r_file r) (unat block_start_location) of
           (skip_status, f) \<Rightarrow>
             let r = r\<lparr>r_file := f\<rparr> in
             if \<not> Status_ok skip_status then (False, ReportDrop r block_start_location skip_status)
             else (True, r))
      else (True, r))"

text \<open>
  The part of an iteration of \<open>ReadPhysicalRecord\<close> behind the refill: parse the header at the
  front of the buffer.  \<open>fragment\<close> is the caller's out parameter, which some branches leave alone.
\<close>

definition ParsePhysicalRecord :: "'f Reader \<Rightarrow> bytes \<Rightarrow> nat \<times> bytes \<times> 'f Reader" where
  "ParsePhysicalRecord r fragment =
     (let header = r_buffer r;
          len = unat ((push_bit 8 (ucast (header ! 5)) OR ucast (header ! 4)) :: u32);
          type = unat (header ! 6) in
      if kHeaderSize + len > length (r_buffer r) then
        let drop_size = buffer_size r; r = r\<lparr>r_buffer := []\<rparr> in
        if \<not> r_eof r then (kBadRecord, fragment, ReportCorruption r drop_size (str ''bad record length''))
        else (kEof, fragment, r)
      else if type = RecordType_code kZeroType \<and> len = 0 then
        (kBadRecord, fragment, r\<lparr>r_buffer := []\<rparr>)
      else
        let r = r\<lparr>r_buffer := drop (kHeaderSize + len) (r_buffer r)\<rparr> in
        if r_end_of_buffer_offset r - buffer_size r - of_nat kHeaderSize - of_nat len < r_initial_offset r
        then (kBadRecord, [], r)
        else (type, take len (drop kHeaderSize header), r))"

partial_function (option) ReadPhysicalRecord ::
  "('f \<Rightarrow> nat \<Rightarrow> (Status \<times> slice \<times> 'f) option) \<Rightarrow> 'f Reader \<Rightarrow> bytes \<Rightarrow>
   (nat \<times> bytes \<times> 'f Reader) option" where
  "ReadPhysicalRecord Read r fragment =
     (if length (r_buffer r) < kHeaderSize then
        if \<not> r_eof r then
          do {
            (status, buffer, f) \<leftarrow> Read (r_file r) kBlockSize;
            let r = r\<lparr>r_file := f, r_buffer := slice_bytes buffer,
                      r_end_of_buffer_offset := r_end_of_buffer_offset r + of_nat (ssize buffer)\<rparr> in
            if \<not> Status_ok status then
              let r = ReportDrop (r\<lparr>r_buffer := []\<rparr>) (of_nat kBlockSize) status in
              Some (kEof, fragment, r\<lparr>r_eof := True\<rparr>)
            else
              let r = (if ssize buffer < kBlockSize then r\<lparr>r_eof := True\<rparr> else r) in
              ReadPhysicalRecord Read r fragment
          }
        else Some (kEof, fragment, r\<lparr>r_buffer := []\<rparr>)
      else Some (ParsePhysicalRecord r fragment))"

text \<open>The local variables of \<open>ReadRecord\<close>, with its out parameters.\<close>

record rlocals =
  l_in_fragmented_record :: bool
  l_prospective_record_offset :: u64
  l_fragment :: bytes
  l_scratch :: bytes
  l_record :: bytes

text \<open>
  The switch of \<open>ReadRecord\<close> on one physical record: \<open>Some b\<close> is \<open>return b\<close>, \<open>None\<close> goes on with
  the loop.
\<close>

definition ReadRecord_switch ::
  "nat \<Rightarrow> u64 \<Rightarrow> rlocals \<Rightarrow> 'f Reader \<Rightarrow> bool option \<times> rlocals \<times> 'f Reader" where
  "ReadRecord_switch record_type physical_record_offset l r =
     (let frag_size = of_nat (length (l_fragment l)); scratch_size = of_nat (length (l_scratch l)) in
      if record_type = RecordType_code kFullType then
        let r = (if l_in_fragmented_record l \<and> l_scratch l \<noteq> []
                 then ReportCorruption r scratch_size (str ''partial record without end(1)'') else r) in
        (Some True,
         l\<lparr>l_prospective_record_offset := physical_record_offset, l_scratch := [], l_record := l_fragment l\<rparr>,
         r\<lparr>r_last_record_offset := physical_record_offset\<rparr>)
      else if record_type = RecordType_code kFirstType then
        let r = (if l_in_fragmented_record l \<and> l_scratch l \<noteq> []
                 then ReportCorruption r scratch_size (str ''partial record without end(2)'') else r) in
        (None,
         l\<lparr>l_prospective_record_offset := physical_record_offset, l_scratch := l_fragment l,
           l_in_fragmented_record := True\<rparr>, r)
      else if record_type = RecordType_code kMiddleType then
        (if \<not> l_in_fragmented_record l
         then (None, l, ReportCorruption r frag_size (str ''missing start of fragmented record(1)''))
         else (None, l\<lparr>l_scratch := l_scratch l @ l_fragment l\<rparr>, r))
      else if record_type = RecordType_code kLastType then
        (if \<not> l_in_fragmented_record l
         then (None, l, ReportCorruption r frag_size (str ''missing start of fragmented record(2)''))
         else
           (Some True,
            l\<lparr>l_scratch := l_scratch l @ l_fragment l, l_record := l_scratch l @ l_fragment l\<rparr>,
            r\<lparr>r_last_record_offset := l_prospective_record_offset l\<rparr>))
      else if record_type = kEof then
        (Some False, (if l_in_fragmented_record l then l\<lparr>l_scratch := []\<rparr> else l), r)
      else if record_type = kBadRecord then
        (if l_in_fragmented_record l
         then (None, l\<lparr>l_in_fragmented_record := False, l_scratch := []\<rparr>,
               ReportCorruption r scratch_size (str ''error in middle of record''))
         else (None, l, r))
      else
        (None, l\<lparr>l_in_fragmented_record := False, l_scratch := []\<rparr>,
         ReportCorruption r (frag_size + (if l_in_fragmented_record l then scratch_size else 0))
           (str ''unknown record type '' @ decimal record_type)))"

text \<open>One physical record: resynchronisation first (\<open>continue\<close> on the rest of a cut record).\<close>

definition ReadRecord_step ::
  "nat \<Rightarrow> rlocals \<Rightarrow> 'f Reader \<Rightarrow> bool option \<times> rlocals \<times> 'f Reader" where
  "ReadRecord_step record_type l r =
     (let physical_record_offset = r_end_of_buffer_offset r - buffer_size r - of_nat kHeaderSize
            - of_nat (length (l_fragment l)) in
      if r_resyncing r \<and> record_type = RecordType_code kMiddleType then (None, l, r)
      else if r_resyncing r \<and> record_type = RecordType_code kLastType
        then (None, l, r\<lparr>r_resyncing := False\<rparr>)
      else ReadRecord_switch record_type physical_record_offset l (r\<lparr>r_resyncing := False\<rparr>))"

partial_function (option) ReadRecord_loop ::
  "('f \<Rightarrow> nat \<Rightarrow> (Status \<times> slice \<times> 'f) option) \<Rightarrow> rlocals \<Rightarrow> 'f Reader \<Rightarrow>
   (bool \<times> rlocals \<times> 'f Reader) option" where
  "ReadRecord_loop Read l r =
     do {
       (record_type, fragment, r) \<leftarrow> ReadPhysicalRecord Read r (l_fragment l);
       (case ReadRecord_step record_type (l\<lparr>l_fragment := fragment\<rparr>) r of
          (Some b, l, r) \<Rightarrow> Some (b, l, r)
        | (None, l, r) \<Rightarrow> ReadRecord_loop Read l r)
     }"

text \<open>The result, \<open>*record\<close>, \<open>*scratch\<close> and the reader.\<close>

definition ReadRecord ::
  "('f \<Rightarrow> nat \<Rightarrow> (Status \<times> slice \<times> 'f) option) \<Rightarrow> ('f \<Rightarrow> nat \<Rightarrow> Status \<times> 'f) \<Rightarrow> 'f Reader \<Rightarrow>
   bytes \<Rightarrow> bytes \<Rightarrow> (bool \<times> bytes \<times> bytes \<times> 'f Reader) option" where
  "ReadRecord Read Skip r rec scratch =
     (let (go, r) = (if r_last_record_offset r < r_initial_offset r then SkipToInitialBlock Skip r else (True, r)) in
      if \<not> go then Some (False, rec, scratch, r)
      else
        do {
          (b, l, r) \<leftarrow> ReadRecord_loop Read
             \<lparr>l_in_fragmented_record = False, l_prospective_record_offset = 0, l_fragment = [],
              l_scratch = [], l_record = []\<rparr> r;
          Some (b, l_record l, l_scratch l, r)
        })"

definition LastRecordOffset :: "'f Reader \<Rightarrow> u64" where
  "LastRecordOffset r = r_last_record_offset r"

text \<open>The way a client reads a log: until \<open>ReadRecord\<close> returns false.\<close>

partial_function (option) read_log ::
  "('f \<Rightarrow> nat \<Rightarrow> (Status \<times> slice \<times> 'f) option) \<Rightarrow> ('f \<Rightarrow> nat \<Rightarrow> Status \<times> 'f) \<Rightarrow> 'f Reader \<Rightarrow>
   ((bytes \<times> u64) list \<times> 'f Reader) option" where
  "read_log Read Skip r =
     do {
       (b, rec, scratch, r) \<leftarrow> ReadRecord Read Skip r [] [];
       if b then do {
         (recs, r') \<leftarrow> read_log Read Skip r;
         Some ((rec, LastRecordOffset r) # recs, r')
       }
       else Some ([], r)
     }"

section \<open>Frames of the reports\<close>

lemma ReportDrop_frame [frame_simps]:
  "r_file (ReportDrop r n s) = r_file r" "r_buffer (ReportDrop r n s) = r_buffer r"
  "r_eof (ReportDrop r n s) = r_eof r" "r_initial_offset (ReportDrop r n s) = r_initial_offset r"
  "r_end_of_buffer_offset (ReportDrop r n s) = r_end_of_buffer_offset r"
  "r_last_record_offset (ReportDrop r n s) = r_last_record_offset r"
  "r_resyncing (ReportDrop r n s) = r_resyncing r" "r_reporter (ReportDrop r n s) = r_reporter r"
  by (simp_all add: ReportDrop_def)

lemma ReportCorruption_frame [frame_simps]:
  "r_file (ReportCorruption r n s) = r_file r" "r_buffer (ReportCorruption r n s) = r_buffer r"
  "r_eof (ReportCorruption r n s) = r_eof r" "r_initial_offset (ReportCorruption r n s) = r_initial_offset r"
  "r_end_of_buffer_offset (ReportCorruption r n s) = r_end_of_buffer_offset r"
  "r_last_record_offset (ReportCorruption r n s) = r_last_record_offset r"
  "r_resyncing (ReportCorruption r n s) = r_resyncing r" "r_reporter (ReportCorruption r n s) = r_reporter r"
  by (simp_all add: ReportCorruption_def ReportDrop_frame)

section \<open>Reading always ends\<close>

text \<open>The reader after a successful read of the bytes \<open>d\<close>.\<close>

definition refill :: "'f Reader \<Rightarrow> 'f \<Rightarrow> bytes \<Rightarrow> 'f Reader" where
  "refill r f d = r\<lparr>r_file := f, r_buffer := d,
     r_end_of_buffer_offset := r_end_of_buffer_offset r + of_nat (length d), r_eof := length d < kBlockSize\<rparr>"

text \<open>No read is due: there is a header in the buffer, or the file is at its end.\<close>

definition ready :: "'f Reader \<Rightarrow> bool" where
  "ready r \<longleftrightarrow> r_eof r \<or> kHeaderSize \<le> length (r_buffer r)"

definition unread :: "('f \<Rightarrow> bytes) \<Rightarrow> 'f Reader \<Rightarrow> bytes" where
  "unread remaining r = r_buffer r @ remaining (r_file r)"

lemma refill_simps [simp]:
  "r_file (refill r f d) = f" "r_buffer (refill r f d) = d"
  "r_eof (refill r f d) = (length d < kBlockSize)"
  "r_end_of_buffer_offset (refill r f d) = r_end_of_buffer_offset r + of_nat (length d)"
  "r_initial_offset (refill r f d) = r_initial_offset r" "r_reports (refill r f d) = r_reports r"
  "r_last_record_offset (refill r f d) = r_last_record_offset r"
  "r_resyncing (refill r f d) = r_resyncing r"
  by (simp_all add: refill_def)

lemma refill_ready [simp]: "ready (refill r f d)"
  by (auto simp: ready_def kBlockSize_def kHeaderSize_def)

lemma ReadPhysicalRecord_ready:
  "ready r \<Longrightarrow> ReadPhysicalRecord Read r fr =
     Some (if length (r_buffer r) < kHeaderSize then (kEof, fr, r\<lparr>r_buffer := []\<rparr>)
           else ParsePhysicalRecord r fr)"
  by (auto simp: ReadPhysicalRecord.simps [of Read r] ready_def)

lemma ParsePhysicalRecord_shrinks:
  assumes "kHeaderSize \<le> length (r_buffer r)" and "ParsePhysicalRecord r fr = (t, fr', r')"
  shows "length (r_buffer r') < length (r_buffer r) \<and> r_file r' = r_file r
    \<and> r_initial_offset r' = r_initial_offset r"
  using assms
  by (auto simp: ParsePhysicalRecord_def Let_def frame_simps kHeaderSize_def split: if_splits)

lemma ReadRecord_step_frame:
  assumes "ReadRecord_step t l r = (b, l', r')"
  shows "r_buffer r' = r_buffer r \<and> r_file r' = r_file r \<and> r_initial_offset r' = r_initial_offset r"
    and "t = kEof \<Longrightarrow> b = Some False"
proof -
  have sw: "r_buffer r2 = r_buffer s \<and> r_file r2 = r_file s \<and> r_initial_offset r2 = r_initial_offset s"
    if "ReadRecord_switch t p l s = (b, l', r2)" for p s r2
    using that by (auto simp: ReadRecord_switch_def Let_def frame_simps split: if_splits)
  then show "r_buffer r' = r_buffer r \<and> r_file r' = r_file r \<and> r_initial_offset r' = r_initial_offset r"
    using assms by (auto simp: ReadRecord_step_def Let_def split: if_splits dest!: sw)
  show "t = kEof \<Longrightarrow> b = Some False"
    using assms by (simp add: ReadRecord_step_def ReadRecord_switch_def Let_def kEof_def kMaxRecordType_def)
qed

context sequential_file
begin

lemma ReadPhysicalRecord_refill:
  assumes "\<not> ready r"
  obtains f' where "remaining f' = drop kBlockSize (remaining (r_file r))"
    "ReadPhysicalRecord Read r fr = ReadPhysicalRecord Read (refill r f' (take kBlockSize (remaining (r_file r)))) fr"
proof -
  obtain s f' where s: "Read (r_file r) kBlockSize = Some (Status_OK, s, f')" "slice_wf s"
    "slice_bytes s = take kBlockSize (remaining (r_file r))" "remaining f' = drop kBlockSize (remaining (r_file r))"
    using Read_ok by blast
  have "ssize s = length (slice_bytes s)"
    using s(2) by (simp add: slice_wf_def slice_ToString_def)
  moreover have "\<not> r_eof r" "length (r_buffer r) < kHeaderSize" using assms by (simp_all add: ready_def)
  moreover from this have "refill r f' d = (let r1 = r\<lparr>r_file := f', r_buffer := d,
        r_end_of_buffer_offset := r_end_of_buffer_offset r + of_nat (length d)\<rparr> in
      if length d < kBlockSize then r1\<lparr>r_eof := True\<rparr> else r1)" for d
    by (cases r) (simp add: refill_def Let_def)
  ultimately have "ReadPhysicalRecord Read r fr = ReadPhysicalRecord Read (refill r f' (slice_bytes s)) fr"
    using s(1) by (subst ReadPhysicalRecord.simps) (simp add: Let_def)
  with s that show thesis by simp
qed

text \<open>Every state is ready after at most one read, which drops a trailer shorter than a header.\<close>

lemma ReadPhysicalRecord_normal:
  obtains r1 where "ready r1" "ReadPhysicalRecord Read r fr = ReadPhysicalRecord Read r1 fr"
    "r_initial_offset r1 = r_initial_offset r" "length (unread remaining r1) \<le> length (unread remaining r)"
proof (cases "ready r")
  case False
  then obtain f' where f': "remaining f' = drop kBlockSize (remaining (r_file r))"
    "ReadPhysicalRecord Read r fr = ReadPhysicalRecord Read (refill r f' (take kBlockSize (remaining (r_file r)))) fr"
    by (rule ReadPhysicalRecord_refill)
  then show thesis
    using that [of "refill r f' (take kBlockSize (remaining (r_file r)))"]
    by (simp add: unread_def)
qed (use that in blast)

lemma ReadPhysicalRecord_total:
  "\<exists>t fr' r'. ReadPhysicalRecord Read r fr = Some (t, fr', r') \<and> r_initial_offset r' = r_initial_offset r
    \<and> length (unread remaining r') \<le> length (unread remaining r)
    \<and> (t = kEof \<or> length (unread remaining r') < length (unread remaining r))"
proof -
  obtain r1 where r1: "ready r1" "ReadPhysicalRecord Read r fr = ReadPhysicalRecord Read r1 fr"
    "r_initial_offset r1 = r_initial_offset r" "length (unread remaining r1) \<le> length (unread remaining r)"
    by (rule ReadPhysicalRecord_normal)
  show ?thesis
  proof (cases "length (r_buffer r1) < kHeaderSize")
    case True
    then show ?thesis
      using r1 by (simp add: ReadPhysicalRecord_ready unread_def)
  next
    case False
    obtain t fr' r' where p: "ParsePhysicalRecord r1 fr = (t, fr', r')" by (metis prod_cases3)
    with False have "length (r_buffer r') < length (r_buffer r1) \<and> r_file r' = r_file r1
      \<and> r_initial_offset r' = r_initial_offset r1"
      by (intro ParsePhysicalRecord_shrinks) auto
    then show ?thesis
      using r1 False p by (auto simp: ReadPhysicalRecord_ready unread_def)
  qed
qed

lemma ReadRecord_loop_total:
  "\<exists>b l' r'. ReadRecord_loop Read l r = Some (b, l', r') \<and> r_initial_offset r' = r_initial_offset r
    \<and> length (unread remaining r') \<le> length (unread remaining r)
    \<and> (\<not> b \<or> length (unread remaining r') < length (unread remaining r))"
proof (induction "length (unread remaining r)" arbitrary: l r rule: less_induct)
  case less
  obtain t fr' r1 where r1: "ReadPhysicalRecord Read r (l_fragment l) = Some (t, fr', r1)"
    "r_initial_offset r1 = r_initial_offset r" "length (unread remaining r1) \<le> length (unread remaining r)"
    "t = kEof \<or> length (unread remaining r1) < length (unread remaining r)"
    using ReadPhysicalRecord_total by blast
  obtain b l2 r2 where s: "ReadRecord_step t (l\<lparr>l_fragment := fr'\<rparr>) r1 = (b, l2, r2)" by (metis prod_cases3)
  note fr = ReadRecord_step_frame [OF s]
  have u: "unread remaining r2 = unread remaining r1" using fr(1) by (simp add: unread_def)
  have loop: "ReadRecord_loop Read l r = (case b of Some b \<Rightarrow> Some (b, l2, r2) | None \<Rightarrow> ReadRecord_loop Read l2 r2)"
    using r1(1) s by (subst ReadRecord_loop.simps) (simp split: option.split)
  show ?case
  proof (cases b)
    case None
    with fr(2) r1(4) u have "length (unread remaining r2) < length (unread remaining r)" by auto
    from less [OF this, of l2] show ?thesis
      using loop None fr(1) r1(2) \<open>length (unread remaining r2) < _\<close> by fastforce
  next
    case (Some v)
    with loop fr r1 u show ?thesis by auto
  qed
qed

lemma SkipToInitialBlock_total:
  assumes "unat (r_initial_offset r) < 2 ^ 62"
  shows "\<exists>r'. SkipToInitialBlock Skip r = (True, r') \<and> r_initial_offset r' = r_initial_offset r
    \<and> length (unread remaining r') \<le> length (unread remaining r)"
proof -
  define m where "m = r_initial_offset r mod of_nat kBlockSize"
  define loc where "loc = (if m > of_nat kBlockSize - 6 then r_initial_offset r - m + of_nat kBlockSize
    else r_initial_offset r - m)"
  have "m \<le> r_initial_offset r" by (simp add: m_def word_le_nat_alt unat_mod)
  then have "unat (r_initial_offset r - m) \<le> unat (r_initial_offset r)"
    by (simp add: unat_sub)
  moreover have "unat (r_initial_offset r - m + of_nat kBlockSize) \<le> unat (r_initial_offset r - m) + kBlockSize"
    by (simp add: unat_word_ariths kBlockSize_def)
  ultimately have "unat loc \<le> unat (r_initial_offset r) + kBlockSize"
    unfolding loc_def by simp
  with assms have "unat loc < 2 ^ 63" by (simp add: kBlockSize_def)
  then obtain f' where f': "Skip (r_file r) (unat loc) = (Status_OK, f')"
    "remaining f' = drop (unat loc) (remaining (r_file r))"
    using Skip_ok by blast
  have "SkipToInitialBlock Skip r = (True, if loc > 0
      then r\<lparr>r_end_of_buffer_offset := loc, r_file := f'\<rparr> else r\<lparr>r_end_of_buffer_offset := loc\<rparr>)"
    using f'(1) by (simp add: SkipToInitialBlock_def Let_def m_def [symmetric] loc_def [symmetric])
  then show ?thesis using f'(2) by (simp add: unread_def)
qed

lemma ReadRecord_total:
  assumes "unat (r_initial_offset r) < 2 ^ 62"
  shows "\<exists>b d s r'. ReadRecord Read Skip r rec scratch = Some (b, d, s, r')
    \<and> r_initial_offset r' = r_initial_offset r
    \<and> (\<not> b \<or> length (unread remaining r') < length (unread remaining r))"
proof -
  obtain r1 where r1: "(if r_last_record_offset r < r_initial_offset r then SkipToInitialBlock Skip r else (True, r)) = (True, r1)"
    "r_initial_offset r1 = r_initial_offset r" "length (unread remaining r1) \<le> length (unread remaining r)"
    using SkipToInitialBlock_total [OF assms] by (cases "r_last_record_offset r < r_initial_offset r") auto
  let ?l = "\<lparr>l_in_fragmented_record = False, l_prospective_record_offset = 0, l_fragment = [],
              l_scratch = [], l_record = []\<rparr>"
  obtain b l' r' where "ReadRecord_loop Read ?l r1 = Some (b, l', r')" "r_initial_offset r' = r_initial_offset r1"
    "\<not> b \<or> length (unread remaining r') < length (unread remaining r1)"
    using ReadRecord_loop_total by blast
  then show ?thesis
    using r1 by (auto simp: ReadRecord_def)
qed

lemma read_log_total:
  assumes "unat (r_initial_offset r) < 2 ^ 62"
  shows "\<exists>recs r'. read_log Read Skip r = Some (recs, r')"
  using assms
proof (induction "length (unread remaining r)" arbitrary: r rule: less_induct)
  case less
  obtain b d s r' where r': "ReadRecord Read Skip r [] [] = Some (b, d, s, r')"
    "r_initial_offset r' = r_initial_offset r" "\<not> b \<or> length (unread remaining r') < length (unread remaining r)"
    using ReadRecord_total [OF less.prems] by blast
  show ?case
  proof (cases b)
    case True
    with r' less have "\<exists>recs r''. read_log Read Skip r' = Some (recs, r'')" by simp
    with r' True show ?thesis by (subst read_log.simps) auto
  next
    case False
    with r' show ?thesis by (subst read_log.simps) simp
  qed
qed

end

end
