(* ===== verification/Log_Roundtrip.thy ===== *)
theory Log_Roundtrip
  imports Log_Writer Log_Reader
begin

text \<open>
  The log as a whole: what the writer has written the reader reads back, also from a log that was
  cut off at any byte.
\<close>

section \<open>Parsing a header\<close>

lemma header_length:
  assumes "n < 65536"
  shows "unat ((push_bit 8 (ucast (of_nat (n div 256) :: byte)) OR ucast (of_nat n :: byte)) :: u32) = n"
proof -
  have "(push_bit 8 (ucast (of_nat (n div 256) :: byte)) OR ucast (of_nat n :: byte)) = (of_nat n :: u32)"
  proof (rule bit_word_eqI)
    fix i :: nat
    assume "i < LENGTH(32)"
    consider "i < 8" | "8 \<le> i" "i < 16" | "16 \<le> i" by linarith
    then show "bit ((push_bit 8 (ucast (of_nat (n div 256) :: byte)) OR ucast (of_nat n :: byte)) :: u32) i
      = bit (of_nat n :: u32) i"
    proof cases
      case 3
      with assms have "n < 2 ^ i" using power_increasing [of 16 i "2::nat"] by simp
      then have "\<not> bit n i" by (simp add: bit_iff_odd)
      with 3 show ?thesis by (simp add: bit_simps)
    next
      case 2
      then obtain j where "i = 8 + j" using le_Suc_ex by blast
      then have "bit (n div 256) (i - 8) = bit n i"
        by (simp add: bit_iff_odd power_add div_mult2_eq)
      with 2 \<open>i < LENGTH(32)\<close> show ?thesis by (auto simp: bit_simps)
    qed (auto simp: bit_simps)
  qed
  with assms show ?thesis by (simp add: unat_of_nat_small)
qed

lemma phys_record_header:
  "phys_record t d ! 4 = of_nat (length d)" "phys_record t d ! 5 = of_nat (length d div 256)"
  "phys_record t d ! 6 = of_nat (RecordType_code t)" "drop 7 (phys_record t d) = d"
  by (simp_all add: phys_record_def kHeaderSize_def)

lemma unat_type: "unat (of_nat (RecordType_code t) :: byte) = RecordType_code t"
  by (cases t) simp_all

lemma append_prefix_split:
  assumes "length xs \<le> length b" and "b @ c = xs @ ys"
  obtains b' where "b = xs @ b'" "ys = b' @ c"
  using assms by (metis append_eq_append_conv_if append_take_drop_id append.assoc same_append_eq)

section \<open>The reader inside the log\<close>

text \<open>
  The reader stands at offset \<open>p\<close> of the log with the bytes \<open>S\<close> before it: the buffer lies in one
  block and ends with it, or else the end of the file has been read and the buffer ends inside its block.
\<close>

definition reader_pos :: "('f \<Rightarrow> bytes) \<Rightarrow> 'f Reader \<Rightarrow> bytes \<Rightarrow> nat \<Rightarrow> bool" where
  "reader_pos remaining r S p \<longleftrightarrow>
     unread remaining r = S
     \<and> r_end_of_buffer_offset r = of_nat (p + length (r_buffer r))
     \<and> p mod kBlockSize + length (r_buffer r) \<le> kBlockSize
     \<and> (if r_eof r
        then remaining (r_file r) = [] \<and> (r_buffer r = [] \<or> (p + length (r_buffer r)) mod kBlockSize \<noteq> 0)
        else (p + length (r_buffer r)) mod kBlockSize = 0)"

text \<open>The initial offset is behind the reader: the next header is not skipped.\<close>

definition reader_at :: "('f \<Rightarrow> bytes) \<Rightarrow> 'f Reader \<Rightarrow> bytes \<Rightarrow> nat \<Rightarrow> bool" where
  "reader_at remaining r S p \<longleftrightarrow> reader_pos remaining r S p
     \<and> (r_initial_offset r = 0 \<or> unat (r_initial_offset r) \<le> p + trailer p \<and> p + length S < 2 ^ 64)"

lemma reader_pos_frame [simp]:
  "reader_pos remaining (r\<lparr>r_resyncing := b\<rparr>) S p = reader_pos remaining r S p"
  "reader_pos remaining (r\<lparr>r_last_record_offset := off\<rparr>) S p = reader_pos remaining r S p"
  "reader_pos remaining (ReportCorruption r n reason) S p = reader_pos remaining r S p"
  by (simp_all add: reader_pos_def unread_def frame_simps)

lemma reader_at_frame [simp]:
  "reader_at remaining (r\<lparr>r_resyncing := b\<rparr>) S p = reader_at remaining r S p"
  "reader_at remaining (r\<lparr>r_last_record_offset := off\<rparr>) S p = reader_at remaining r S p"
  by (simp_all add: reader_at_def)

text \<open>What reading a physical record does not change.\<close>

definition same_mode :: "'f Reader \<Rightarrow> 'f Reader \<Rightarrow> bool" where
  "same_mode r r' \<longleftrightarrow> r_initial_offset r' = r_initial_offset r \<and> r_resyncing r' = r_resyncing r
     \<and> r_last_record_offset r' = r_last_record_offset r \<and> r_reporter r' = r_reporter r"

lemma same_mode_refl [simp]: "same_mode r r"
  by (simp add: same_mode_def)

lemma same_mode_refill [simp]: "same_mode r (refill r f d)"
  by (simp add: same_mode_def refill_def)

lemma reader_at_new: "reader_at remaining (Reader_new f rep chk 0) (remaining f) 0"
  by (simp add: reader_at_def reader_pos_def Reader_new_def unread_def)

lemma reader_at_block:
  assumes "reader_pos remaining r S p" and "\<not> r_eof r"
  shows "length (r_buffer r) = (if p mod kBlockSize = 0 \<and> r_buffer r = [] then 0
    else kBlockSize - p mod kBlockSize)"
proof -
  define b where "b = p mod kBlockSize"
  have m: "(b + length (r_buffer r)) mod kBlockSize = 0" and le: "b + length (r_buffer r) \<le> kBlockSize"
    and b: "b < kBlockSize"
    using assms by (simp_all add: reader_pos_def b_def mod_add_left_eq kBlockSize_def)
  show ?thesis
  proof (cases "b + length (r_buffer r) = kBlockSize")
    case True
    with b show ?thesis unfolding b_def [symmetric] by (cases "r_buffer r") simp_all
  next
    case False
    with le m have "b + length (r_buffer r) = 0" by simp
    then show ?thesis unfolding b_def [symmetric] by simp
  qed
qed

context sequential_file
begin

lemma refill_at:
  assumes at: "reader_pos remaining r S p" and "\<not> ready r"
  shows "length (r_buffer r) = trailer p"
    and "remaining f' = drop kBlockSize (remaining (r_file r)) \<Longrightarrow>
      reader_pos remaining (refill r f' (take kBlockSize (remaining (r_file r)))) (drop (trailer p) S) (p + trailer p)"
proof -
  have neof: "\<not> r_eof r" and small: "length (r_buffer r) < kHeaderSize"
    using assms(2) by (simp_all add: ready_def)
  have b: "p mod kBlockSize < kBlockSize" by (simp add: kBlockSize_def)
  show len: "length (r_buffer r) = trailer p"
    using reader_at_block [OF at neof] small b
    by (auto simp: trailer_def kBlockSize_def kHeaderSize_def split: if_splits)
  assume "remaining f' = drop kBlockSize (remaining (r_file r))"
  moreover have "(p + trailer p) mod kBlockSize = 0"
    using at neof by (simp add: reader_pos_def len)
  moreover have "(p + trailer p + kBlockSize) mod kBlockSize = 0"
    using calculation(2) by simp
  moreover have "remaining (r_file r) = []" if "(p + trailer p + length (remaining (r_file r))) mod kBlockSize = 0"
    "length (remaining (r_file r)) < kBlockSize"
    using that calculation(2) by (auto simp flip: dvd_eq_mod_eq_0 simp: dvd_add_right_iff dest: dvd_imp_le)
  ultimately show "reader_pos remaining (refill r f' (take kBlockSize (remaining (r_file r))))
      (drop (trailer p) S) (p + trailer p)"
    using at neof len
    by (auto simp: reader_pos_def unread_def min_def)
qed

text \<open>Either a ready state behind the trailer, or the end of the file inside the trailer.\<close>

lemma at_normal:
  assumes at: "reader_pos remaining r S p"
  obtains (go) r1 where "ready r1" "reader_pos remaining r1 (drop (trailer p) S) (p + trailer p)"
      "ReadPhysicalRecord Read r fr = ReadPhysicalRecord Read r1 fr" "r_reports r1 = r_reports r" "same_mode r r1"
  | (cut) "length S \<le> trailer p"
      "ReadPhysicalRecord Read r fr = Some (kEof, fr, r\<lparr>r_buffer := []\<rparr>)"
proof (cases "ready r")
  case True
  show ?thesis
  proof (cases p rule: trailer_cases)
    case 1
    then show ?thesis using go [of r] True at by simp
  next
    case 2
    have "p mod kBlockSize + length (r_buffer r) \<le> kBlockSize" using at by (simp add: reader_pos_def)
    with 2 have "length (r_buffer r) < kHeaderSize" by linarith
    with True have "r_eof r" by (simp add: ready_def)
    then have "length S \<le> trailer p"
      using at 2 by (auto simp: reader_pos_def unread_def)
    then show ?thesis
      using cut True \<open>length (r_buffer r) < kHeaderSize\<close> by (simp add: ReadPhysicalRecord_ready)
  qed
next
  case False
  then obtain f' where "remaining f' = drop kBlockSize (remaining (r_file r))"
    "ReadPhysicalRecord Read r fr = ReadPhysicalRecord Read (refill r f' (take kBlockSize (remaining (r_file r)))) fr"
    by (rule ReadPhysicalRecord_refill)
  with refill_at [OF at False] show ?thesis
    using go [of "refill r f' (take kBlockSize (remaining (r_file r)))"] by simp
qed

text \<open>In a ready state a whole physical record is in the buffer, or the file ends inside it.\<close>

lemma ready_buffer:
  assumes "reader_pos remaining r S q" and "ready r" and "q mod kBlockSize + n \<le> kBlockSize"
  shows "n \<le> length (r_buffer r) \<or> (r_eof r \<and> r_buffer r = S)"
proof (cases "r_eof r")
  case False
  with assms have "r_buffer r \<noteq> []" by (auto simp: ready_def kHeaderSize_def)
  with reader_at_block [OF assms(1) False] assms(3) show ?thesis by auto
qed (use assms in \<open>auto simp: reader_pos_def unread_def\<close>)

lemma parse_record:
  assumes at: "reader_pos remaining r (phys_record t d @ mor) q" and "ready r"
    and fits: "q mod kBlockSize + kHeaderSize + length d \<le> kBlockSize" and "t \<noteq> kZeroType"
  shows "\<exists>r'. ReadPhysicalRecord Read r fr =
      Some (if of_nat q < r_initial_offset r then (kBadRecord, [], r') else (RecordType_code t, d, r'))
    \<and> same_mode r r' \<and> reader_pos remaining r' mor (q + kHeaderSize + length d)
    \<and> r_reports r' = r_reports r
    \<and> r_end_of_buffer_offset r' - buffer_size r' - of_nat kHeaderSize - of_nat (length d) = of_nat q"
proof -
  have "kHeaderSize + length d \<le> length (r_buffer r)"
    using ready_buffer [OF at assms(2), of "kHeaderSize + length d"] fits by auto
  moreover have "r_buffer r @ remaining (r_file r) = phys_record t d @ mor"
    using at by (simp add: reader_pos_def unread_def)
  ultimately obtain buf' where buf: "r_buffer r = phys_record t d @ buf'" "mor = buf' @ remaining (r_file r)"
    by (rule append_prefix_split [where xs = "phys_record t d", simplified])
  have len: "length d < 65536" using fits by (simp add: kBlockSize_def)
  have off: "r_end_of_buffer_offset r = of_nat (q + (kHeaderSize + length d + length buf'))"
    using at buf by (simp add: reader_pos_def)
  define r' where "r' = r\<lparr>r_buffer := buf'\<rparr>"
  have start: "r_end_of_buffer_offset r - of_nat (length buf') - of_nat kHeaderSize - of_nat (length d) = of_nat q"
    using off by simp
  have "ParsePhysicalRecord r fr =
      (if of_nat q < r_initial_offset r then (kBadRecord, [], r') else (RecordType_code t, d, r'))"
    using buf header_length [OF len] assms(4) start
    by (cases t) (simp_all add: ParsePhysicalRecord_def Let_def nth_append phys_record_header unat_type
        kHeaderSize_def r'_def)
  then have "ReadPhysicalRecord Read r fr =
      Some (if of_nat q < r_initial_offset r then (kBadRecord, [], r') else (RecordType_code t, d, r'))"
    using assms(2) buf by (simp add: ReadPhysicalRecord_ready)
  moreover have "reader_pos remaining r' mor (q + kHeaderSize + length d)"
  proof -
    have "(q + kHeaderSize + length d) mod kBlockSize \<le> q mod kBlockSize + kHeaderSize + length d"
      using mod_less_eq_dividend [of "q mod kBlockSize + kHeaderSize + length d" kBlockSize]
      by (simp add: mod_add_left_eq add.assoc)
    then show ?thesis
      using at buf by (auto simp: reader_pos_def unread_def r'_def add.assoc)
  qed
  ultimately show ?thesis
    using off by (simp add: r'_def same_mode_def)
qed

lemma parse_cut:
  assumes at: "reader_pos remaining r S q" and "ready r"
    and fits: "q mod kBlockSize + kHeaderSize + length d \<le> kBlockSize"
    and S: "S = take n (phys_record t d)" "n < kHeaderSize + length d"
  shows "\<exists>r'. ReadPhysicalRecord Read r fr = Some (kEof, fr, r') \<and> r_reports r' = r_reports r"
proof -
  have "length (r_buffer r) \<le> length S" using at by (auto simp: reader_pos_def unread_def)
  also have "length S < kHeaderSize + length d" using S by simp
  finally have buf: "r_eof r" "r_buffer r = S"
    using ready_buffer [OF at assms(2), of "kHeaderSize + length d"] fits by auto
  show ?thesis
  proof (cases "n < kHeaderSize")
    case True
    then show ?thesis
      using assms(2) buf S by (simp add: ReadPhysicalRecord_ready)
  next
    case False
    have len: "length d < 65536" using fits by (simp add: kBlockSize_def)
    have "S ! 4 = phys_record t d ! 4" "S ! 5 = phys_record t d ! 5" "length S = n"
      using False S by (simp_all add: kHeaderSize_def)
    then show ?thesis
      using assms(2) buf S False header_length [OF len]
      by (simp add: ReadPhysicalRecord_ready ParsePhysicalRecord_def Let_def phys_record_header)
  qed
qed

text \<open>Both behind a trailer: the physical record of a fragment, whole or cut.\<close>

lemma step_record:
  assumes at: "reader_pos remaining r (replicate (trailer p) 0 @ phys_record t d @ mor) p"
    and "length d \<le> room p" and "t \<noteq> kZeroType"
  shows "\<exists>r'. ReadPhysicalRecord Read r fr =
      Some (if of_nat (p + trailer p) < r_initial_offset r then (kBadRecord, [], r') else (RecordType_code t, d, r'))
    \<and> same_mode r r' \<and> reader_pos remaining r' mor (p + trailer p + kHeaderSize + length d)
    \<and> r_reports r' = r_reports r
    \<and> r_end_of_buffer_offset r' - buffer_size r' - of_nat kHeaderSize - of_nat (length d)
      = of_nat (p + trailer p)"
  using at
proof (cases rule: at_normal [of _ _ _ fr])
  case (go r1)
  have "(p + trailer p) mod kBlockSize + kHeaderSize + length d \<le> kBlockSize"
    using room_fits [of p] assms(2) by linarith
  with go assms(3) parse_record [of r1 t d mor "p + trailer p" fr] show ?thesis
    by (simp add: add.assoc same_mode_def)
qed (simp add: kHeaderSize_def)

lemma step_cut:
  assumes at: "reader_pos remaining r (take n (replicate (trailer p) 0 @ phys_record t d)) p"
    and "n < trailer p + kHeaderSize + length d" and "length d \<le> room p"
  shows "\<exists>r'. ReadPhysicalRecord Read r fr = Some (kEof, fr, r') \<and> r_reports r' = r_reports r"
  using at
proof (cases rule: at_normal [of _ _ _ fr])
  case (go r1)
  have "(p + trailer p) mod kBlockSize + kHeaderSize + length d \<le> kBlockSize"
    using room_fits [of p] assms(3) by linarith
  moreover have "drop (trailer p) (take n (replicate (trailer p) 0 @ phys_record t d))
    = take (n - trailer p) (phys_record t d)"
    by (cases "n \<le> trailer p") (simp_all add: min_def)
  ultimately show ?thesis
    using go parse_cut [of r1 _ "p + trailer p" d "n - trailer p" t fr] assms(2)
    by (auto simp: less_diff_conv2 kHeaderSize_def)
qed simp

text \<open>Behind the initial offset the record is returned.\<close>

lemma next_record:
  assumes at: "reader_at remaining r (replicate (trailer p) 0 @ phys_record t d @ mor) p"
    and "length d \<le> room p" and "t \<noteq> kZeroType"
  shows "\<exists>r'. ReadPhysicalRecord Read r fr = Some (RecordType_code t, d, r')
    \<and> same_mode r r' \<and> reader_at remaining r' mor (p + trailer p + kHeaderSize + length d)
    \<and> r_reports r' = r_reports r
    \<and> r_end_of_buffer_offset r' - buffer_size r' - of_nat kHeaderSize - of_nat (length d) = of_nat (p + trailer p)"
proof -
  have pos: "reader_pos remaining r (replicate (trailer p) 0 @ phys_record t d @ mor) p"
    and init: "r_initial_offset r = 0 \<or> unat (r_initial_offset r) \<le> p + trailer p
      \<and> p + (trailer p + (kHeaderSize + length d + length mor)) < 2 ^ 64"
    using at by (simp_all add: reader_at_def)
  have "\<not> of_nat (p + trailer p) < r_initial_offset r"
  proof (cases "r_initial_offset r = 0")
    case False
    with init have "unat (r_initial_offset r) \<le> p + trailer p" "p + trailer p < 2 ^ 64" by auto
    then show ?thesis by (simp add: word_less_nat_alt unat_of_nat_small del: of_nat_add)
  qed simp
  then obtain r' where r': "ReadPhysicalRecord Read r fr = Some (RecordType_code t, d, r')" "same_mode r r'"
    "reader_pos remaining r' mor (p + trailer p + kHeaderSize + length d)" "r_reports r' = r_reports r"
    "r_end_of_buffer_offset r' - buffer_size r' - of_nat kHeaderSize - of_nat (length d) = of_nat (p + trailer p)"
    using step_record [OF pos assms(2,3), of fr] by auto
  moreover have "reader_at remaining r' mor (p + trailer p + kHeaderSize + length d)"
    using r'(2,3) init by (auto simp: reader_at_def same_mode_def)
  ultimately show ?thesis by blast
qed

section \<open>Reading one record\<close>

lemma fragment_type_not_zero: "fragment_type bgn fin \<noteq> kZeroType"
  by (simp add: fragment_type_def)

text \<open>What the switch does with a fragment of the expected kind.\<close>

lemma step_fragment:
  assumes "r_resyncing r \<longrightarrow> bgn" and "l_in_fragmented_record l = (\<not> bgn)"
    and "r_end_of_buffer_offset r - buffer_size r - of_nat kHeaderSize - of_nat (length frag) = off"
  shows "\<exists>l'. ReadRecord_step (RecordType_code (fragment_type bgn fin)) (l\<lparr>l_fragment := frag\<rparr>) r =
      (if fin then (Some True, l', r\<lparr>r_resyncing := False,
          r_last_record_offset := if bgn then off else l_prospective_record_offset l\<rparr>)
       else (None, l', r\<lparr>r_resyncing := False\<rparr>))
    \<and> (if fin then l_record l' = (if bgn then [] else l_scratch l) @ frag
       else l_in_fragmented_record l' \<and> l_scratch l' = (if bgn then [] else l_scratch l) @ frag
         \<and> l_prospective_record_offset l' = (if bgn then off else l_prospective_record_offset l))"
  using assms
  by (cases bgn; cases fin)
    (simp_all add: ReadRecord_step_def ReadRecord_switch_def Let_def fragment_type_def)

lemma loop_record:
  assumes "reader_at remaining r (record_image p bgn d @ mor) p" and "l_in_fragmented_record l = (\<not> bgn)"
    and "r_resyncing r \<longrightarrow> bgn"
  shows "\<exists>l' r'. ReadRecord_loop Read l r = Some (True, l', r')
    \<and> l_record l' = (if bgn then [] else l_scratch l) @ d
    \<and> reader_at remaining r' mor (p + length (record_image p bgn d))
    \<and> r_reports r' = r_reports r \<and> r_initial_offset r' = r_initial_offset r
    \<and> r_last_record_offset r' = (if bgn then of_nat (p + trailer p) else l_prospective_record_offset l)"
  using assms
proof (induction p bgn d arbitrary: l r rule: record_image.induct)
  case (1 p bgn d)
  define frag where "frag = take (room p) d"
  define rest where "rest = drop (room p) d"
  define t where "t = fragment_type bgn (rest = [])"
  define q where "q = p + trailer p + kHeaderSize + length frag"
  define img' where "img' = (if rest = [] then [] else record_image q False rest)"
  have img: "record_image p bgn d = replicate (trailer p) 0 @ phys_record t frag @ img'"
    by (subst record_image.simps) (simp add: Let_def frag_def rest_def t_def q_def img'_def)
  have d: "d = frag @ rest" by (simp add: frag_def rest_def)
  obtain r1 where r1: "ReadPhysicalRecord Read r (l_fragment l) = Some (RecordType_code t, frag, r1)"
    "reader_at remaining r1 (img' @ mor) q" "r_reports r1 = r_reports r"
    "r_end_of_buffer_offset r1 - buffer_size r1 - of_nat kHeaderSize - of_nat (length frag) = of_nat (p + trailer p)"
    "same_mode r r1"
    using next_record [of r p t frag "img' @ mor" "l_fragment l"] "1.prems"(1) fragment_type_not_zero
    by (auto simp: img t_def q_def frag_def)
  let ?l = "l\<lparr>l_fragment := frag\<rparr>"
  let ?r = "r1\<lparr>r_resyncing := False\<rparr>"
  have nres: "r_resyncing r1 \<longrightarrow> bgn" using r1(5) "1.prems"(3) by (simp add: same_mode_def)
  have at: "reader_at remaining ?r (img' @ mor) q" using r1(2) by simp
  obtain l2 where l2: "ReadRecord_step (RecordType_code t) ?l r1 =
      (if rest = [] then (Some True, l2, ?r\<lparr>r_last_record_offset := if bgn then of_nat (p + trailer p) else l_prospective_record_offset l\<rparr>)
       else (None, l2, ?r))"
    "if rest = [] then l_record l2 = (if bgn then [] else l_scratch l) @ frag
       else l_in_fragmented_record l2 \<and> l_scratch l2 = (if bgn then [] else l_scratch l) @ frag
         \<and> l_prospective_record_offset l2 = (if bgn then of_nat (p + trailer p) else l_prospective_record_offset l)"
    using step_fragment [OF nres "1.prems"(2) r1(4), of "rest = []"] unfolding t_def by auto
  have len: "p + length (record_image p bgn d) = q + length img'"
    by (simp add: img q_def)
  show ?case
  proof (cases "rest = []")
    case True
    then show ?thesis
      using r1 l2 d len by (subst ReadRecord_loop.simps) (simp add: img'_def same_mode_def)
  next
    case False
    have "ReadRecord_loop Read l r = ReadRecord_loop Read l2 ?r"
      using r1(1) l2(1) False by (subst ReadRecord_loop.simps) simp
    moreover have "\<exists>l' r'. ReadRecord_loop Read l2 ?r = Some (True, l', r') \<and> l_record l' = l_scratch l2 @ rest
      \<and> reader_at remaining r' mor (q + length img') \<and> r_reports r' = r_reports r1
      \<and> r_initial_offset r' = r_initial_offset r1 \<and> r_last_record_offset r' = l_prospective_record_offset l2"
      using "1.IH" [OF frag_def rest_def False, of ?r l2] at l2(2) False
      by (simp add: q_def [symmetric] img'_def)
    ultimately show ?thesis
      using l2(2) False d r1(3,5) unfolding len same_mode_def by auto
  qed
qed

lemma loop_cut:
  assumes "reader_at remaining r (take n (record_image p bgn d)) p" and "n < length (record_image p bgn d)"
    and "l_in_fragmented_record l = (\<not> bgn)" and "r_resyncing r \<longrightarrow> bgn"
  shows "\<exists>l' r'. ReadRecord_loop Read l r = Some (False, l', r') \<and> r_reports r' = r_reports r"
  using assms
proof (induction p bgn d arbitrary: l r n rule: record_image.induct)
  case (1 p bgn d)
  define frag where "frag = take (room p) d"
  define rest where "rest = drop (room p) d"
  define t where "t = fragment_type bgn (rest = [])"
  define q where "q = p + trailer p + kHeaderSize + length frag"
  define img' where "img' = (if rest = [] then [] else record_image q False rest)"
  have img: "record_image p bgn d = (replicate (trailer p) 0 @ phys_record t frag) @ img'"
    by (subst record_image.simps) (simp add: Let_def frag_def rest_def t_def q_def img'_def)
  define k where "k = trailer p + kHeaderSize + length frag"
  show ?case
  proof (cases "n < k")
    case True
    then obtain r1 where "ReadPhysicalRecord Read r (l_fragment l) = Some (kEof, l_fragment l, r1)"
      "r_reports r1 = r_reports r"
      using step_cut [of r n p t frag "l_fragment l"] "1.prems"(1)
      by (auto simp: img k_def frag_def reader_at_def)
    then show ?thesis
      by (subst ReadRecord_loop.simps)
        (simp add: ReadRecord_step_def ReadRecord_switch_def Let_def kEof_def kMaxRecordType_def)
  next
    case False
    with "1.prems"(2) have ne: "rest \<noteq> []" by (auto simp: img img'_def k_def)
    have S: "take n (record_image p bgn d) = replicate (trailer p) 0 @ phys_record t frag @ take (n - k) img'"
      using False by (simp add: img k_def add.assoc)
    obtain r1 where r1: "ReadPhysicalRecord Read r (l_fragment l) = Some (RecordType_code t, frag, r1)"
      "reader_at remaining r1 (take (n - k) img') q" "r_reports r1 = r_reports r" "same_mode r r1"
      using next_record [of r p t frag "take (n - k) img'" "l_fragment l"] "1.prems"(1) fragment_type_not_zero
      by (auto simp: S t_def q_def frag_def)
    let ?r = "r1\<lparr>r_resyncing := False\<rparr>"
    have nres: "r_resyncing r1 \<longrightarrow> bgn" using r1(4) "1.prems"(4) by (simp add: same_mode_def)
    have at: "reader_at remaining ?r (take (n - k) img') q" using r1(2) by simp
    obtain l2 where l2: "ReadRecord_step (RecordType_code t) (l\<lparr>l_fragment := frag\<rparr>) r1 = (None, l2, ?r)"
      "l_in_fragmented_record l2"
      using step_fragment [OF nres "1.prems"(3) refl, of False frag] ne unfolding t_def by auto
    have "n - k < length img'" using "1.prems"(2) False by (simp add: img k_def)
    then have "\<exists>l' r'. ReadRecord_loop Read l2 ?r = Some (False, l', r') \<and> r_reports r' = r_reports r1"
      using "1.IH" [OF frag_def rest_def ne, of ?r "n - k" l2] at l2(2) ne
      by (simp add: q_def [symmetric] img'_def)
    then show ?thesis
      using r1(1,3) l2(1) by (subst ReadRecord_loop.simps) simp
  qed
qed

section \<open>Reading the log\<close>

lemma ReadRecord_record:
  assumes "reader_at remaining r (record_image p True d @ mor) p" and "r_initial_offset r \<le> r_last_record_offset r"
  shows "\<exists>s r'. ReadRecord Read Skip r rec scratch = Some (True, d, s, r')
    \<and> reader_at remaining r' mor (p + length (record_image p True d))
    \<and> r_reports r' = r_reports r \<and> r_initial_offset r' = r_initial_offset r
    \<and> LastRecordOffset r' = of_nat (p + trailer p)"
  using loop_record [OF assms(1), of "\<lparr>l_in_fragmented_record = False, l_prospective_record_offset = 0,
      l_fragment = [], l_scratch = [], l_record = []\<rparr>"] assms(2)
  by (auto simp: ReadRecord_def LastRecordOffset_def)

text \<open>The offset of a record that is read is not before the initial offset.\<close>

lemma reader_at_offset:
  assumes "reader_at remaining r (record_image p True d @ mor) p"
  shows "r_initial_offset r \<le> of_nat (p + trailer p)"
proof (cases "r_initial_offset r = 0")
  case False
  have "trailer p \<le> length (record_image p True d)" by (subst record_image.simps) (simp add: Let_def)
  with False assms have "unat (r_initial_offset r) \<le> p + trailer p" "p + trailer p < 2 ^ 64"
    by (auto simp: reader_at_def)
  then show ?thesis by (simp add: word_le_nat_alt unat_of_nat_small del: of_nat_add)
qed simp

lemma ReadRecord_cut:
  assumes "reader_at remaining r (take n (record_image p True d)) p" "n < length (record_image p True d)"
    and "r_initial_offset r \<le> r_last_record_offset r"
  shows "\<exists>d s r'. ReadRecord Read Skip r rec scratch = Some (False, d, s, r') \<and> r_reports r' = r_reports r"
  using loop_cut [OF assms(1,2), of "\<lparr>l_in_fragmented_record = False, l_prospective_record_offset = 0,
      l_fragment = [], l_scratch = [], l_record = []\<rparr>"] assms(3)
  by (auto simp: ReadRecord_def)

lemma read_log_complete:
  assumes "reader_at remaining r (take n (log_image p ds)) p" and "r_initial_offset r \<le> r_last_record_offset r"
  shows "\<exists>r'. read_log Read Skip r = Some (zip (log_complete n p ds) (map of_nat (log_offsets p ds)), r')
    \<and> r_reports r' = r_reports r"
  using assms
proof (induction n p ds arbitrary: r rule: log_complete.induct)
  case (1 n p)
  then have "reader_at remaining r (take 0 (record_image p True [])) p" by simp
  moreover have "0 < length (record_image p True [])"
    using length_record_image [of p True "[]"] unfolding kHeaderSize_def by linarith
  ultimately obtain d s r' where "ReadRecord Read Skip r [] [] = Some (False, d, s, r')" "r_reports r' = r_reports r"
    using ReadRecord_cut 1(2) by blast
  then show ?case by (subst read_log.simps) simp
next
  case (2 n p d ds)
  define k where "k = length (record_image p True d)"
  show ?case
  proof (cases "k \<le> n")
    case True
    with 2(2) have at: "reader_at remaining r (record_image p True d @ take (n - k) (log_image (p + k) ds)) p"
      by (simp add: k_def)
    from ReadRecord_record [OF at, of "[]" "[]"] obtain s r1 where
      r1: "ReadRecord Read Skip r [] [] = Some (True, d, s, r1)"
      "reader_at remaining r1 (take (n - k) (log_image (p + k) ds)) (p + k)"
      "r_reports r1 = r_reports r" "r_initial_offset r1 = r_initial_offset r"
      "LastRecordOffset r1 = of_nat (p + trailer p)"
      using 2(3) by (auto simp: k_def)
    have "r_initial_offset r1 \<le> r_last_record_offset r1"
      using reader_at_offset [OF at] r1(4,5) by (simp add: LastRecordOffset_def)
    from "2.IH" [OF k_def True r1(2) this] r1 True show ?thesis
      by (subst read_log.simps) (auto simp: k_def [symmetric])
  next
    case False
    with 2(2) have "reader_at remaining r (take n (record_image p True d)) p"
      by (simp add: k_def)
    from ReadRecord_cut [OF this, of "[]" "[]"] False 2(3) show ?thesis
      by (subst read_log.simps) (auto simp: k_def)
  qed
qed

end

section \<open>Properties\<close>

context kernel_write
begin

lemmas AddRecords_contents = posix_write.AddRecords_ok

end

context kernel_read
begin

lemmas log_complete_read = posix_read.read_log_complete
lemmas log_total = posix_read.read_log_total
lemmas physical_refill = posix_read.ReadPhysicalRecord_refill

end

lemma writer_at_new: "writer_at (Writer_new dest) 0"
  by (simp add: writer_at_def Writer_new_def)

lemma writer_at_length: "writer_at (Writer_new_length dest n) (unat n)"
proof -
  have "unat (n mod of_nat kBlockSize) = unat n mod kBlockSize"
    by (simp add: unat_mod kBlockSize_def)
  then show ?thesis by (simp add: writer_at_def Writer_new_length_def)
qed

text \<open>C6. The write-ahead log survives a crash at any byte.  Over POSIX files on a kernel that
  works, adding any records to an empty log returns and succeeds; and a reader that later finds any
  prefix of the written bytes reads exactly the records that are complete in the prefix, in order,
  each with the offset of its first header as \<open>LastRecordOffset\<close>, and reports no corruption.\<close>

theorem log_survives_crash:
  assumes "kernel_write sys on_disk" and "kernel_read sys left"
    and "writefile_inv fd dest" and "writefile_contents on_disk dest = []"
  shows "\<exists>w. AddRecords (PosixWritableFile_Append sys) (PosixWritableFile_Flush sys) (Writer_new dest) ss
      = Some (Status_OK, w)
    \<and> writefile_contents on_disk (w_dest w) = log_image 0 (map slice_bytes ss)
    \<and> (\<forall>f n. seqfile_left left f = take n (writefile_contents on_disk (w_dest w)) \<longrightarrow>
        (\<exists>r. read_log (\<lambda>f n. PosixSequentialFile_Read sys f n scratch) (PosixSequentialFile_Skip sys)
            (Reader_new f rep chk 0)
            = Some (zip (log_complete n 0 (map slice_bytes ss)) (map of_nat (log_offsets 0 (map slice_bytes ss))), r)
          \<and> r_reports r = []))"
proof -
  obtain w where w: "AddRecords (PosixWritableFile_Append sys) (PosixWritableFile_Flush sys) (Writer_new dest) ss
      = Some (Status_OK, w)" "writefile_contents on_disk (w_dest w) = log_image 0 (map slice_bytes ss)"
    using kernel_write.AddRecords_contents [OF assms(1) writer_at_new, of fd dest ss] assms(3,4)
    by (auto simp: Writer_new_def)
  have "\<exists>r. read_log (\<lambda>f n. PosixSequentialFile_Read sys f n scratch) (PosixSequentialFile_Skip sys)
            (Reader_new f rep chk 0)
            = Some (zip (log_complete n 0 (map slice_bytes ss)) (map of_nat (log_offsets 0 (map slice_bytes ss))), r)
          \<and> r_reports r = []"
    if "seqfile_left left f = take n (log_image 0 (map slice_bytes ss))" for f n
    using kernel_read.log_complete_read [OF assms(2), of "Reader_new f rep chk 0" n 0 "map slice_bytes ss"]
      reader_at_new [of "seqfile_left left" f rep chk] that
    by (simp add: Reader_new_def)
  with w show ?thesis by auto
qed

text \<open>Two records, the second cut after three bytes of its header.\<close>

lemma short_image:
  "room p = 32761 - p" "trailer p = 0" if "p < 32761" for p
  using that by (simp_all add: room_def trailer_def kBlockSize_def kHeaderSize_def)

lemma short_record_image:
  assumes "p < 32761" and "length d \<le> 32761 - p"
  shows "record_image p True d = phys_record kFullType d"
  using assms by (subst record_image.simps) (simp add: short_image fragment_type_def)

theorem log_survives_crash_witness:
  "\<exists>w r. AddRecords (PosixWritableFile_Append mem_sys) (PosixWritableFile_Flush mem_sys)
      (Writer_new (PosixWritableFile_new (\<lambda>_. []) (str ''LOG'') 7 \<lparr>mf_data = [], mf_pos = 0\<rparr>))
      [Slice_string [1, 2], Slice_string [3]] = Some (Status_OK, w)
    \<and> read_log (\<lambda>f n. PosixSequentialFile_Read mem_sys f n []) (PosixSequentialFile_Skip mem_sys)
        (Reader_new \<lparr>sf_fd = 3, sf_filename = str ''LOG'',
           sf_os = \<lparr>mf_data = [0, 0, 0, 0, 2, 0, 1, 1, 2, 0, 0, 0], mf_pos = 0\<rparr>\<rparr> True True 0)
        = Some ([([1, 2], 0)], r) \<and> r_reports r = []"
proof -
  let ?f = "\<lparr>sf_fd = 3, sf_filename = str ''LOG'',
    sf_os = \<lparr>mf_data = [0, 0, 0, 0, 2, 0, 1, 1, 2, 0, 0, 0], mf_pos = 0\<rparr>\<rparr> :: memfile seqfile"
  have recs: "map slice_bytes [Slice_string [1, 2], Slice_string [3]] = [[1, 2], [3]]" by simp
  have inv: "writefile_inv 7 (PosixWritableFile_new (\<lambda>_. []) (str ''LOG'') 7 \<lparr>mf_data = [], mf_pos = 0\<rparr>)"
    and con: "writefile_contents (\<lambda>fd. mf_data) (PosixWritableFile_new (\<lambda>_. []) (str ''LOG'') 7 \<lparr>mf_data = [], mf_pos = 0\<rparr>) = []"
    by (simp_all add: writefile_inv_def writefile_contents_def PosixWritableFile_new_def)
  have img: "log_image 0 [[1, 2], [3]] = [0, 0, 0, 0, 2, 0, 1, 1, 2, 0, 0, 0, 0, 1, 0, 1, 3]"
    by (simp add: short_record_image phys_record_def)
  have cut: "log_complete 12 0 [[1, 2], [3]] = [[1, 2]]"
    by (simp add: Let_def short_record_image kHeaderSize_def)
  have off: "log_offsets 0 [[1, 2], [3]] = [0, 9]"
    by (simp add: short_record_image short_image kHeaderSize_def)
  obtain w where "AddRecords (PosixWritableFile_Append mem_sys) (PosixWritableFile_Flush mem_sys)
      (Writer_new (PosixWritableFile_new (\<lambda>_. []) (str ''LOG'') 7 \<lparr>mf_data = [], mf_pos = 0\<rparr>))
      [Slice_string [1, 2], Slice_string [3]] = Some (Status_OK, w)"
    and w: "writefile_contents (\<lambda>fd. mf_data) (w_dest w) = log_image 0 [[1, 2], [3]]"
    and r: "\<forall>f n. seqfile_left (\<lambda>fd m. drop (mf_pos m) (mf_data m)) f = take n (writefile_contents (\<lambda>fd. mf_data) (w_dest w)) \<longrightarrow>
        (\<exists>r. read_log (\<lambda>f n. PosixSequentialFile_Read mem_sys f n []) (PosixSequentialFile_Skip mem_sys)
            (Reader_new f True True 0)
            = Some (zip (log_complete n 0 [[1, 2], [3]]) (map of_nat (log_offsets 0 [[1, 2], [3]])), r)
          \<and> r_reports r = [])"
    using log_survives_crash [OF memk.kernel_write_axioms memr.kernel_read_axioms inv con,
      of "[Slice_string [1, 2], Slice_string [3]]" "[]" True True]
    unfolding recs by blast
  moreover have "\<exists>r. read_log (\<lambda>f n. PosixSequentialFile_Read mem_sys f n []) (PosixSequentialFile_Skip mem_sys)
            (Reader_new ?f True True 0) = Some ([([1, 2], 0)], r) \<and> r_reports r = []"
    using spec [OF spec [OF r, of ?f], of 12]
    unfolding w img cut off by (simp add: seqfile_left_def)
  ultimately show ?thesis by blast
qed

text \<open>A log that is closed and reopened goes on where it stopped: a writer made with the length
  of a log that already holds records appends the image the records would have had in one go, so
  that the whole log is the image of all records.\<close>

theorem log_reopened:
  assumes "kernel_write sys on_disk" and "writefile_inv fd dest"
    and "writefile_contents on_disk dest = log_image 0 recs" and "length (log_image 0 recs) < 2 ^ 64"
  shows "\<exists>w. AddRecords (PosixWritableFile_Append sys) (PosixWritableFile_Flush sys)
      (Writer_new_length dest (of_nat (length (log_image 0 recs)))) ss = Some (Status_OK, w)
    \<and> writefile_contents on_disk (w_dest w) = log_image 0 (recs @ map slice_bytes ss)"
proof -
  have "writer_at (Writer_new_length dest (of_nat (length (log_image 0 recs)))) (length (log_image 0 recs))"
    using writer_at_length [of dest "of_nat (length (log_image 0 recs))"] assms(4)
    by (simp add: unat_of_nat_small)
  from kernel_write.AddRecords_contents [OF assms(1) this, of fd ss] show ?thesis
    using assms(2,3) by (auto simp: Writer_new_length_def log_image_append)
qed

theorem log_reopened_witness:
  "\<exists>w. AddRecords (PosixWritableFile_Append mem_sys) (PosixWritableFile_Flush mem_sys)
      (Writer_new_length (PosixWritableFile_new (\<lambda>_. []) (str ''LOG'') 7
        \<lparr>mf_data = [0, 0, 0, 0, 1, 0, 1, 9], mf_pos = 0\<rparr>) 8) [Slice_string [3]] = Some (Status_OK, w)
    \<and> writefile_contents (\<lambda>fd. mf_data) (w_dest w) = log_image 0 [[9], [3]]"
proof -
  have img: "log_image 0 [[9]] = [0, 0, 0, 0, 1, 0, 1, 9]"
    by (simp add: short_record_image phys_record_def)
  show ?thesis
    using log_reopened [OF memk.kernel_write_axioms, of 7 "PosixWritableFile_new (\<lambda>_. []) (str ''LOG'') 7
        \<lparr>mf_data = [0, 0, 0, 0, 1, 0, 1, 9], mf_pos = 0\<rparr>" "[[9]]" "[Slice_string [3]]"]
    unfolding img by (simp add: writefile_inv_def writefile_contents_def PosixWritableFile_new_def del: AddRecords.simps log_image.simps)
qed

text \<open>C19. Reading ends on every input: over a kernel that works, for a file of any contents and an
  initial offset below \<open>2 ^ 62\<close>, reading records until the first failure returns.\<close>

theorem reader_always_returns:
  assumes "kernel_read sys left" and "unat initial_offset < 2 ^ 62"
  shows "\<exists>recs r. read_log (\<lambda>f n. PosixSequentialFile_Read sys f n scratch) (PosixSequentialFile_Skip sys)
    (Reader_new f rep chk initial_offset) = Some (recs, r)"
  using kernel_read.log_total [OF assms(1), of "Reader_new f rep chk initial_offset"] assms(2)
  by (simp add: Reader_new_def)

theorem reader_always_returns_witness:
  "\<exists>recs r. read_log (\<lambda>f n. PosixSequentialFile_Read mem_sys f n []) (PosixSequentialFile_Skip mem_sys)
    (Reader_new \<lparr>sf_fd = 3, sf_filename = str ''LOG'', sf_os = \<lparr>mf_data = [1, 2, 3, 4, 0, 0, 200, 5, 6], mf_pos = 0\<rparr>\<rparr>
       True True 5) = Some (recs, r)"
  using reader_always_returns [OF memr.kernel_read_axioms, of 5 "[]"] by simp

text \<open>The internal code \<open>kEof\<close> is also a possible type byte of the file: an empty physical record
  of type 5 at the start of the log makes the reader return false at once.  The records behind it
  are not read and no corruption is reported.\<close>

theorem type_byte_5_hides_the_log:
  assumes "kernel_read sys left" and "seqfile_left left f = [0, 0, 0, 0, 0, 0, 5] @ tail"
  shows "\<exists>r. read_log (\<lambda>f n. PosixSequentialFile_Read sys f n scratch) (PosixSequentialFile_Skip sys)
    (Reader_new f rep chk 0) = Some ([], r) \<and> r_reports r = []"
proof -
  let ?Read = "\<lambda>f n. PosixSequentialFile_Read sys f n scratch"
  have "\<not> ready (Reader_new f rep chk 0)" and rf: "r_file (Reader_new f rep chk 0) = f"
    by (simp_all add: ready_def Reader_new_def kHeaderSize_def)
  then obtain f' where f': "ReadPhysicalRecord ?Read (Reader_new f rep chk 0) [] =
    ReadPhysicalRecord ?Read (refill (Reader_new f rep chk 0) f' (take kBlockSize (seqfile_left left f))) []"
    by (metis kernel_read.physical_refill [OF assms(1)])
  have buf: "take kBlockSize (seqfile_left left f) = [0, 0, 0, 0, 0, 0, 5] @ take (kBlockSize - 7) tail"
    using assms(2) by (simp add: kBlockSize_def)
  have "\<exists>r. ReadPhysicalRecord ?Read (Reader_new f rep chk 0) [] = Some (kEof, [], r) \<and> r_reports r = []
      \<and> \<not> r_resyncing r"
    unfolding f' buf ReadPhysicalRecord_ready [OF refill_ready]
    by (simp add: ParsePhysicalRecord_def Let_def kHeaderSize_def kEof_def kMaxRecordType_def Reader_new_def)
  then have "\<exists>l r. ReadRecord ?Read (PosixSequentialFile_Skip sys) (Reader_new f rep chk 0) [] [] = Some (False, [], l, r)
      \<and> r_reports r = []"
    by (auto simp: ReadRecord_def Reader_new_def ReadRecord_loop.simps ReadRecord_step_def
        ReadRecord_switch_def kEof_def kMaxRecordType_def Let_def)
  then show ?thesis by (subst read_log.simps) auto
qed

theorem type_byte_5_hides_the_log_witness:
  "\<exists>r. read_log (\<lambda>f n. PosixSequentialFile_Read mem_sys f n []) (PosixSequentialFile_Skip mem_sys)
    (Reader_new \<lparr>sf_fd = 3, sf_filename = str ''LOG'',
       sf_os = \<lparr>mf_data = [0, 0, 0, 0, 0, 0, 5, 0, 0, 0, 0, 1, 0, 1, 9], mf_pos = 0\<rparr>\<rparr> True True 0)
    = Some ([], r) \<and> r_reports r = []"
  using type_byte_5_hides_the_log [OF memr.kernel_read_axioms, of "\<lparr>sf_fd = 3, sf_filename = str ''LOG'',
       sf_os = \<lparr>mf_data = [0, 0, 0, 0, 0, 0, 5, 0, 0, 0, 0, 1, 0, 1, 9], mf_pos = 0\<rparr>\<rparr>"
      "[0, 0, 0, 0, 1, 0, 1, 9]"]
  by (simp add: seqfile_left_def)

end
