(* ===== verification/Log_Offset.thy ===== *)
theory Log_Offset
  imports Log_Roundtrip
begin

text \<open>
  Reading a log from an initial offset (\<open>log_reader/log_reader.cpp\<close>): the reader skips to the block of the
  offset, drops the physical records that start before it and the rest of a record it has not seen the
  start of, and then returns the records that start at the offset or behind it.
\<close>

section \<open>Where the records of a log start\<close>

lemma log_offsets_ge: "q \<in> set (log_offsets p ds) \<Longrightarrow> p \<le> q"
  by (induction p ds rule: log_offsets.induct) (auto simp: Let_def)

lemma log_offsets_less: "q \<in> set (log_offsets p ds) \<Longrightarrow> q < p + length (log_image p ds)"
proof (induction p ds rule: log_offsets.induct)
  case (2 p d ds)
  have "trailer p < length (record_image p True d)"
    by (subst record_image.simps) (simp add: Let_def kHeaderSize_def)
  with 2 show ?case by auto
qed simp

lemma log_offsets_header: "q \<in> set (log_offsets p ds) \<Longrightarrow> q mod kBlockSize + kHeaderSize \<le> kBlockSize"
  by (induction p ds rule: log_offsets.induct) (auto simp: header_fits)

lemma log_offsets_append:
  "log_offsets p (ds @ es) = log_offsets p ds @ log_offsets (p + length (log_image p ds)) es"
  by (induction p ds rule: log_offsets.induct) (simp_all add: add.assoc)

section \<open>A log from a block boundary on\<close>

lemma trailer_aligned: "(p + trailer p) mod kBlockSize + kHeaderSize \<le> kBlockSize \<Longrightarrow> trailer (p + trailer p) = 0"
  by (simp add: trailer_def kBlockSize_def kHeaderSize_def)

lemma record_image_trailer: "record_image p bgn d = replicate (trailer p) 0 @ record_image (p + trailer p) bgn d"
  using trailer_aligned [OF header_fits, of p]
  by (subst (1 2) record_image.simps) (simp add: Let_def room_def)

lemma log_image_trailer:
  "ds \<noteq> [] \<Longrightarrow> log_image p ds = replicate (trailer p) 0 @ log_image (p + trailer p) ds"
  "log_offsets (p + trailer p) ds = log_offsets p ds"
  using record_image_trailer [of p True "hd ds"] trailer_aligned [OF header_fits, of p]
  by (cases ds; simp add: add.assoc)+

text \<open>The block boundaries around an offset.\<close>

lemma boundary_block:
  assumes "B mod kBlockSize = 0" and "x < B" and "x mod kBlockSize + n \<le> kBlockSize"
  shows "x + n \<le> B"
proof -
  have "(x div kBlockSize + 1) * kBlockSize \<le> B"
  proof -
    have "x div kBlockSize < B div kBlockSize"
      using assms(1,2) div_mult_mod_eq [of B kBlockSize] div_le_mono [of x B kBlockSize]
        div_mult_mod_eq [of x kBlockSize] by (metis add_0_right le_eq_less_or_eq leD le_add1)
    then show ?thesis
      using mult_le_mono1 [of "x div kBlockSize + 1" "B div kBlockSize" kBlockSize] assms(1)
        div_mult_mod_eq [of B kBlockSize] by simp
  qed
  moreover have "x = x div kBlockSize * kBlockSize + x mod kBlockSize" by simp
  ultimately show ?thesis using assms(3) by (simp only: add_mult_distrib)
qed

lemma boundary_trailer:
  assumes "B mod kBlockSize = 0" and "p \<le> B" and "B \<le> p + trailer p"
  shows "B = p + trailer p"
proof (cases p rule: trailer_cases)
  case 2
  then have "p \<noteq> B" using assms(1) by (auto simp: kBlockSize_def kHeaderSize_def)
  with assms 2(2) boundary_block [OF assms(1), of p "trailer p"] show ?thesis by (simp add: kBlockSize_def)
qed (use assms in simp)

lemma record_from_block:
  assumes "B mod kBlockSize = 0" and "p + trailer p < B" and "B \<le> p + length (record_image p bgn d)"
  shows "drop (B - p) (record_image p bgn d) = [] \<or> (\<exists>rest. drop (B - p) (record_image p bgn d) = record_image B False rest)"
  using assms(2,3)
proof (induction p bgn d rule: record_image.induct)
  case (1 p bgn d)
  define frag where "frag = take (room p) d"
  define rest where "rest = drop (room p) d"
  define hd where "hd = replicate (trailer p) 0 @ phys_record (fragment_type bgn (rest = [])) frag"
  define q where "q = p + trailer p + kHeaderSize + length frag"
  have img: "record_image p bgn d = hd @ (if rest = [] then [] else record_image q False rest)"
    by (subst record_image.simps) (simp add: Let_def frag_def rest_def q_def hd_def)
  have hd: "p + length hd = q" by (simp add: hd_def q_def)
  have bl: "p + trailer p + kHeaderSize + room p \<le> B" 
    using boundary_block [OF assms(1) "1.prems"(1), of "kHeaderSize + room p"] room_fits [of p] by (simp add: add.assoc)
  show ?case
  proof (cases "rest = []")
    case True
    have "length frag \<le> room p" by (simp add: frag_def)
    with bl have "q \<le> B" by (simp add: q_def)
    with hd img True show ?thesis by simp
  next
    case False
    then have "length frag = room p" by (simp add: frag_def rest_def)
    with bl have qB: "q \<le> B" by (simp add: q_def)
    then have d: "drop (B - p) (record_image p bgn d) = drop (B - q) (record_image q False rest)"
      using hd False by (simp add: img)
    show ?thesis
    proof (cases "q + trailer q < B")
      case True
      with "1.IH" [OF frag_def rest_def False] "1.prems"(2) hd False show ?thesis
        unfolding d by (simp add: q_def [symmetric] img)
    next
      case False
      with boundary_trailer [OF assms(1) qB] have "B = q + trailer q" by simp
      then have "drop (B - q) (record_image q False rest) = record_image B False rest"
        using record_image_trailer [of q False rest] by simp
      then show ?thesis unfolding d by blast
    qed
  qed
qed

lemma log_from_block:
  assumes "B mod kBlockSize = 0" and "p \<le> B" and "B \<le> p + length (log_image p ds)"
  shows "\<exists>es fs tail. ds = es @ fs \<and> drop (B - p) (log_image p ds) = tail @ log_image (B + length tail) fs
    \<and> (tail = [] \<or> (\<exists>rest. tail = record_image B False rest)) \<and> (\<forall>q \<in> set (log_offsets p es). q < B)
    \<and> log_offsets p ds = log_offsets p es @ log_offsets (B + length tail) fs"
  using assms(2,3)
proof (induction p ds rule: log_image.induct)
  case (2 p d ds)
  let ?k = "length (record_image p True d)"
  consider "B = p + trailer p" | "p + trailer p < B" "B \<le> p + ?k" | "p + ?k < B"
    using boundary_trailer [OF assms(1) "2.prems"(1)] by linarith
  then show ?case
  proof cases
    case 1
    then show ?thesis
      using log_image_trailer(1) [of "d # ds" p] log_image_trailer(2) [of p "d # ds"]
      by (intro exI [of _ "[]"] exI [of _ "d # ds"]) simp
  next
    case 2
    then have "B + length (drop (B - p) (record_image p True d)) = p + ?k" by simp
    with 2 record_from_block [OF assms(1) 2] show ?thesis
      by (intro exI [of _ "[d]"] exI [of _ ds] exI [of _ "drop (B - p) (record_image p True d)"])
        (simp add: add.commute)
  next
    case 3
    have "trailer p \<le> ?k" by (subst record_image.simps) (simp add: Let_def)
    moreover obtain es fs tail where IH: "ds = es @ fs"
      "drop (B - (p + ?k)) (log_image (p + ?k) ds) = tail @ log_image (B + length tail) fs"
      "tail = [] \<or> (\<exists>rest. tail = record_image B False rest)" "\<forall>q \<in> set (log_offsets (p + ?k) es). q < B"
      "log_offsets (p + ?k) ds = log_offsets (p + ?k) es @ log_offsets (B + length tail) fs"
      using "2.IH" 3 "2.prems"(2) by auto
    ultimately show ?thesis
      using 3 by (intro exI [of _ "d # es"] exI [of _ fs] exI [of _ tail]) simp
  qed
qed simp

section \<open>The block of the initial offset\<close>

text \<open>The first block that can hold a record that starts at the offset or behind it.\<close>

definition initial_block :: "nat \<Rightarrow> nat" where
  "initial_block n = n - n mod kBlockSize + (if n mod kBlockSize > kBlockSize - 6 then kBlockSize else 0)"

lemma initial_block_aligned: "initial_block n mod kBlockSize = 0"
  by (auto simp: initial_block_def minus_mod_eq_mult_div)

lemma before_initial_block:
  assumes "q < initial_block n" and "q mod kBlockSize + kHeaderSize \<le> kBlockSize"
  shows "q < n"
proof (rule ccontr)
  assume "\<not> q < n"
  then have "n < initial_block n" using assms(1) by simp
  then have late: "n mod kBlockSize > kBlockSize - 6" by (auto simp: initial_block_def split: if_splits)
  have "(n - n mod kBlockSize) + kBlockSize = initial_block n" using late by (simp add: initial_block_def)
  then have "q < (n - n mod kBlockSize) + kBlockSize" "n - n mod kBlockSize \<le> q"
    using assms(1) \<open>\<not> q < n\<close> by simp_all
  then have "q div kBlockSize = n div kBlockSize"
    by (intro div_nat_eqI) (simp_all add: minus_mod_eq_mult_div add.commute mult.commute)
  then have "n mod kBlockSize \<le> q mod kBlockSize"
    using \<open>\<not> q < n\<close> by (metis div_mult_mod_eq nat_add_left_cancel_le not_less)
  with late assms(2) show False by (simp add: kBlockSize_def kHeaderSize_def)
qed

lemma unat_initial_block:
  assumes "unat (init :: u64) < 2 ^ 62"
  shows "unat (let loc = init - init mod of_nat kBlockSize in
      if init mod of_nat kBlockSize > of_nat kBlockSize - 6 then loc + of_nat kBlockSize else loc)
    = initial_block (unat init)"
proof -
  have m: "unat (init mod of_nat kBlockSize) = unat init mod kBlockSize"
    by (simp add: unat_mod kBlockSize_def)
  have "init mod of_nat kBlockSize \<le> init" by (simp add: word_le_nat_alt unat_mod)
  then have loc: "unat (init - init mod of_nat kBlockSize) = unat init - unat init mod kBlockSize"
    by (simp add: unat_sub m)
  have late: "init mod of_nat kBlockSize > of_nat kBlockSize - 6 \<longleftrightarrow> unat init mod kBlockSize > kBlockSize - 6"
    using m by (simp add: word_less_nat_alt kBlockSize_def)
  have "unat (init - init mod of_nat kBlockSize + of_nat kBlockSize) = unat init - unat init mod kBlockSize + kBlockSize"
    using loc assms by (simp add: unat_word_ariths kBlockSize_def)
  with loc late show ?thesis by (simp add: initial_block_def Let_def)
qed

text \<open>A record that starts before the block starts before the offset.\<close>

lemma offset_before_initial_block:
  assumes "q \<in> set (log_offsets 0 ds)" and "q < initial_block (unat init)" and "length (log_image 0 ds) < 2 ^ 64"
  shows "\<not> (init :: u64) \<le> of_nat q"
proof -
  have "q < unat init" by (rule before_initial_block [OF assms(2) log_offsets_header [OF assms(1)]])
  moreover have "q < 2 ^ 64" using log_offsets_less [OF assms(1)] assms(3) by simp
  ultimately show ?thesis by (simp add: word_le_nat_alt unat_of_nat_small)
qed

section \<open>Reading on from a position\<close>

text \<open>The rest of a read of the whole log, from inside the loop of a \<open>ReadRecord\<close>.\<close>

definition read_on ::
  "('f \<Rightarrow> nat \<Rightarrow> (Status \<times> slice \<times> 'f) option) \<Rightarrow> ('f \<Rightarrow> nat \<Rightarrow> Status \<times> 'f) \<Rightarrow> rlocals \<Rightarrow> 'f Reader \<Rightarrow>
   ((bytes \<times> u64) list \<times> 'f Reader) option" where
  "read_on Read Skip l r =
     do {
       (b, l, r) \<leftarrow> ReadRecord_loop Read l r;
       if b then do {
         (recs, r') \<leftarrow> read_log Read Skip r;
         Some ((l_record l, LastRecordOffset r) # recs, r')
       }
       else Some ([], r)
     }"

section \<open>Dropping physical records\<close>

lemma ReadRecord_step_drops:
  assumes "t = kBadRecord \<or> t = RecordType_code kMiddleType \<or> t = RecordType_code kLastType"
    and "\<not> l_in_fragmented_record l"
  shows "\<exists>l' r'. ReadRecord_step t l r = (None, l', r') \<and> \<not> l_in_fragmented_record l'
    \<and> r_buffer r' = r_buffer r \<and> r_file r' = r_file r \<and> r_eof r' = r_eof r
    \<and> r_end_of_buffer_offset r' = r_end_of_buffer_offset r \<and> r_initial_offset r' = r_initial_offset r"
  using assms(1)
proof (elim disjE)
  assume "t = kBadRecord"
  with assms(2) show ?thesis
    by (simp add: ReadRecord_step_def ReadRecord_switch_def kBadRecord_def kEof_def kMaxRecordType_def)
next
  assume "t = RecordType_code kMiddleType"
  with assms(2) show ?thesis
    by (cases "r_resyncing r") (simp_all add: ReadRecord_step_def ReadRecord_switch_def frame_simps)
next
  assume "t = RecordType_code kLastType"
  with assms(2) show ?thesis
    by (cases "r_resyncing r") (simp_all add: ReadRecord_step_def ReadRecord_switch_def frame_simps)
qed

context sequential_file
begin

text \<open>A physical record that is not returned: one that starts before the initial offset, or a fragment
  without its first one.\<close>

lemma skip_step:
  assumes at: "reader_pos remaining r (replicate (trailer p) 0 @ phys_record t d @ mor) p" and "length d \<le> room p"
    and skip: "of_nat (p + trailer p) < r_initial_offset r \<and> t \<noteq> kZeroType \<or> t = kMiddleType \<or> t = kLastType"
    and l: "\<not> l_in_fragmented_record l"
  shows "\<exists>l' r'. ReadRecord_loop Read l r = ReadRecord_loop Read l' r' \<and> \<not> l_in_fragmented_record l'
    \<and> reader_pos remaining r' mor (p + trailer p + kHeaderSize + length d)
    \<and> r_initial_offset r' = r_initial_offset r"
proof -
  have t: "t \<noteq> kZeroType" using skip by auto
  let ?bad = "of_nat (p + trailer p) < r_initial_offset r"
  obtain r1 where r1: "ReadPhysicalRecord Read r (l_fragment l) =
      Some (if ?bad then (kBadRecord, [], r1) else (RecordType_code t, d, r1))"
    "same_mode r r1" "reader_pos remaining r1 mor (p + trailer p + kHeaderSize + length d)"
    using step_record [OF at assms(2) t, of "l_fragment l"] by blast
  define ty where "ty = (if ?bad then kBadRecord else RecordType_code t)"
  define l1 where "l1 = l\<lparr>l_fragment := if ?bad then [] else d\<rparr>"
  have l1: "\<not> l_in_fragmented_record l1" using l by (simp add: l1_def)
  have "ty = kBadRecord \<or> ty = RecordType_code kMiddleType \<or> ty = RecordType_code kLastType"
    using skip by (auto simp: ty_def)
  then obtain l2 r2 where step: "ReadRecord_step ty l1 r1 = (None, l2, r2)" "\<not> l_in_fragmented_record l2"
    "r_buffer r2 = r_buffer r1" "r_file r2 = r_file r1" "r_eof r2 = r_eof r1"
    "r_end_of_buffer_offset r2 = r_end_of_buffer_offset r1" "r_initial_offset r2 = r_initial_offset r1"
    using ReadRecord_step_drops [OF _ l1, of ty r1] by blast
  have "ReadRecord_loop Read l r = ReadRecord_loop Read l2 r2"
    using r1(1) step(1) by (subst ReadRecord_loop.simps) (auto simp: ty_def l1_def)
  moreover have "reader_pos remaining r2 mor (p + trailer p + kHeaderSize + length d)"
    using r1(3) step(3-6) by (auto simp: reader_pos_def unread_def)
  ultimately show ?thesis using step(2,7) r1(2) by (auto simp: same_mode_def)
qed

lemma skip_record:
  assumes "reader_pos remaining r (record_image p bgn d @ mor) p" and "\<not> l_in_fragmented_record l"
    and "bgn \<longrightarrow> of_nat (p + trailer p) < r_initial_offset r"
  shows "\<exists>l' r'. ReadRecord_loop Read l r = ReadRecord_loop Read l' r' \<and> \<not> l_in_fragmented_record l'
    \<and> reader_pos remaining r' mor (p + length (record_image p bgn d)) \<and> r_initial_offset r' = r_initial_offset r"
  using assms
proof (induction p bgn d arbitrary: l r rule: record_image.induct)
  case (1 p bgn d)
  define frag where "frag = take (room p) d"
  define rest where "rest = drop (room p) d"
  define t where "t = fragment_type bgn (rest = [])"
  define q where "q = p + trailer p + kHeaderSize + length frag"
  define img' where "img' = (if rest = [] then [] else record_image q False rest)"
  have img: "record_image p bgn d = replicate (trailer p) 0 @ phys_record t frag @ img'"
    by (subst record_image.simps) (simp add: Let_def frag_def rest_def t_def q_def img'_def)
  have "of_nat (p + trailer p) < r_initial_offset r \<and> t \<noteq> kZeroType \<or> t = kMiddleType \<or> t = kLastType"
    using "1.prems"(3) by (cases bgn) (auto simp: t_def fragment_type_def)
  then obtain l1 r1 where r1: "ReadRecord_loop Read l r = ReadRecord_loop Read l1 r1" "\<not> l_in_fragmented_record l1"
    "reader_pos remaining r1 (img' @ mor) q" "r_initial_offset r1 = r_initial_offset r"
    using skip_step [of r p t frag "img' @ mor" l] "1.prems"(1,2) by (auto simp: img q_def frag_def)
  have len: "p + length (record_image p bgn d) = q + length img'" by (simp add: img q_def)
  show ?case
  proof (cases "rest = []")
    case True
    then show ?thesis using r1 unfolding len by (auto simp: img'_def)
  next
    case False
    with "1.IH" [OF frag_def rest_def False, of r1 l1] r1 show ?thesis
      unfolding len by (auto simp: q_def [symmetric] img'_def)
  qed
qed

lemma loop_at_end:
  assumes "reader_pos remaining r [] p"
  shows "\<exists>l' r'. ReadRecord_loop Read l r = Some (False, l', r')"
proof -
  have "reader_pos remaining r (take 0 (replicate (trailer p) 0 @ phys_record kFullType [])) p" using assms by simp
  then obtain r1 where "ReadPhysicalRecord Read r (l_fragment l) = Some (kEof, l_fragment l, r1)"
    using step_cut [of r 0 p kFullType "[]"] by (auto simp: kHeaderSize_def)
  then show ?thesis
    by (subst ReadRecord_loop.simps)
      (simp add: ReadRecord_step_def ReadRecord_switch_def Let_def kEof_def kMaxRecordType_def)
qed

lemma read_on_log:
  assumes "reader_pos remaining r (log_image p ds) p" and "\<not> l_in_fragmented_record l"
    and "p + length (log_image p ds) < 2 ^ 64"
  shows "\<exists>r'. read_on Read Skip l r = Some (filter (\<lambda>(d, q). r_initial_offset r \<le> q) (zip ds (map of_nat (log_offsets p ds))), r')"
  using assms
proof (induction p ds arbitrary: l r rule: log_image.induct)
  case (1 p)
  then obtain l' r' where "ReadRecord_loop Read l r = Some (False, l', r')" using loop_at_end by fastforce
  then show ?case by (simp add: read_on_def)
next
  case (2 p d ds)
  let ?k = "length (record_image p True d)"
  show ?case
  proof (cases "of_nat (p + trailer p) < r_initial_offset r")
    case True
    then obtain l1 r1 where r1: "ReadRecord_loop Read l r = ReadRecord_loop Read l1 r1" "\<not> l_in_fragmented_record l1"
      "reader_pos remaining r1 (log_image (p + ?k) ds) (p + ?k)" "r_initial_offset r1 = r_initial_offset r"
      using skip_record [of r p True d "log_image (p + ?k) ds" l] "2.prems"(1,2) by auto
    have "read_on Read Skip l r = read_on Read Skip l1 r1" by (simp add: read_on_def r1(1))
    moreover have "\<not> r_initial_offset r \<le> of_nat (p + trailer p)" using True by (simp only: not_le)
    ultimately show ?thesis
      using "2.IH" [of r1 l1] r1 "2.prems"(3) by (simp del: of_nat_add)
  next
    case False
    have tr: "p + trailer p < 2 ^ 64"
      using "2.prems"(3) log_offsets_less [of "p + trailer p" p "d # ds"] by simp
    with False have init: "unat (r_initial_offset r) \<le> p + trailer p"
      by (simp add: word_less_nat_alt unat_of_nat_small del: of_nat_add)
    with "2.prems" have at: "reader_at remaining r (record_image p True d @ log_image (p + ?k) ds) p"
      by (simp add: reader_at_def)
    obtain l1 r1 where r1: "ReadRecord_loop Read l r = Some (True, l1, r1)" "l_record l1 = d"
      "reader_at remaining r1 (log_image (p + ?k) ds) (p + ?k)" "r_initial_offset r1 = r_initial_offset r"
      "r_last_record_offset r1 = of_nat (p + trailer p)"
      using loop_record [OF at, of l] "2.prems"(2) by auto
    have "reader_at remaining r1 (take (length (log_image (p + ?k) ds)) (log_image (p + ?k) ds)) (p + ?k)"
      using r1(3) by simp
    moreover have "r_initial_offset r1 \<le> r_last_record_offset r1" using False r1(4,5) by (simp add: not_less)
    ultimately obtain r2 where "read_log Read Skip r1 = Some (zip ds (map of_nat (log_offsets (p + ?k) ds)), r2)"
      using read_log_complete [of r1 "length (log_image (p + ?k) ds)" "p + ?k" ds] by (auto simp: log_complete_all)
    moreover have "r_initial_offset r \<le> of_nat q" if q: "q \<in> set (log_offsets (p + ?k) ds)" for q
    proof -
      have "p + ?k \<le> q" "q < 2 ^ 64" using log_offsets_ge [OF q] log_offsets_less [OF q] "2.prems"(3) by auto
      moreover have "trailer p \<le> ?k" by (subst record_image.simps) (simp add: Let_def)
      ultimately show ?thesis using init by (simp add: word_le_nat_alt unat_of_nat_small)
    qed
    then have "filter (\<lambda>(d, q). r_initial_offset r \<le> q) (zip ds (map of_nat (log_offsets (p + ?k) ds)))
        = zip ds (map of_nat (log_offsets (p + ?k) ds))"
      by (intro filter_True) (auto dest!: set_zip_rightD)
    ultimately show ?thesis
      using r1(1,2,5) False by (simp add: read_on_def LastRecordOffset_def not_less)
  qed
qed

section \<open>From the initial offset on\<close>

lemma skip_to_initial_block:
  assumes "unat init < 2 ^ 62" and "init > 0"
  shows "\<exists>r. SkipToInitialBlock Skip (Reader_new f reporting chk init) = (True, r) \<and> r_initial_offset r = init
    \<and> reader_pos remaining r (drop (initial_block (unat init)) (remaining f)) (initial_block (unat init))"
proof -
  let ?B = "initial_block (unat init)"
  define loc where "loc = (let loc = init - init mod of_nat kBlockSize in
    if init mod of_nat kBlockSize > of_nat kBlockSize - 6 then loc + of_nat kBlockSize else loc)"
  have u: "unat loc = ?B" unfolding loc_def by (rule unat_initial_block [OF assms(1)])
  have loc: "loc = of_nat ?B" unfolding u [symmetric] by simp
  have "?B \<le> unat init + kBlockSize" by (simp add: initial_block_def trans_le_add1)
  with assms(1) have "?B < 2 ^ 63" by (simp add: kBlockSize_def)
  then obtain f' where f': "Skip f ?B = (Status_OK, f')" "remaining f' = drop ?B (remaining f)"
    using Skip_ok by blast
  let ?r = "(Reader_new f reporting chk init)\<lparr>r_end_of_buffer_offset := loc\<rparr>"
  have "SkipToInitialBlock Skip (Reader_new f reporting chk init) = (True, if loc > 0 then ?r\<lparr>r_file := f'\<rparr> else ?r)"
    using f'(1) u by (simp add: SkipToInitialBlock_def Let_def Reader_new_def loc_def)
  moreover have "?B = 0" if "\<not> loc > 0" using that u by (simp add: word_gt_0)
  ultimately show ?thesis
    using f'(2) initial_block_aligned [of "unat init"] loc
    by (auto simp: reader_pos_def unread_def Reader_new_def)
qed

lemma read_log_starts:
  assumes "(if r_last_record_offset r0 < r_initial_offset r0 then SkipToInitialBlock Skip r0 else (True, r0)) = (True, r)"
  shows "read_log Read Skip r0 = read_on Read Skip \<lparr>l_in_fragmented_record = False, l_prospective_record_offset = 0,
    l_fragment = [], l_scratch = [], l_record = []\<rparr> r"
  by (subst read_log.simps)
    (simp add: ReadRecord_def assms read_on_def split: option.split bind_split)

lemma read_log_new:
  assumes "unat init < 2 ^ 62"
  shows "\<exists>r. read_log Read Skip (Reader_new f reporting chk init) = read_on Read Skip \<lparr>l_in_fragmented_record = False,
      l_prospective_record_offset = 0, l_fragment = [], l_scratch = [], l_record = []\<rparr> r
    \<and> r_initial_offset r = init
    \<and> reader_pos remaining r (drop (initial_block (unat init)) (remaining f)) (initial_block (unat init))"
proof (cases "init > 0")
  case True
  with skip_to_initial_block [OF assms True, of f reporting chk] show ?thesis
    by (auto simp: read_log_starts Reader_new_def)
next
  case False
  then have "init = 0" by (simp add: word_gt_0)
  with reader_at_new [of remaining f reporting chk] show ?thesis
    by (intro exI [of _ "Reader_new f reporting chk 0"])
      (simp add: read_log_starts reader_at_def initial_block_def Reader_new_def)
qed

text \<open>From a block boundary on, the records that start there or behind it.\<close>

lemma read_on_block:
  assumes "reader_pos remaining r (drop (B - p) (log_image p ds)) B" and "\<not> l_in_fragmented_record l"
    and "B mod kBlockSize = 0" and "p \<le> B" and "p + length (log_image p ds) < 2 ^ 64"
  shows "\<exists>r'. read_on Read Skip l r = Some (filter (\<lambda>(d, q). r_initial_offset r \<le> q)
    (map (apsnd of_nat) (filter (\<lambda>(d, q). B \<le> q) (zip ds (log_offsets p ds)))), r')"
proof (cases "B \<le> p + length (log_image p ds)")
  case False
  then have "\<forall>q \<in> set (log_offsets p ds). \<not> B \<le> q" using log_offsets_less [of _ p ds] by fastforce
  then have "filter (\<lambda>(d, q). B \<le> q) (zip ds (log_offsets p ds)) = []"
    by (auto simp: filter_empty_conv dest!: set_zip_rightD)
  moreover obtain l' r' where "ReadRecord_loop Read l r = Some (False, l', r')"
    using loop_at_end [of r B l] assms(1) False by auto
  ultimately show ?thesis by (simp add: read_on_def)
next
  case True
  obtain es fs tail where cut: "ds = es @ fs" "drop (B - p) (log_image p ds) = tail @ log_image (B + length tail) fs"
    "tail = [] \<or> (\<exists>rest. tail = record_image B False rest)" "\<forall>q \<in> set (log_offsets p es). q < B"
    "log_offsets p ds = log_offsets p es @ log_offsets (B + length tail) fs"
    using log_from_block [OF assms(3,4) True] by blast
  obtain l1 r1 where r1: "ReadRecord_loop Read l r = ReadRecord_loop Read l1 r1" "\<not> l_in_fragmented_record l1"
    "reader_pos remaining r1 (log_image (B + length tail) fs) (B + length tail)" "r_initial_offset r1 = r_initial_offset r"
    using cut(3)
  proof (elim disjE exE)
    fix rest assume "tail = record_image B False rest"
    with that skip_record [of r B False rest "log_image (B + length tail) fs" l] assms(1,2) cut(2) show thesis by auto
  qed (use that [of l r] assms(1,2) cut(2) in simp)
  have "length (drop (B - p) (log_image p ds)) < 2 ^ 64 - B" using True assms(4,5) by simp
  then have "B + length tail + length (log_image (B + length tail) fs) < 2 ^ 64" unfolding cut(2) by simp
  then obtain r' where "read_on Read Skip l1 r1 =
      Some (filter (\<lambda>(d, q). r_initial_offset r \<le> q) (zip fs (map of_nat (log_offsets (B + length tail) fs))), r')"
    using read_on_log [OF r1(3,2)] r1(4) by auto
  moreover have "filter (\<lambda>(d, q). B \<le> q) (zip es (log_offsets p es)) = []"
    using cut(4) by (auto simp: filter_empty_conv dest!: set_zip_rightD)
  moreover have "filter (\<lambda>(d, q). B \<le> q) (zip fs (log_offsets (B + length tail) fs)) = zip fs (log_offsets (B + length tail) fs)"
    using log_offsets_ge [of _ "B + length tail" fs] by (intro filter_True) (fastforce dest!: set_zip_rightD)
  ultimately show ?thesis
    unfolding cut(5) using cut(1) r1(1) by (simp add: read_on_def zip_map2 apsnd_def map_prod_def)
qed

lemma read_log_from:
  assumes "unat init < 2 ^ 62" and "remaining f = log_image 0 ds" and "length (log_image 0 ds) < 2 ^ 64"
  shows "\<exists>r. read_log Read Skip (Reader_new f reporting chk init)
    = Some (filter (\<lambda>(d, q). init \<le> q) (zip ds (map of_nat (log_offsets 0 ds))), r)"
proof -
  let ?B = "initial_block (unat init)"
  let ?l = "\<lparr>l_in_fragmented_record = False, l_prospective_record_offset = 0, l_fragment = [], l_scratch = [], l_record = []\<rparr>"
  obtain r where start: "read_log Read Skip (Reader_new f reporting chk init) = read_on Read Skip ?l r"
    and r: "r_initial_offset r = init" "reader_pos remaining r (drop ?B (log_image 0 ds)) ?B"
    using read_log_new [OF assms(1)] assms(2) by metis
  obtain r' where r': "read_on Read Skip ?l r = Some (filter (\<lambda>(d, q). init \<le> q)
      (map (apsnd of_nat) (filter (\<lambda>(d, q). ?B \<le> q) (zip ds (log_offsets 0 ds)))), r')"
    using read_on_block [of r ?B 0 ds ?l] r assms(3) initial_block_aligned by auto
  have "filter (\<lambda>(d, q). init \<le> q) (zip ds (map of_nat (log_offsets 0 ds)))
      = map (apsnd of_nat) (filter (\<lambda>(d, q). init \<le> of_nat q) (zip ds (log_offsets 0 ds)))"
    by (simp add: zip_map2 filter_map comp_def case_prod_unfold apsnd_def map_prod_def)
  also have "filter (\<lambda>(d, q). init \<le> of_nat q) (zip ds (log_offsets 0 ds))
      = filter (\<lambda>(d, q). init \<le> of_nat q) (filter (\<lambda>(d, q). ?B \<le> q) (zip ds (log_offsets 0 ds)))"
    unfolding filter_filter
    by (rule filter_cong) (auto dest!: set_zip_rightD offset_before_initial_block [OF _ _ assms(3)] simp: not_le)
  also have "map (apsnd of_nat) \<dots>
      = filter (\<lambda>(d, q). init \<le> q) (map (apsnd of_nat) (filter (\<lambda>(d, q). ?B \<le> q) (zip ds (log_offsets 0 ds))))"
    by (simp add: filter_map comp_def case_prod_unfold)
  finally show ?thesis using start r' by simp
qed

text \<open>
  A record that spans two blocks and starts before the initial offset: the dropped first fragment ends the
  resynchronisation, so the last fragment of an undamaged log is reported as a corruption.
\<close>

lemma dropped_start_is_reported:
  assumes "remaining f = log_image 0 [d]" and "32761 < length d" and "length d \<le> 65522"
  shows "\<exists>r. read_log Read Skip (Reader_new f True chk 1) = Some ([], r)
    \<and> r_reports r = [(of_nat (length d - 32761), Status_Corruption (str ''missing start of fragmented record(2)'') [])]"
proof -
  let ?l = "\<lparr>l_in_fragmented_record = False, l_prospective_record_offset = 0, l_fragment = [], l_scratch = [], l_record = []\<rparr>"
  define a where "a = take 32761 d"
  define b where "b = drop 32761 d"
  have len: "length a = 32761" "length b = length d - 32761" "b \<noteq> []" using assms(2) by (simp_all add: a_def b_def)
  have p0: "trailer 0 = 0" "room 0 = 32761" "trailer 32768 = 0" "room 32768 = 32761"
    by (simp_all add: trailer_def room_def kBlockSize_def kHeaderSize_def)
  have "log_image 0 [d] = phys_record kFirstType a @ phys_record kLastType b"
    using assms(2,3) by (simp add: record_image.simps [of 0] record_image.simps [of 32768] p0 fragment_type_def
        kHeaderSize_def a_def b_def)
  then obtain r0 where r0: "SkipToInitialBlock Skip (Reader_new f True chk 1) = (True, r0)" "r_initial_offset r0 = 1"
    "r_reports r0 = []" "r_reporter r0" "r_resyncing r0"
    "reader_pos remaining r0 (replicate (trailer 0) 0 @ phys_record kFirstType a @ phys_record kLastType b) 0"
    using assms(1) by (simp add: SkipToInitialBlock_def Reader_new_def reader_pos_def unread_def p0 kBlockSize_def)
  obtain r1 where r1: "ReadPhysicalRecord Read r0 [] = Some (kBadRecord, [], r1)" "same_mode r0 r1"
    "reader_pos remaining r1 (replicate (trailer 32768) 0 @ phys_record kLastType b @ []) 32768" "r_reports r1 = []"
    using step_record [OF r0(6), of "[]"] r0(2,3) len by (auto simp: p0 kHeaderSize_def)
  define r1' where "r1' = r1\<lparr>r_resyncing := False\<rparr>"
  have at: "reader_pos remaining r1' (replicate (trailer 32768) 0 @ phys_record kLastType b @ []) 32768"
    using r1(3) by (simp add: r1'_def)
  have m1: "r_initial_offset r1' = 1" "r_reporter r1'" "r_reports r1' = []"
    using r0 r1(2,4) by (simp_all add: r1'_def same_mode_def)
  obtain r2 where r2: "ReadPhysicalRecord Read r1' [] = Some (RecordType_code kLastType, b, r2)" "same_mode r1' r2"
    "reader_pos remaining r2 [] (32768 + kHeaderSize + length b)" "r_reports r2 = []"
    "r_end_of_buffer_offset r2 - buffer_size r2 - of_nat kHeaderSize - of_nat (length b) = 32768"
  proof -
    have "length b \<le> room 32768" using len assms(3) by (simp add: p0)
    from step_record [OF at this, of "[]"] m1 that show thesis by (auto simp: p0 kHeaderSize_def)
  qed
  define r2' where "r2' = ReportCorruption (r2\<lparr>r_resyncing := False\<rparr>) (of_nat (length b))
    (str ''missing start of fragmented record(2)'')"
  have "r_end_of_buffer_offset r2 - buffer_size r2 - of_nat (length b) = 32768 + of_nat kHeaderSize"
    using r2(5) by (simp add: algebra_simps)
  then have rep2: "r_reports r2' = [(of_nat (length d - 32761), Status_Corruption (str ''missing start of fragmented record(2)'') [])]"
    using r2(2,4) m1 len by (simp add: r2'_def ReportCorruption_def ReportDrop_def same_mode_def kHeaderSize_def)
  have "reader_pos remaining r2' (take 0 (replicate (trailer (32768 + kHeaderSize + length b)) 0 @ phys_record kFullType []))
      (32768 + kHeaderSize + length b)"
    using r2(3) by (simp add: r2'_def)
  then obtain r3 where r3: "ReadPhysicalRecord Read r2' b = Some (kEof, b, r3)" "r_reports r3 = r_reports r2'"
    using step_cut [of r2' 0 "32768 + kHeaderSize + length b" kFullType "[]" b] by (auto simp: kHeaderSize_def)
  have "\<not> r_resyncing r2" using r2(2) by (simp add: same_mode_def r1'_def)
  then have "\<exists>r. read_on Read Skip ?l r0 = Some ([], r) \<and> r_reports r = r_reports r3"
    using r0 r1 r2 r3
    by (simp add: read_on_def ReadRecord_loop.simps ReadRecord_step_def ReadRecord_switch_def Let_def kBadRecord_def
        kEof_def kMaxRecordType_def r1'_def [symmetric] r2'_def [symmetric])
  then show ?thesis
    using read_log_starts [of "Reader_new f True chk 1" r0] r0(1) r3(2) rep2 by (simp add: Reader_new_def)
qed

end

section \<open>Property\<close>

context kernel_read
begin

lemmas log_from_offset = posix_read.read_log_from

end

text \<open>C23. Reading from an initial offset.  Over a kernel that works, a reader made with an initial offset
  below \<open>2 ^ 62\<close> on a log of any records returns exactly the records whose first header stands at the
  offset or behind it, in order and with their offsets, also when the offset lies inside a record, in
  the trailer of a block or behind the end of the log.\<close>

theorem read_from_initial_offset:
  assumes "kernel_read sys left" and "seqfile_left left f = log_image 0 ds"
    and "length (log_image 0 ds) < 2 ^ 64" and "unat initial_offset < 2 ^ 62"
  shows "\<exists>r. read_log (\<lambda>f n. PosixSequentialFile_Read sys f n scratch) (PosixSequentialFile_Skip sys)
      (Reader_new f reporting chk initial_offset)
    = Some (filter (\<lambda>(d, q). initial_offset \<le> q) (zip ds (map of_nat (log_offsets 0 ds))), r)"
  by (rule kernel_read.log_from_offset [OF assms(1,4,2,3)])

theorem read_from_initial_offset_witness:
  "\<exists>r. read_log (\<lambda>f n. PosixSequentialFile_Read mem_sys f n []) (PosixSequentialFile_Skip mem_sys)
    (Reader_new \<lparr>sf_fd = 3, sf_filename = str ''LOG'',
       sf_os = \<lparr>mf_data = [0, 0, 0, 0, 2, 0, 1, 1, 2, 0, 0, 0, 0, 1, 0, 1, 3], mf_pos = 0\<rparr>\<rparr> True True 5)
    = Some ([([3], 9)], r)"
proof -
  have img: "log_image 0 [[1, 2], [3]] = [0, 0, 0, 0, 2, 0, 1, 1, 2, 0, 0, 0, 0, 1, 0, 1, 3]"
    by (simp add: short_record_image phys_record_def)
  have off: "log_offsets 0 [[1, 2], [3]] = [0, 9]"
    by (simp add: short_record_image short_image kHeaderSize_def)
  show ?thesis
    using read_from_initial_offset [OF memr.kernel_read_axioms, of "\<lparr>sf_fd = 3, sf_filename = str ''LOG'',
       sf_os = \<lparr>mf_data = [0, 0, 0, 0, 2, 0, 1, 1, 2, 0, 0, 0, 0, 1, 0, 1, 3], mf_pos = 0\<rparr>\<rparr>"
      "[[1, 2], [3]]" 5 "[]" True True]
    unfolding img off by (simp add: seqfile_left_def)
qed

end
