(* ===== verification/Log_Damage.thy ===== *)
theory Log_Damage
  imports Log_Offset
begin

text \<open>
  Reading a damaged log (\<open>log_reader/log_reader.cpp\<close>): the records before the damage are read whatever
  follows them, and a header that the reader cannot use costs the rest of its block and nothing else.
\<close>

section \<open>What reading never changes\<close>

text \<open>Reports are only added, and the reporter stays.\<close>

definition reports_grow :: "'f Reader \<Rightarrow> 'f Reader \<Rightarrow> bool" where
  "reports_grow r r' \<longleftrightarrow> r_reporter r' = r_reporter r \<and> (\<exists>xs. r_reports r' = r_reports r @ xs)"

lemma reports_grow_refl [simp]: "reports_grow r r"
  by (simp add: reports_grow_def)

lemma reports_grow_trans [trans]: "reports_grow a b \<Longrightarrow> reports_grow b c \<Longrightarrow> reports_grow a c"
  by (auto simp: reports_grow_def)

lemma reports_grow_frame [simp]:
  "reports_grow r (s\<lparr>r_buffer := x\<rparr>) = reports_grow r s" "reports_grow r (s\<lparr>r_eof := b\<rparr>) = reports_grow r s"
  "reports_grow r (s\<lparr>r_file := f\<rparr>) = reports_grow r s" "reports_grow r (s\<lparr>r_resyncing := b\<rparr>) = reports_grow r s"
  "reports_grow r (s\<lparr>r_end_of_buffer_offset := off\<rparr>) = reports_grow r s"
  "reports_grow r (s\<lparr>r_last_record_offset := off\<rparr>) = reports_grow r s"
  "reports_grow (s\<lparr>r_buffer := x\<rparr>) r = reports_grow s r" "reports_grow (s\<lparr>r_eof := b\<rparr>) r = reports_grow s r"
  "reports_grow (s\<lparr>r_file := f\<rparr>) r = reports_grow s r" "reports_grow (s\<lparr>r_resyncing := b\<rparr>) r = reports_grow s r"
  "reports_grow (s\<lparr>r_end_of_buffer_offset := off\<rparr>) r = reports_grow s r"
  by (simp_all add: reports_grow_def)

lemma ReportDrop_grows [simp]: "reports_grow r s \<Longrightarrow> reports_grow r (ReportDrop s n reason)"
  by (auto simp: reports_grow_def ReportDrop_def)

lemma ReportCorruption_grows [simp]: "reports_grow r s \<Longrightarrow> reports_grow r (ReportCorruption s n reason)"
  by (simp add: ReportCorruption_def)

lemma ParsePhysicalRecord_grows: "reports_grow r (snd (snd (ParsePhysicalRecord r fr)))"
  by (simp add: ParsePhysicalRecord_def Let_def)

lemma ReadPhysicalRecord_grows:
  assumes "ReadPhysicalRecord Read r fr = Some y"
  shows "reports_grow r (snd (snd y))"
proof (rule ReadPhysicalRecord.raw_induct [where P = "\<lambda>Read r fr y. reports_grow r (snd (snd y))", OF _ assms], goal_cases)
  case (1 self Read r fr y)
  show ?case
  proof (cases "length (r_buffer r) < kHeaderSize \<and> \<not> r_eof r")
    case True
    with 1(2) obtain status buffer f where "Read (r_file r) kBlockSize = Some (status, buffer, f)"
      by (auto split: bind_splits)
    with True 1(2) show ?thesis by (auto simp: Let_def split: if_splits dest!: 1(1))
  next
    case False
    with 1(2) show ?thesis by (auto simp: ParsePhysicalRecord_grows split: if_splits)
  qed
qed

lemma ReadRecord_step_grows:
  assumes "ReadRecord_step t l r = (b, l', r')"
  shows "reports_grow r r'"
proof -
  have "reports_grow s r2" if "ReadRecord_switch t p l s = (b, l', r2)" for p s r2
    using that by (auto simp: ReadRecord_switch_def Let_def split: if_splits)
  then show ?thesis using assms by (fastforce simp: ReadRecord_step_def Let_def split: if_splits)
qed

lemma ReadRecord_loop_grows:
  assumes "ReadRecord_loop Read l r = Some y"
  shows "reports_grow r (snd (snd y))"
proof (rule ReadRecord_loop.raw_induct [where P = "\<lambda>Read l r y. reports_grow r (snd (snd y))", OF _ assms], goal_cases)
  case (1 self Read l r y)
  obtain t fr r1 where r1: "ReadPhysicalRecord Read r (l_fragment l) = Some (t, fr, r1)"
    using 1(2) by (auto split: bind_splits)
  obtain b l2 r2 where s: "ReadRecord_step t (l\<lparr>l_fragment := fr\<rparr>) r1 = (b, l2, r2)" by (metis prod_cases3)
  have "reports_grow r r2"
    using ReadPhysicalRecord_grows [OF r1] ReadRecord_step_grows [OF s] by (auto intro: reports_grow_trans)
  then show ?case
    using 1(2) r1 s by (cases b) (auto dest!: 1(1) intro: reports_grow_trans)
qed

lemma SkipToInitialBlock_grows: "SkipToInitialBlock Skip r = (b, r') \<Longrightarrow> reports_grow r r'"
  by (auto simp: SkipToInitialBlock_def Let_def split: if_splits prod.splits)

lemma ReadRecord_grows:
  assumes "ReadRecord Read Skip r rec scratch = Some (b, d, s, r')"
  shows "reports_grow r r'"
proof -
  obtain go r1 where r1: "(if r_last_record_offset r < r_initial_offset r then SkipToInitialBlock Skip r else (True, r)) = (go, r1)"
    by (metis surj_pair)
  then have "reports_grow r r1" by (auto split: if_splits dest: SkipToInitialBlock_grows)
  moreover have "reports_grow r1 r'"
    using assms by (auto simp: ReadRecord_def r1 split: if_splits bind_splits dest!: ReadRecord_loop_grows)
  ultimately show ?thesis by (rule reports_grow_trans)
qed

lemma read_log_grows:
  assumes "read_log Read Skip r = Some y"
  shows "reports_grow r (snd y)"
proof (rule read_log.raw_induct [where P = "\<lambda>Read Skip r y. reports_grow r (snd y)", OF _ assms], goal_cases)
  case (1 self Read Skip r y)
  obtain b d s r1 where r1: "ReadRecord Read Skip r [] [] = Some (b, d, s, r1)"
    using 1(2) by (auto split: bind_splits)
  then show ?case
    using 1(2) ReadRecord_grows [OF r1]
    by (auto split: if_splits bind_splits dest!: 1(1) intro: reports_grow_trans)
qed

lemma read_on_grows: "read_on Read Skip l r = Some y \<Longrightarrow> reports_grow r (snd y)"
  by (auto simp: read_on_def split: if_splits bind_splits dest!: ReadRecord_loop_grows read_log_grows)
    (erule (1) reports_grow_trans)

section \<open>The extent of a record\<close>

text \<open>Each record with the offset of its first header and the offset behind its last byte.\<close>

fun log_extents :: "nat \<Rightarrow> bytes list \<Rightarrow> (bytes \<times> nat \<times> nat) list" where
  "log_extents p [] = []"
| "log_extents p (d # ds) =
     (let e = p + length (record_image p True d) in (d, p + trailer p, e) # log_extents e ds)"

lemma log_extents_append:
  "log_extents p (ds @ es) = log_extents p ds @ log_extents (p + length (log_image p ds)) es"
  by (induction p ds rule: log_extents.induct) (simp_all add: Let_def add.assoc)

lemma zip_log_offsets: "zip ds (log_offsets p ds) = map (\<lambda>(d, q, e). (d, q)) (log_extents p ds)"
  by (induction p ds rule: log_extents.induct) (simp_all add: Let_def)

lemma log_extents_end: "(d, q, e) \<in> set (log_extents p ds) \<Longrightarrow> p < e \<and> e \<le> p + length (log_image p ds)"
proof (induction p ds rule: log_extents.induct)
  case (2 p d' ds)
  then show ?case using length_record_image [of p True d'] by (fastforce simp: Let_def kHeaderSize_def)
qed simp

text \<open>Where damage is found: in front of the first header of a record, or at a block boundary inside of one.\<close>

definition damage_at :: "nat \<Rightarrow> nat \<Rightarrow> bytes list \<Rightarrow> bool" where
  "damage_at P p ds \<longleftrightarrow> P = p + trailer p \<and> P \<le> p + length (log_image p ds)
     \<or> P mod kBlockSize = 0 \<and> (\<exists>d es. ds = d # es \<and> p + trailer p < P \<and> P < p + length (record_image p True d))"

lemma damage_point:
  assumes "P \<in> set (log_offsets p ds) \<or> P mod kBlockSize = 0 \<and> p \<le> P \<and> P \<le> p + length (log_image p ds)"
  shows "\<exists>es fs. ds = es @ fs \<and> damage_at P (p + length (log_image p es)) fs"
  using assms
proof (induction p ds rule: log_extents.induct)
  case (1 p)
  then have "damage_at P p []" by (auto simp: damage_at_def trailer_def kBlockSize_def kHeaderSize_def)
  then show ?case by simp
next
  case (2 p d ds)
  let ?k = "length (record_image p True d)"
  have "trailer p < ?k" by (subst record_image.simps) (simp add: Let_def kHeaderSize_def)
  then consider "damage_at P p (d # ds)" | "P \<in> set (log_offsets (p + ?k) ds) \<or> P mod kBlockSize = 0 \<and> p + ?k \<le> P \<and> P \<le> p + ?k + length (log_image (p + ?k) ds)"
    using "2.prems" boundary_trailer [of P p] by (force simp: damage_at_def not_less)
  then show ?case
  proof cases
    case 1
    then show ?thesis by (intro exI [of _ "[]"] exI [of _ "d # ds"]) simp
  next
    case 2
    from "2.IH" [OF refl this] obtain es fs where "ds = es @ fs" "damage_at P (p + ?k + length (log_image (p + ?k) es)) fs" by blast
    then show ?thesis by (intro exI [of _ "d # es"] exI [of _ fs]) (simp add: add.assoc)
  qed
qed

lemma damage_at_extents:
  assumes "damage_at P p ds" "(d, q, e) \<in> set (log_extents p ds)"
  shows "P < e"
proof (cases ds)
  case (Cons d' es)
  let ?e = "p + length (record_image p True d')"
  have "p + trailer p < ?e" by (subst record_image.simps) (simp add: Let_def kHeaderSize_def)
  then have "P < ?e" using assms(1) Cons by (auto simp: damage_at_def)
  moreover have "?e \<le> e" using assms(2) Cons log_extents_end [of d q e ?e es] by (auto simp: Let_def)
  ultimately show ?thesis by simp
qed (use assms in simp)

lemma damage_at_ge: "damage_at P p ds \<Longrightarrow> p \<le> P"
  by (auto simp: damage_at_def)

section \<open>A header that cannot be used\<close>

text \<open>The length field of a header.  The header is of no use when the length exceeds the rest of the block,
  or when type and length are zero, as in space that was reserved and not written.\<close>

definition header_len :: "bytes \<Rightarrow> nat" where
  "header_len h = unat ((push_bit 8 (ucast (h ! 5)) OR ucast (h ! 4)) :: u32)"

definition unusable_header :: "bytes \<Rightarrow> bool" where
  "unusable_header h \<longleftrightarrow> length h < kHeaderSize + header_len h \<or> h ! 6 = 0 \<and> header_len h = 0"

definition damage_report :: "bytes \<Rightarrow> (u64 \<times> Status) list" where
  "damage_report h = (if length h < kHeaderSize + header_len h
     then [(of_nat (length h), Status_Corruption (str ''bad record length'') [])] else [])"

context sequential_file
begin

lemma damaged_block:
  assumes at: "reader_pos remaining r (replicate (trailer p) 0 @ bad @ rest) p"
    and bl: "(p + trailer p) mod kBlockSize + length bad = kBlockSize"
    and bad: "kHeaderSize \<le> length bad" "unusable_header bad" and mode: "r_initial_offset r = 0" "r_reporter r"
  shows "\<exists>r'. ReadPhysicalRecord Read r fr = Some (kBadRecord, fr, r') \<and> same_mode r r'
    \<and> reader_pos remaining r' rest (p + trailer p + length bad) \<and> r_reports r' = r_reports r @ damage_report bad"
proof -
  let ?q = "p + trailer p"
  obtain r1 where r1: "ready r1" "reader_pos remaining r1 (bad @ rest) ?q"
    "ReadPhysicalRecord Read r fr = ReadPhysicalRecord Read r1 fr" "r_reports r1 = r_reports r" "same_mode r r1"
    using at
  proof (cases rule: at_normal [of _ _ _ fr])
    case cut
    then show ?thesis using bad(1) by (simp add: kHeaderSize_def)
  qed (use that in simp)
  have al: "(?q + length bad) mod kBlockSize = 0"
    using bl by (metis mod_add_left_eq mod_self)
  have le: "length (r_buffer r1) \<le> length bad" using r1(2) bl by (simp add: reader_pos_def)
  have neof: "\<not> r_eof r1"
  proof
    assume e: "r_eof r1"
    with r1(2) have "r_buffer r1 = bad @ rest" by (auto simp: reader_pos_def unread_def)
    with le have "r_buffer r1 = bad" by simp
    with e r1(2) al bad(1) show False by (auto simp: reader_pos_def kHeaderSize_def)
  qed
  have "length bad \<le> length (r_buffer r1)" using ready_buffer [OF r1(2,1), of "length bad"] bl neof by simp
  then have buf: "r_buffer r1 = bad" "remaining (r_file r1) = rest"
    using le r1(2) by (auto simp: reader_pos_def unread_def)
  have eob: "r_end_of_buffer_offset r1 = of_nat (?q + length bad)" using r1(2) buf by (simp add: reader_pos_def)
  define r' where "r' = r1\<lparr>r_buffer := [], r_reports := r_reports r1 @ damage_report bad\<rparr>"
  have m: "r_initial_offset r1 = 0" "r_reporter r1" using r1(5) mode by (simp_all add: same_mode_def)
  have "ParsePhysicalRecord r1 fr = (kBadRecord, fr, r')"
    using bad(2) neof m
    by (auto simp: ParsePhysicalRecord_def Let_def buf header_len_def [symmetric] unusable_header_def damage_report_def
        ReportCorruption_def ReportDrop_def r'_def)
  then have "ReadPhysicalRecord Read r fr = Some (kBadRecord, fr, r')"
    using r1(1,3) bad(1) buf by (simp add: ReadPhysicalRecord_ready)
  moreover have "reader_pos remaining r' rest (?q + length bad)"
    using al neof eob buf by (simp add: reader_pos_def unread_def r'_def)
  ultimately show ?thesis using r1(4,5) by (auto simp: r'_def same_mode_def)
qed

text \<open>The loop of \<open>ReadRecord\<close> at the damage, between two records or inside of one.\<close>

lemma loop_damaged:
  assumes "reader_pos remaining r (replicate (trailer p) 0 @ bad @ rest) p"
    and "(p + trailer p) mod kBlockSize + length bad = kBlockSize"
    and "kHeaderSize \<le> length bad" "unusable_header bad" and "r_initial_offset r = 0" "r_reporter r"
  shows "\<exists>l' r' xs. ReadRecord_loop Read l r = ReadRecord_loop Read l' r' \<and> \<not> l_in_fragmented_record l'
    \<and> reader_pos remaining r' rest (p + trailer p + length bad) \<and> r_initial_offset r' = 0
    \<and> r_reports r' = r_reports r @ damage_report bad @ xs"
proof -
  obtain r1 where r1: "ReadPhysicalRecord Read r (l_fragment l) = Some (kBadRecord, l_fragment l, r1)" "same_mode r r1"
    "reader_pos remaining r1 rest (p + trailer p + length bad)" "r_reports r1 = r_reports r @ damage_report bad"
    using damaged_block [OF assms] by blast
  obtain b l2 r2 where step: "ReadRecord_step kBadRecord (l\<lparr>l_fragment := l_fragment l\<rparr>) r1 = (b, l2, r2)" by (metis prod_cases3)
  then have "b = None" "\<not> l_in_fragmented_record l2" and pos: "reader_pos remaining r2 = reader_pos remaining r1"
    "r_initial_offset r2 = r_initial_offset r1"
    by (auto simp: ReadRecord_step_def ReadRecord_switch_def kBadRecord_def kEof_def kMaxRecordType_def fun_eq_iff
        frame_simps split: if_splits)
  moreover from this have "ReadRecord_loop Read l r = ReadRecord_loop Read l2 r2"
    using r1(1) step by (subst ReadRecord_loop.simps) simp
  moreover obtain xs where "r_reports r2 = r_reports r @ damage_report bad @ xs"
    using ReadRecord_step_grows [OF step] r1(4) by (auto simp: reports_grow_def)
  ultimately show ?thesis
    using r1(2,3) assms(5) by (intro exI [of _ l2] exI [of _ r2] exI [of _ xs]) (simp add: same_mode_def)
qed

lemma loop_interrupted:
  assumes "reader_at remaining r (take (P - p) (record_image p bgn d) @ bad @ rest) p" and "P mod kBlockSize = 0"
    and "p + trailer p < P" "P < p + length (record_image p bgn d)" and "l_in_fragmented_record l = (\<not> bgn)"
    and "r_resyncing r \<longrightarrow> bgn" and bad: "length bad = kBlockSize" "unusable_header bad"
    and "r_initial_offset r = 0" "r_reporter r"
  shows "\<exists>l' r' xs. ReadRecord_loop Read l r = ReadRecord_loop Read l' r' \<and> \<not> l_in_fragmented_record l'
    \<and> reader_pos remaining r' rest (P + length bad) \<and> r_initial_offset r' = 0
    \<and> r_reports r' = r_reports r @ damage_report bad @ xs"
  using assms(1,3-6,9,10)
proof (induction p bgn d arbitrary: l r rule: record_image.induct)
  case (1 p bgn d)
  define frag where "frag = take (room p) d"
  define more where "more = drop (room p) d"
  define t where "t = fragment_type bgn (more = [])"
  define q where "q = p + trailer p + kHeaderSize + length frag"
  have img: "record_image p bgn d = (replicate (trailer p) 0 @ phys_record t frag)
      @ (if more = [] then [] else record_image q False more)"
    by (subst record_image.simps) (simp add: Let_def frag_def more_def t_def q_def)
  have bl: "p + trailer p + kHeaderSize + room p \<le> P"
    using boundary_block [OF assms(2) "1.prems"(2), of "kHeaderSize + room p"] room_fits [of p] by (simp add: add.assoc)
  have "length frag \<le> room p" by (simp add: frag_def)
  with bl "1.prems"(3) have ne: "more \<noteq> []" by (auto simp: img)
  then have room: "length frag = room p" by (simp add: frag_def more_def)
  with bl have qP: "q \<le> P" and q0: "q mod kBlockSize = 0" using block_full [of p] by (simp_all add: q_def)
  have tr: "trailer q = 0" using q0 by (simp add: trailer_def kBlockSize_def kHeaderSize_def)
  let ?S = "take (P - q) (record_image q False more) @ bad @ rest"
  have S: "take (P - p) (record_image p bgn d) @ bad @ rest = replicate (trailer p) 0 @ phys_record t frag @ ?S"
    using qP ne by (simp add: img q_def add.assoc)
  obtain r1 where r1: "ReadPhysicalRecord Read r (l_fragment l) = Some (RecordType_code t, frag, r1)"
    "reader_at remaining r1 ?S q" "r_reports r1 = r_reports r" "same_mode r r1"
    using next_record [of r p t frag ?S "l_fragment l"] "1.prems"(1) fragment_type_not_zero room
    unfolding S by (auto simp: t_def q_def)
  let ?r = "r1\<lparr>r_resyncing := False\<rparr>"
  have nres: "r_resyncing r1 \<longrightarrow> bgn" and mode: "r_initial_offset ?r = 0" "r_reporter ?r"
    using r1(4) "1.prems"(5-7) by (simp_all add: same_mode_def)
  obtain l2 where l2: "ReadRecord_step (RecordType_code t) (l\<lparr>l_fragment := frag\<rparr>) r1 = (None, l2, ?r)"
    "l_in_fragmented_record l2"
    using step_fragment [OF nres "1.prems"(4) refl, of False frag] ne unfolding t_def by auto
  have loop: "ReadRecord_loop Read l r = ReadRecord_loop Read l2 ?r"
    using r1(1) l2(1) by (subst ReadRecord_loop.simps) simp
  show ?case
  proof (cases "P = q")
    case True
    then have "reader_pos remaining ?r (replicate (trailer q) 0 @ bad @ rest) q"
      using r1(2) tr by (simp add: reader_at_def)
    then show ?thesis
      using loop_damaged [of ?r q bad rest l2] tr q0 bad mode r1(3) True loop by (simp add: kBlockSize_def kHeaderSize_def)
  next
    case False
    have "\<exists>l' r' xs. ReadRecord_loop Read l2 ?r = ReadRecord_loop Read l' r' \<and> \<not> l_in_fragmented_record l'
      \<and> reader_pos remaining r' rest (P + length bad) \<and> r_initial_offset r' = 0
      \<and> r_reports r' = r_reports ?r @ damage_report bad @ xs"
    proof (rule "1.IH" [OF frag_def more_def ne, folded q_def])
      show "P < q + length (record_image q False more)" using "1.prems"(3) ne by (simp add: img q_def)
    qed (use r1(2) qP False tr l2(2) mode in simp_all)
    then show ?thesis using loop r1(3) by simp
  qed
qed

text \<open>Complete records are read whatever follows them.\<close>

lemma read_log_append:
  assumes "reader_at remaining r (log_image p ds @ mor) p" and "r_initial_offset r \<le> r_last_record_offset r"
  shows "\<exists>r'. read_log Read Skip r = map_option (apfst (append (zip ds (map of_nat (log_offsets p ds))))) (read_log Read Skip r')
    \<and> reader_at remaining r' mor (p + length (log_image p ds)) \<and> r_initial_offset r' = r_initial_offset r
    \<and> r_initial_offset r' \<le> r_last_record_offset r' \<and> r_reports r' = r_reports r \<and> r_reporter r' = r_reporter r"
  using assms
proof (induction p ds arbitrary: r rule: log_image.induct)
  case (1 p)
  then show ?case by (intro exI [of _ r]) (simp add: option.map_ident apfst_def map_prod_def)
next
  case (2 p d ds)
  let ?k = "length (record_image p True d)"
  have at: "reader_at remaining r (record_image p True d @ (log_image (p + ?k) ds @ mor)) p" using "2.prems"(1) by simp
  obtain s r1 where r1: "ReadRecord Read Skip r [] [] = Some (True, d, s, r1)"
    "reader_at remaining r1 (log_image (p + ?k) ds @ mor) (p + ?k)" "r_reports r1 = r_reports r"
    "r_initial_offset r1 = r_initial_offset r" "LastRecordOffset r1 = of_nat (p + trailer p)"
    using ReadRecord_record [OF at "2.prems"(2), of "[]" "[]"] by blast
  have rep: "r_reporter r1 = r_reporter r" using ReadRecord_grows [OF r1(1)] by (simp add: reports_grow_def)
  have "r_initial_offset r1 \<le> r_last_record_offset r1"
    using reader_at_offset [OF at] r1(4,5) by (simp add: LastRecordOffset_def)
  from "2.IH" [OF r1(2) this] obtain r2 where r2:
    "read_log Read Skip r1 = map_option (apfst (append (zip ds (map of_nat (log_offsets (p + ?k) ds))))) (read_log Read Skip r2)"
    "reader_at remaining r2 mor (p + ?k + length (log_image (p + ?k) ds))" "r_initial_offset r2 = r_initial_offset r1"
    "r_initial_offset r2 \<le> r_last_record_offset r2" "r_reports r2 = r_reports r1" "r_reporter r2 = r_reporter r1"
    by blast
  have app: "read_log Read Skip r = map_option (apfst (append (zip (d # ds) (map of_nat (log_offsets p (d # ds)))))) (read_log Read Skip r2)"
    using r1(1,5) r2(1) by (subst read_log.simps) (cases "read_log Read Skip r2"; auto)
  then show ?case using r1(3,4) r2(2-6) rep by (intro exI [of _ r2] conjI app) (simp_all add: add.assoc)
qed

lemma read_log_intact_prefix:
  assumes "remaining f = log_image 0 ds @ junk"
  shows "\<exists>recs r. read_log Read Skip (Reader_new f reporting chk 0)
    = Some (zip ds (map of_nat (log_offsets 0 ds)) @ recs, r)"
proof -
  have "reader_at remaining (Reader_new f reporting chk 0) (log_image 0 ds @ junk) 0"
    using reader_at_new [of remaining f reporting chk] assms by simp
  then obtain r where r: "read_log Read Skip (Reader_new f reporting chk 0)
      = map_option (apfst (append (zip ds (map of_nat (log_offsets 0 ds))))) (read_log Read Skip r)" "r_initial_offset r = 0"
    using read_log_append [of "Reader_new f reporting chk 0" 0 ds junk] by (auto simp: Reader_new_def)
  obtain recs r' where "read_log Read Skip r = Some (recs, r')" using read_log_total [of r] r(2) by auto
  with r(1) show ?thesis by simp
qed

text \<open>The loop at the damage, for the bytes of the damaged file.\<close>

lemma loop_at_damage:
  assumes at: "reader_at remaining r (take (P - p) (log_image p ds) @ bad @ rest) p" and P: "damage_at P p ds"
    and bad: "P mod kBlockSize + length bad = kBlockSize" "kHeaderSize \<le> length bad" "unusable_header bad"
    and mode: "r_initial_offset r = 0" "r_reporter r" and l: "\<not> l_in_fragmented_record l"
  shows "\<exists>l' r' xs. ReadRecord_loop Read l r = ReadRecord_loop Read l' r' \<and> \<not> l_in_fragmented_record l'
    \<and> reader_pos remaining r' rest (P + length bad) \<and> r_initial_offset r' = 0
    \<and> r_reports r' = r_reports r @ damage_report bad @ xs"
  using P unfolding damage_at_def
proof (elim disjE conjE exE)
  assume P: "P = p + trailer p" "P \<le> p + length (log_image p ds)"
  have "take (P - p) (log_image p ds) = replicate (trailer p) 0"
    using P log_image_trailer(1) [of ds p] by (cases "ds = []") simp_all
  then have "reader_pos remaining r (replicate (trailer p) 0 @ bad @ rest) p" using at by (simp add: reader_at_def)
  from loop_damaged [OF this _ bad(2,3) mode] show ?thesis using bad(1) P(1) by simp
next
  fix d es
  assume P: "P mod kBlockSize = 0" "ds = d # es" "p + trailer p < P" "P < p + length (record_image p True d)"
  then have at': "reader_at remaining r (take (P - p) (record_image p True d) @ bad @ rest) p" using at by simp
  show ?thesis by (rule loop_interrupted [OF at' P(1,3,4)]) (use l bad P(1) mode in simp_all)
qed

lemma read_log_damaged:
  assumes P: "P \<in> set (log_offsets 0 ds) \<or> P mod kBlockSize = 0 \<and> P \<le> length (log_image 0 ds)"
    and bad: "P mod kBlockSize + length bad = kBlockSize" "kHeaderSize \<le> length bad" "unusable_header bad"
    and f: "remaining f = take P (log_image 0 ds) @ bad @ drop (P + length bad) (log_image 0 ds)"
    and len: "length (log_image 0 ds) < 2 ^ 64"
  shows "\<exists>r reports. read_log Read Skip (Reader_new f True chk 0)
      = Some (map (\<lambda>(d, q, e). (d, of_nat q)) (filter (\<lambda>(d, q, e). e \<le> P \<or> P + length bad \<le> q) (log_extents 0 ds)), r)
    \<and> r_reports r = damage_report bad @ reports"
proof -
  let ?l = "\<lparr>l_in_fragmented_record = False, l_prospective_record_offset = 0, l_fragment = [], l_scratch = [], l_record = []\<rparr>"
  obtain es fs where ds: "ds = es @ fs" and at: "damage_at P (length (log_image 0 es)) fs"
    using damage_point [of P 0 ds] P by auto
  define p where "p = length (log_image 0 es)"
  have pP: "p \<le> P" using damage_at_ge [OF at] by (simp add: p_def)
  have L: "log_image 0 ds = log_image 0 es @ log_image p fs" by (simp add: ds log_image_append p_def)
  let ?rest = "drop (P + length bad - p) (log_image p fs)"
  have fs: "remaining f = log_image 0 es @ (take (P - p) (log_image p fs) @ bad @ ?rest)"
    using pP unfolding f L by (simp add: p_def)
  have "reader_at remaining (Reader_new f True chk 0) (log_image 0 es @ (take (P - p) (log_image p fs) @ bad @ ?rest)) 0"
    using reader_at_new [of remaining f True chk] fs by simp
  then obtain r1 where r1: "read_log Read Skip (Reader_new f True chk 0)
      = map_option (apfst (append (zip es (map of_nat (log_offsets 0 es))))) (read_log Read Skip r1)"
    "reader_at remaining r1 (take (P - p) (log_image p fs) @ bad @ ?rest) p" "r_initial_offset r1 = 0"
    "r_reports r1 = []" "r_reporter r1"
    using read_log_append [of "Reader_new f True chk 0" 0 es] by (auto simp: Reader_new_def p_def)
  obtain l2 r2 xs where r2: "ReadRecord_loop Read ?l r1 = ReadRecord_loop Read l2 r2" "\<not> l_in_fragmented_record l2"
    "reader_pos remaining r2 ?rest (P + length bad)" "r_initial_offset r2 = 0" "r_reports r2 = damage_report bad @ xs"
    using loop_at_damage [OF r1(2) _ bad r1(3,5), of ?l] at r1(4) by (auto simp: p_def)
  have "read_log Read Skip r1 = read_on Read Skip l2 r2"
    using read_log_starts [of r1 r1] r1(3) r2(1) by (simp add: read_on_def)
  moreover have "(P + length bad) mod kBlockSize = 0" using bad(1) by (metis mod_add_left_eq mod_self)
  then obtain r3 where r3: "read_on Read Skip l2 r2 =
      Some (map (apsnd of_nat) (filter (\<lambda>(d, q). P + length bad \<le> q) (zip fs (log_offsets p fs))), r3)"
    using read_on_block [of r2 "P + length bad" p fs l2] r2(2-4) pP len
    by (auto simp: L p_def case_prod_unfold)
  moreover have "\<exists>reports. r_reports r3 = damage_report bad @ reports"
    using read_on_grows [OF r3] r2(5) by (auto simp: reports_grow_def)
  moreover have "filter (\<lambda>(d, q, e). e \<le> P \<or> P + length bad \<le> q) (log_extents 0 es) = log_extents 0 es"
    using log_extents_end [of _ _ _ 0 es] pP by (intro filter_True) (fastforce simp: p_def)
  moreover have "filter (\<lambda>(d, q, e). e \<le> P \<or> P + length bad \<le> q) (log_extents p fs)
      = filter (\<lambda>(d, q, e). P + length bad \<le> q) (log_extents p fs)"
    using damage_at_extents [OF at] by (intro filter_cong) (fastforce simp: p_def)+
  ultimately show ?thesis
    using r1(1) unfolding ds log_extents_append
    by (auto simp: zip_map2 zip_log_offsets filter_map comp_def case_prod_unfold p_def)
qed

end

section \<open>Properties\<close>

context kernel_read
begin

lemmas intact_prefix_read = posix_read.read_log_intact_prefix
lemmas damaged_read = posix_read.read_log_damaged

end

text \<open>C21. Damage does not reach back.  Over a kernel that works, a file that begins with the image of some
  records and goes on with any bytes at all is read to its end; the records come first, complete, in order
  and with their offsets.\<close>

theorem records_before_damage_are_read:
  assumes "kernel_read sys left" and "seqfile_left left f = log_image 0 ds @ junk"
  shows "\<exists>recs r. read_log (\<lambda>f n. PosixSequentialFile_Read sys f n scratch) (PosixSequentialFile_Skip sys)
      (Reader_new f reporting chk 0) = Some (zip ds (map of_nat (log_offsets 0 ds)) @ recs, r)"
  by (rule kernel_read.intact_prefix_read [OF assms])

theorem records_before_damage_are_read_witness:
  "\<exists>recs r. read_log (\<lambda>f n. PosixSequentialFile_Read mem_sys f n []) (PosixSequentialFile_Skip mem_sys)
    (Reader_new \<lparr>sf_fd = 3, sf_filename = str ''LOG'',
       sf_os = \<lparr>mf_data = [0, 0, 0, 0, 2, 0, 1, 1, 2, 77, 78, 79, 80, 81, 82, 83], mf_pos = 0\<rparr>\<rparr> True True 0)
    = Some (([1, 2], 0) # recs, r)"
proof -
  have img: "log_image 0 [[1, 2]] = [0, 0, 0, 0, 2, 0, 1, 1, 2]"
    by (simp add: short_record_image phys_record_def)
  have off: "log_offsets 0 [[1, 2]] = [0]" by (simp add: short_image)
  show ?thesis
    using records_before_damage_are_read [OF memr.kernel_read_axioms, of "\<lparr>sf_fd = 3, sf_filename = str ''LOG'',
       sf_os = \<lparr>mf_data = [0, 0, 0, 0, 2, 0, 1, 1, 2, 77, 78, 79, 80, 81, 82, 83], mf_pos = 0\<rparr>\<rparr>"
      "[[1, 2]]" "[77, 78, 79, 80, 81, 82, 83]" "[]" True True]
    unfolding img off by (simp add: seqfile_left_def)
qed

text \<open>C20. Damage costs the rest of its block.  Take the log of any records and a position \<open>P\<close> where a header
  stands: the first header of a record, or the start of a block.  Overwrite the log from there to the end of
  the block by bytes that begin with a header the reader cannot use: a length that exceeds the block, or type
  and length zero.  Then the reader returns, in order and with their offsets, exactly the records that end
  before \<open>P\<close> and the records that start behind the block.  It reports a bad length first, with the number of
  bytes dropped.\<close>

theorem damage_costs_rest_of_block:
  assumes "kernel_read sys left"
    and "P \<in> set (log_offsets 0 ds) \<or> P mod kBlockSize = 0 \<and> P \<le> length (log_image 0 ds)"
    and "P mod kBlockSize + length bad = kBlockSize" and "kHeaderSize \<le> length bad" and "unusable_header bad"
    and "seqfile_left left f = take P (log_image 0 ds) @ bad @ drop (P + length bad) (log_image 0 ds)"
    and "length (log_image 0 ds) < 2 ^ 64"
  shows "\<exists>r reports. read_log (\<lambda>f n. PosixSequentialFile_Read sys f n scratch) (PosixSequentialFile_Skip sys)
      (Reader_new f True chk 0)
    = Some (map (\<lambda>(d, q, e). (d, of_nat q)) (filter (\<lambda>(d, q, e). e \<le> P \<or> P + length bad \<le> q) (log_extents 0 ds)), r)
    \<and> r_reports r = damage_report bad @ reports"
  by (rule kernel_read.damaged_read [OF assms])

text \<open>The second of three records fills its block; its length is overwritten.\<close>

theorem damage_costs_rest_of_block_witness:
  "\<exists>r reports. read_log (\<lambda>f n. PosixSequentialFile_Read mem_sys f n []) (PosixSequentialFile_Skip mem_sys)
    (Reader_new \<lparr>sf_fd = 3, sf_filename = str ''LOG'',
       sf_os = \<lparr>mf_data = [0, 0, 0, 0, 2, 0, 1, 1, 2] @ ([0, 0, 0, 0, 255, 255, 1] @ replicate 32752 7)
           @ [0, 0, 0, 0, 1, 0, 1, 3], mf_pos = 0\<rparr>\<rparr> True True 0)
    = Some ([([1, 2], 0), ([3], 32768)], r)
    \<and> r_reports r = (32759, Status_Corruption (str ''bad record length'') []) # reports"
proof -
  define big :: bytes where "big = replicate 32752 7"
  have big: "length big = 32752" unfolding big_def by (rule length_replicate)
  let ?bad = "[0, 0, 0, 0, 255, 255, 1] @ big"
  let ?f = "\<lparr>sf_fd = 3, sf_filename = str ''LOG'', sf_os = \<lparr>mf_data = [0, 0, 0, 0, 2, 0, 1, 1, 2] @ ?bad
    @ [0, 0, 0, 0, 1, 0, 1, 3], mf_pos = 0\<rparr>\<rparr> :: memfile seqfile"
  have p0: "trailer 32768 = 0" "room 32768 = 32761" by (simp_all add: trailer_def room_def kBlockSize_def kHeaderSize_def)
  have rec: "record_image 0 True [1, 2] = [0, 0, 0, 0, 2, 0, 1, 1, 2]" "record_image 9 True big = phys_record kFullType big"
    "record_image 32768 True [3] = [0, 0, 0, 0, 1, 0, 1, 3]"
    by (simp_all add: short_record_image big record_image.simps [of 32768] p0 fragment_type_def phys_record_def)
  have lens: "length (record_image 0 True [1, 2]) = 9" "length (record_image 9 True big) = 32759"
    "length (record_image 32768 True [3]) = 8"
    unfolding rec by (simp_all add: big kHeaderSize_def)
  have img: "log_image 0 [[1, 2], big, [3]] = [0, 0, 0, 0, 2, 0, 1, 1, 2] @ phys_record kFullType big @ [0, 0, 0, 0, 1, 0, 1, 3]"
    unfolding rec [symmetric] by (simp add: lens)
  have off: "log_offsets 0 [[1, 2], big, [3]] = [0, 9, 32768]"
    "log_extents 0 [[1, 2], big, [3]] = [([1, 2], 0, 9), (big, 9, 32768), ([3], 32768, 32776)]"
    by (simp_all add: lens short_image p0)
  have len: "header_len ?bad = 65535" by (simp add: header_len_def)
  have "unusable_header ?bad" "damage_report ?bad = [(32759, Status_Corruption (str ''bad record length'') [])]"
    using len by (simp_all add: unusable_header_def damage_report_def big)
  then show ?thesis
    using damage_costs_rest_of_block [OF memr.kernel_read_axioms, of 9 "[[1, 2], big, [3]]" ?bad ?f "[]" True]
    unfolding img off big_def [symmetric] by (simp add: seqfile_left_def big kBlockSize_def kHeaderSize_def)
qed

end
