(* ===== verification/Write_Batch.thy ===== *)
theory Write_Batch
  imports Db_Format Status "HOL-Library.Monad_Syntax"
begin

text \<open>
  Write batches (\<open>write_batch/write_batch.h\<close>, \<open>write_batch/write_batch_internal.h\<close>,
  \<open>write_batch/write_batch.cpp\<close>): a sequence number, a count and a list of updates in one byte
  string, and the iteration that replays the updates on a handler.
\<close>

section \<open>Definitions\<close>

text \<open>\<open>rep_\<close>\<close>

type_synonym WriteBatch = bytes

definition kHeader :: nat where
  "kHeader = 8 + 4"

text \<open>The count is an \<open>int32_t\<close>: the decoded 32 bits, read as a signed number.\<close>

definition WriteBatch_Count :: "WriteBatch \<Rightarrow> int" where
  "WriteBatch_Count b = sint (ucast (DecodeFixed32 (drop 8 b)) :: 32 word)"

definition WriteBatch_SetCount :: "WriteBatch \<Rightarrow> int \<Rightarrow> WriteBatch" where
  "WriteBatch_SetCount b n = write_at 8 (EncodeFixed32 (word_of_int n)) b"

definition WriteBatch_Sequence :: "WriteBatch \<Rightarrow> u64" where
  "WriteBatch_Sequence b = DecodeFixed64 b"

definition WriteBatch_SetSequence :: "WriteBatch \<Rightarrow> u64 \<Rightarrow> WriteBatch" where
  "WriteBatch_SetSequence b seq = write_at 0 (EncodeFixed64 seq) b"

definition WriteBatch_Contents :: "WriteBatch \<Rightarrow> slice" where
  "WriteBatch_Contents b = Slice_string b"

definition WriteBatch_ByteSize :: "WriteBatch \<Rightarrow> nat" where
  "WriteBatch_ByteSize b = length b"

text \<open>\<open>None\<close> is a failed assertion.\<close>

definition WriteBatch_SetContents :: "WriteBatch \<Rightarrow> slice \<Rightarrow> WriteBatch option" where
  "WriteBatch_SetContents b contents =
     (if ssize contents \<ge> kHeader then Some (slice_bytes contents) else None)"

definition WriteBatchInternal_Append :: "WriteBatch \<Rightarrow> WriteBatch \<Rightarrow> WriteBatch option" where
  "WriteBatchInternal_Append dst src =
     (let dst = WriteBatch_SetCount dst (WriteBatch_Count dst + WriteBatch_Count src) in
      if length src \<ge> kHeader then Some (dst @ drop kHeader src) else None)"

text \<open>\<open>resize\<close> fills with NUL characters.\<close>

definition WriteBatch_Clear :: "WriteBatch \<Rightarrow> WriteBatch" where
  "WriteBatch_Clear b = replicate kHeader 0"

definition WriteBatch_new :: WriteBatch where
  "WriteBatch_new = WriteBatch_Clear []"

definition WriteBatch_Put :: "WriteBatch \<Rightarrow> bytes \<Rightarrow> bytes \<Rightarrow> WriteBatch" where
  "WriteBatch_Put b key val =
     (let b = WriteBatch_SetCount b (WriteBatch_Count b + 1);
          b = b @ [ValueType_byte kTypeValue];
          b = PutLengthPrefixedSlice b key in
      PutLengthPrefixedSlice b val)"

definition WriteBatch_Delete :: "WriteBatch \<Rightarrow> bytes \<Rightarrow> WriteBatch" where
  "WriteBatch_Delete b key =
     (let b = WriteBatch_SetCount b (WriteBatch_Count b + 1);
          b = b @ [ValueType_byte kTypeDeletion] in
      PutLengthPrefixedSlice b key)"

definition WriteBatch_ApproximateSize :: "WriteBatch \<Rightarrow> nat" where
  "WriteBatch_ApproximateSize b = length b"

definition WriteBatch_Append :: "WriteBatch \<Rightarrow> WriteBatch \<Rightarrow> WriteBatch option" where
  "WriteBatch_Append b source = WriteBatchInternal_Append b source"

text \<open>
  The virtual functions of \<open>WriteBatch::Handler\<close> on the handler's state; \<open>None\<close> when a call does
  not return normally.
\<close>

record 'h Handler =
  h_Put :: "'h \<Rightarrow> bytes \<Rightarrow> bytes \<Rightarrow> 'h option"
  h_Delete :: "'h \<Rightarrow> bytes \<Rightarrow> 'h option"

text \<open>The loop of \<open>Iterate\<close>: an early return with a status, or the number of updates found.\<close>

function Iterate_loop :: "'h Handler \<Rightarrow> 'h \<Rightarrow> bytes \<Rightarrow> int \<Rightarrow> ((Status + int) \<times> 'h) option" where
  "Iterate_loop H h [] found = Some (Inr found, h)"
| "Iterate_loop H h (tag # input) found =
     (if tag = ValueType_byte kTypeValue then
        (case GetLengthPrefixedSlice input of
           None \<Rightarrow> Some (Inl (Status_Corruption (str ''bad WriteBatch Put'') []), h)
         | Some (key, input1) \<Rightarrow>
             (case GetLengthPrefixedSlice input1 of
                None \<Rightarrow> Some (Inl (Status_Corruption (str ''bad WriteBatch Put'') []), h)
              | Some (val, input2) \<Rightarrow>
                  (case h_Put H h key val of
                     None \<Rightarrow> None
                   | Some h \<Rightarrow> Iterate_loop H h input2 (found + 1))))
      else if tag = ValueType_byte kTypeDeletion then
        (case GetLengthPrefixedSlice input of
           None \<Rightarrow> Some (Inl (Status_Corruption (str ''badWriteBatch Delete'') []), h)
         | Some (key, input1) \<Rightarrow>
             (case h_Delete H h key of
                None \<Rightarrow> None
              | Some h \<Rightarrow> Iterate_loop H h input1 (found + 1)))
      else Some (Inl (Status_Corruption (str ''unknown WriteBatch tag'') []), h))"
  by pat_completeness auto

termination
  by (relation "measure (\<lambda>(H, h, input, found). length input)")
    (auto dest!: GetLengthPrefixedSlice_suffix)

definition WriteBatch_Iterate :: "WriteBatch \<Rightarrow> 'h Handler \<Rightarrow> 'h \<Rightarrow> (Status \<times> 'h) option" where
  "WriteBatch_Iterate b H h =
     (if length b < kHeader then Some (Status_Corruption (str ''malformed WriteBatch (too small)'') [], h)
      else
        (case Iterate_loop H h (drop kHeader b) 0 of
           None \<Rightarrow> None
         | Some (Inl s, h) \<Rightarrow> Some (s, h)
         | Some (Inr found, h) \<Rightarrow>
             if found \<noteq> WriteBatch_Count b
             then Some (Status_Corruption (str ''WriteBatch has wrong count'') [], h)
             else Some (Status_OK, h)))"

declare Iterate_loop.simps [simp del]

section \<open>The updates a batch stands for\<close>

datatype update = Update_Put bytes bytes | Update_Delete bytes

fun update_bytes :: "update \<Rightarrow> bytes" where
  "update_bytes (Update_Put k v) = 1 # PutLengthPrefixedSlice [] k @ PutLengthPrefixedSlice [] v"
| "update_bytes (Update_Delete k) = 0 # PutLengthPrefixedSlice [] k"

fun update_small :: "update \<Rightarrow> bool" where
  "update_small (Update_Put k v) = (length k < 2 ^ 32 \<and> length v < 2 ^ 32)"
| "update_small (Update_Delete k) = (length k < 2 ^ 32)"

definition batch_rep :: "u64 \<Rightarrow> update list \<Rightarrow> WriteBatch" where
  "batch_rep seq us =
     EncodeFixed64 seq @ EncodeFixed32 (of_nat (length us)) @ concat (map update_bytes us)"

fun apply_update :: "'h Handler \<Rightarrow> 'h \<Rightarrow> update \<Rightarrow> 'h option" where
  "apply_update H h (Update_Put k v) = h_Put H h k v"
| "apply_update H h (Update_Delete k) = h_Delete H h k"

fun apply_updates :: "'h Handler \<Rightarrow> 'h \<Rightarrow> update list \<Rightarrow> 'h option" where
  "apply_updates H h [] = Some h"
| "apply_updates H h (u # us) = do { h \<leftarrow> apply_update H h u; apply_updates H h us }"

text \<open>The operation of a batch that records an update.\<close>

fun WriteBatch_add :: "WriteBatch \<Rightarrow> update \<Rightarrow> WriteBatch" where
  "WriteBatch_add b (Update_Put k v) = WriteBatch_Put b k v"
| "WriteBatch_add b (Update_Delete k) = WriteBatch_Delete b k"

section \<open>Building a batch\<close>

lemma length_EncodeFixed [simp]: "length (EncodeFixed32 v) = 4" "length (EncodeFixed64 w) = 8"
  by (simp_all add: EncodeFixed32_def EncodeFixed64_def)

lemma length_batch_rep: "kHeader \<le> length (batch_rep seq us)"
  by (simp add: batch_rep_def kHeader_def)

lemma batch_rep_data: "drop kHeader (batch_rep seq us) = concat (map update_bytes us)"
  by (simp add: batch_rep_def kHeader_def)

lemma Count_batch_rep: "WriteBatch_Count (batch_rep seq us) = sint (of_nat (length us) :: 32 word)"
  by (simp add: WriteBatch_Count_def batch_rep_def)

lemma Count_batch_rep_small: "length us < 2 ^ 31 \<Longrightarrow> WriteBatch_Count (batch_rep seq us) = int (length us)"
  by (simp add: Count_batch_rep signed_of_nat signed_take_bit_int_eq_self)

lemma Sequence_batch_rep: "WriteBatch_Sequence (batch_rep seq us) = seq"
  by (simp add: WriteBatch_Sequence_def batch_rep_def)

lemma SetSequence_batch_rep: "WriteBatch_SetSequence (batch_rep seq us) seq' = batch_rep seq' us"
  by (simp add: WriteBatch_SetSequence_def batch_rep_def write_at_def)

lemma SetCount_batch_rep:
  "WriteBatch_SetCount (batch_rep seq us) (WriteBatch_Count (batch_rep seq us) + int n)
   = EncodeFixed64 seq @ EncodeFixed32 (of_nat (length us + n)) @ concat (map update_bytes us)"
proof -
  have "(word_of_int (sint (of_nat (length us) :: 32 word) + int n) :: 32 word) = of_nat (length us + n)"
    by (simp add: of_int_add [symmetric] del: of_int_add) (simp add: add.commute)
  then show ?thesis
    by (simp add: WriteBatch_SetCount_def Count_batch_rep) (simp add: batch_rep_def write_at_def)
qed

lemma batch_rep_new: "WriteBatch_new = batch_rep 0 []" "WriteBatch_Clear b = batch_rep 0 []"
  by (simp_all add: WriteBatch_new_def WriteBatch_Clear_def batch_rep_def kHeader_def EncodeFixed64_def
      EncodeFixed32_def numeral_eq_Suc)

lemma WriteBatch_add_rep: "WriteBatch_add (batch_rep seq us) u = batch_rep seq (us @ [u])"
proof (cases u)
  case (Update_Put k v)
  then show ?thesis
    using SetCount_batch_rep [of seq us 1]
    by (simp add: WriteBatch_Put_def Let_def PutLengthPrefixedSlice_def PutVarint32_def)
      (simp add: batch_rep_def PutLengthPrefixedSlice_def PutVarint32_def)
next
  case (Update_Delete k)
  then show ?thesis
    using SetCount_batch_rep [of seq us 1]
    by (simp add: WriteBatch_Delete_def Let_def PutLengthPrefixedSlice_def PutVarint32_def)
      (simp add: batch_rep_def PutLengthPrefixedSlice_def PutVarint32_def)
qed

lemma foldl_add_rep: "foldl WriteBatch_add (batch_rep seq vs) us = batch_rep seq (vs @ us)"
  by (induction us arbitrary: vs) (simp_all add: WriteBatch_add_rep)

lemma Append_rep:
  "WriteBatch_Append (batch_rep seq us) (batch_rep seq' vs) = Some (batch_rep seq (us @ vs))"
proof -
  have "(word_of_int (sint (of_nat m :: 32 word) + sint (of_nat n :: 32 word)) :: 32 word) = of_nat (m + n)" for m n
    by (simp add: of_int_add)
  then show ?thesis
    using length_batch_rep [of seq' vs]
    by (simp add: WriteBatch_Append_def WriteBatchInternal_Append_def Let_def batch_rep_data
        WriteBatch_SetCount_def Count_batch_rep)
      (simp add: batch_rep_def write_at_def)
qed

section \<open>Replaying a batch\<close>

lemma Iterate_loop_updates:
  assumes "list_all update_small us"
  shows "Iterate_loop H h (concat (map update_bytes us)) n =
    map_option (\<lambda>h. (Inr (n + int (length us)), h)) (apply_updates H h us)"
  using assms
proof (induction us arbitrary: h n)
  case Nil
  show ?case by (simp add: Iterate_loop.simps)
next
  case (Cons u us)
  then show ?case
    by (cases u)
      (simp_all add: Iterate_loop.simps GetLengthPrefixedSlice_Put Cons add.assoc split: option.split)
qed

lemma Iterate_rep:
  assumes "list_all update_small us" and "length us < 2 ^ 31"
  shows "WriteBatch_Iterate (batch_rep seq us) H h = map_option (Pair Status_OK) (apply_updates H h us)"
  using length_batch_rep [of seq us] Count_batch_rep_small [OF assms(2), of seq]
  by (cases "apply_updates H h us")
    (simp_all add: WriteBatch_Iterate_def batch_rep_data Iterate_loop_updates [OF assms(1)])









section \<open>Properties\<close>

text \<open>A handler that records what it is told.\<close>

definition recorder :: "update list Handler" where
  "recorder = \<lparr>h_Put = (\<lambda>h k v. Some (h @ [Update_Put k v])), h_Delete = (\<lambda>h k. Some (h @ [Update_Delete k]))\<rparr>"

lemma recorder_updates: "apply_updates recorder h us = Some (h @ us)"
proof (induction us arbitrary: h)
  case (Cons u us)
  then show ?case by (cases u) (simp_all add: recorder_def)
qed simp

text \<open>C7. Round trip of a write batch: the batch built by any sequence of fewer than \<open>2 ^ 31\<close> \<open>Put\<close>s
  and \<open>Delete\<close>s with keys and values below 4 GiB, appended to a batch built the same way, replays
  exactly these updates in order on every handler, with status OK.  The count is their number and
  the sequence number is the one that was set.\<close>

theorem batch_replays_updates:
  assumes "list_all update_small us" and "list_all update_small vs" and "length us + length vs < 2 ^ 31"
  shows "\<exists>b. WriteBatch_Append
        (WriteBatch_SetSequence (foldl WriteBatch_add WriteBatch_new us) seq)
        (foldl WriteBatch_add WriteBatch_new vs) = Some b
    \<and> WriteBatch_Iterate b H h = map_option (Pair Status_OK) (apply_updates H h (us @ vs))
    \<and> WriteBatch_Count b = int (length us + length vs) \<and> WriteBatch_Sequence b = seq"
proof -
  have "WriteBatch_Append (WriteBatch_SetSequence (foldl WriteBatch_add WriteBatch_new us) seq)
        (foldl WriteBatch_add WriteBatch_new vs) = Some (batch_rep seq (us @ vs))"
    by (simp add: batch_rep_new foldl_add_rep SetSequence_batch_rep Append_rep)
  then show ?thesis
    using assms Iterate_rep [of "us @ vs" seq H h] Count_batch_rep_small [of "us @ vs" seq]
    by (simp add: Sequence_batch_rep)
qed

theorem batch_replays_updates_witness:
  "\<exists>b. WriteBatch_Append
        (WriteBatch_SetSequence (foldl WriteBatch_add WriteBatch_new [Update_Put [1] [2]]) 7)
        (foldl WriteBatch_add WriteBatch_new [Update_Delete [1]]) = Some b
    \<and> WriteBatch_Iterate b recorder [] = Some (Status_OK, [Update_Put [1] [2], Update_Delete [1]])
    \<and> WriteBatch_Count b = 2 \<and> WriteBatch_Sequence b = 7"
  using batch_replays_updates [of "[Update_Put [1] [2]]" "[Update_Delete [1]]" 7 recorder "[]"]
  by (simp add: recorder_updates del: apply_updates.simps)



end
