(* ===== verification/Rng.thy ===== *)
theory Rng
  imports Prelude
begin

text \<open>
  The pseudo-random generator of the skip list (\<open>algorithm/random.h\<close>): a Lehmer generator modulo
  \<open>2 ^ 31 - 1\<close>.  The state of \<open>Random\<close> is its \<open>seed_\<close>; each draw returns the value and the new seed.
\<close>

section \<open>Definitions\<close>

definition Random_new :: "u32 \<Rightarrow> u32" where
  "Random_new s =
     (let seed = s AND 0x7FFFFFFF in
      if seed = 0 \<or> seed = 0x7FFFFFFF then 1 else seed)"

definition Random_Next :: "u32 \<Rightarrow> u32 \<times> u32" where
  "Random_Next seed =
     (let M = 0x7FFFFFFF :: u32; A = 16807 :: u64;
          product = ucast seed * A;
          seed = ucast (drop_bit 31 product + (product AND ucast M)) :: u32;
          seed = (if seed > M then seed - M else seed) in
      (seed, seed))"

text \<open>\<open>n\<close> is an \<open>int32_t\<close> and is converted to \<open>uint32_t\<close>; a remainder by 0 is \<open>None\<close>.\<close>

definition Random_Uniform :: "u32 \<Rightarrow> u32 \<Rightarrow> (u32 \<times> u32) option" where
  "Random_Uniform n seed =
     (let (v, seed) = Random_Next seed in if n = 0 then None else Some (v mod n, seed))"

definition Random_OneIn :: "u32 \<Rightarrow> u32 \<Rightarrow> (bool \<times> u32) option" where
  "Random_OneIn n seed =
     (let (v, seed) = Random_Next seed in if n = 0 then None else Some (v mod n = 0, seed))"

text \<open>\<open>1 << k\<close> on an \<open>int32_t\<close>, for a shift below 31.\<close>

definition Random_Skewed :: "u32 \<Rightarrow> u32 \<Rightarrow> (u32 \<times> u32) option" where
  "Random_Skewed max_log seed =
     (case Random_Uniform (max_log + 1) seed of
        None \<Rightarrow> None
      | Some (k, seed) \<Rightarrow> Random_Uniform (push_bit (unat k) 1) seed)"

section \<open>The generator\<close>

definition seed_ok :: "u32 \<Rightarrow> bool" where
  "seed_ok s \<longleftrightarrow> 0 < s \<and> s < 0x7FFFFFFF"

lemma and_mask31: "s AND 0x7FFFFFFF = take_bit 31 s"
  for s :: "'a::len word"
proof -
  have "(0x7FFFFFFF :: 'a word) = mask 31" by (simp add: mask_eq_exp_minus_1)
  then show ?thesis by (simp add: take_bit_eq_mask)
qed

lemma Random_new_ok: "seed_ok (Random_new s)"
proof -
  have "unat (s AND 0x7FFFFFFF) < 2 ^ 31"
    using take_bit_nat_less_exp [of 31 "unat s"] by (simp add: and_mask31 unsigned_take_bit_eq)
  then have "s AND 0x7FFFFFFF \<le> 0x7FFFFFFF"
    by (simp add: word_le_nat_alt)
  then show ?thesis
    by (auto simp: Random_new_def Let_def seed_ok_def word_neq_0_conv word_le_less_eq)
qed

text \<open>The folding of the product: modulo \<open>2 ^ 31 - 1\<close> the high part counts like the low part.\<close>

lemma fold_mod:
  "(p div 2 ^ 31 + p mod 2 ^ 31) mod 2147483647 = p mod (2147483647 :: nat)"
proof -
  have "p = 2147483647 * (p div 2 ^ 31) + (p div 2 ^ 31 + p mod 2 ^ 31)"
    using div_mult_mod_eq [of p "2 ^ 31"] by simp
  then show ?thesis by (metis mod_mult_self4 mult.commute)
qed

lemma not_multiple:
  assumes "0 < s" "s < 2147483647"
  shows "s * 16807 mod 2147483647 \<noteq> (0 :: nat)"
proof
  assume "s * 16807 mod 2147483647 = 0"
  then have "2147483647 dvd s * 16807" by blast
  moreover have "coprime (2147483647 :: nat) 16807"
  proof -
    have "coprime (2147483647 :: nat) 7"
      by (simp add: coprime_iff_gcd_eq_1 gcd_red_nat [of 2147483647])
    then have "coprime (2147483647 :: nat) (7 ^ 5)" by (simp only: coprime_power_right_iff) simp
    then show ?thesis by simp
  qed
  ultimately have "2147483647 dvd s" by (simp add: coprime_dvd_mult_left_iff)
  with assms show False by (auto dest: dvd_imp_le)
qed

text \<open>The folded product still exceeds the modulus at most once.\<close>

lemma fold_reduce:
  assumes "0 < s" "s < 2147483647"
  defines "p \<equiv> s * 16807"
  defines "f \<equiv> p div 2 ^ 31 + p mod 2 ^ 31"
  shows "(if f > 2147483647 then f - 2147483647 else f) = p mod (2147483647 :: nat)"
    and "f < 2 ^ 32"
proof -
  have "p < 2147483648 * 16807" using assms(2) by (simp add: p_def)
  then have hi: "p div 2 ^ 31 < 16807" by (simp add: less_mult_imp_div_less)
  moreover have lo: "p mod 2 ^ 31 < 2 ^ 31" by simp
  ultimately have f: "f < 2 * 2147483647" unfolding f_def by simp
  then show "f < 2 ^ 32" by simp
  have m: "f mod 2147483647 = p mod 2147483647" unfolding f_def by (rule fold_mod)
  have "f \<noteq> 2147483647"
    using m not_multiple [OF assms(1,2)] by (auto simp: p_def)
  then consider "f < 2147483647" | "2147483647 < f" by linarith
  then show "(if f > 2147483647 then f - 2147483647 else f) = p mod 2147483647"
  proof cases
    case 2
    then have "f mod 2147483647 = f - 2147483647" using f by (simp add: mod_if)
    with 2 m show ?thesis by simp
  qed (use m in simp)
qed

lemma Random_Next_mod:
  assumes "seed_ok s"
  defines "r \<equiv> fst (Random_Next s)"
  shows "unat r = unat s * 16807 mod 2147483647" and "seed_ok r" and "snd (Random_Next s) = r"
proof -
  have s: "0 < unat s" "unat s < 2147483647"
    using assms(1) by (simp_all add: seed_ok_def word_less_nat_alt)
  define p where "p = unat s * 16807"
  define f where "f = p div 2 ^ 31 + p mod 2 ^ 31"
  define w where "w = (ucast s * 16807 :: u64)"
  have "unat (ucast s :: u64) = unat s"
    using unat_u32_less [of s] by (simp add: unsigned_ucast_eq take_bit_nat_eq_self)
  then have w: "unat w = p" using s by (simp add: w_def p_def unat_word_ariths)
  have mask: "(ucast (0x7FFFFFFF :: u32) :: u64) = 0x7FFFFFFF" by simp
  have "unat (drop_bit 31 w) = p div 2 ^ 31"
    unfolding unat_drop_bit_eq by (simp add: drop_bit_eq_div w)
  moreover have "unat (w AND ucast (0x7FFFFFFF :: u32)) = p mod 2 ^ 31"
    unfolding mask and_mask31 unsigned_take_bit_eq w by (simp add: take_bit_eq_mod)
  moreover have small: "f < 2 ^ 32" using fold_reduce(2) [OF s] by (simp add: f_def p_def)
  ultimately have sum: "unat (drop_bit 31 w + (w AND ucast (0x7FFFFFFF :: u32))) = f"
    by (simp add: unat_word_ariths f_def)
  have v: "unat (ucast (drop_bit 31 w + (w AND ucast (0x7FFFFFFF :: u32))) :: u32) = f"
    using sum small by (simp add: unsigned_ucast_eq take_bit_nat_eq_self)
  have r: "r = (let v = ucast (drop_bit 31 w + (w AND ucast (0x7FFFFFFF :: u32))) :: u32 in
      if v > 0x7FFFFFFF then v - 0x7FFFFFFF else v)"
    unfolding r_def Random_Next_def Let_def w_def by simp
  then have "unat r = (if f > 2147483647 then f - 2147483647 else f)"
    using v by (auto simp: Let_def word_less_nat_alt unat_sub word_le_nat_alt)
  then show ur: "unat r = unat s * 16807 mod 2147483647"
    using fold_reduce(1) [OF s, folded p_def, folded f_def] by (simp only: p_def)
  show "seed_ok r"
    using ur not_multiple [OF s] by (simp add: seed_ok_def word_less_nat_alt)
  show "snd (Random_Next s) = r" by (simp add: r_def Random_Next_def Let_def)
qed

text \<open>C32. The generator computes \<open>seed * 16807 mod (2 ^ 31 - 1)\<close> without a division: from any seed a
  constructor can produce, \<open>Next\<close> returns that remainder, never 0 or the modulus itself, so that the
  sequence of draws never gets stuck and every later state satisfies the same condition.\<close>

theorem next_is_lehmer:
  assumes "seed_ok s"
  shows "\<exists>r. Random_Next s = (r, r) \<and> unat r = unat s * 16807 mod 2147483647 \<and> seed_ok r
    \<and> seed_ok (Random_new x)"
  using Random_Next_mod [OF assms] Random_new_ok
  by (intro exI [of _ "fst (Random_Next s)"]) (simp add: prod_eq_iff)

theorem next_is_lehmer_witness:
  "\<exists>r. Random_Next 1 = (r, r) \<and> unat r = 16807 \<and> seed_ok r \<and> seed_ok (Random_new 0)"
  using next_is_lehmer [of 1 0] by (auto simp: seed_ok_def)

end
