(* ===== verification/Skip_List.thy ===== *)
theory Skip_List
  imports Rng "HOL-Library.Monad_Syntax" "HOL-Library.Multiset"
begin

text \<open>
  The skip list (\<open>data_structure/skip_list.h\<close>), on an explicit heap of nodes: a \<open>Node *\<close> is an
  index into the list of the nodes allocated so far, the null pointer is \<open>None\<close>, and the head is
  node 0.  Where \<open>NewNode\<close> places a node in memory is the arena's business.

  The result \<open>None\<close> of an operation stands for an assertion that fails, an access outside a node's
  \<open>next_\<close> array, or a loop that does not end.  The operations here are those of one thread; readers beside
  an inserting thread are the subject of \<open>Skip_Concurrent\<close> and \<open>Skip_Readers\<close>.
\<close>

section \<open>Definitions\<close>

definition kMaxHeight :: nat where
  "kMaxHeight = 12"

text \<open>The flexible array \<open>next_\<close> has as many entries as the node is high.\<close>

record 'k Node =
  node_key :: 'k
  node_next :: "nat option list"

record 'k SkipList =
  sl_nodes :: "'k Node list"
  sl_max_height :: nat
  sl_rnd :: u32

definition Node_Next :: "'k SkipList \<Rightarrow> nat \<Rightarrow> nat \<Rightarrow> nat option option" where
  "Node_Next s x n =
     (if n < kMaxHeight \<and> x < length (sl_nodes s) \<and> n < length (node_next (sl_nodes s ! x))
      then Some (node_next (sl_nodes s ! x) ! n) else None)"

definition Node_SetNext :: "'k SkipList \<Rightarrow> nat \<Rightarrow> nat \<Rightarrow> nat option \<Rightarrow> 'k SkipList option" where
  "Node_SetNext s x n y =
     (if n < kMaxHeight \<and> x < length (sl_nodes s) \<and> n < length (node_next (sl_nodes s ! x))
      then Some (s\<lparr>sl_nodes := (sl_nodes s)[x := (sl_nodes s ! x)
                    \<lparr>node_next := (node_next (sl_nodes s ! x))[n := y]\<rparr>]\<rparr>)
      else None)"

abbreviation key_of :: "'k SkipList \<Rightarrow> nat \<Rightarrow> 'k" where
  "key_of s x \<equiv> node_key (sl_nodes s ! x)"

definition GetMaxHeight :: "'k SkipList \<Rightarrow> nat" where
  "GetMaxHeight s = sl_max_height s"

text \<open>The pointers of a new node are not initialised; the callers set all of them.\<close>

definition NewNode :: "'k SkipList \<Rightarrow> 'k \<Rightarrow> nat \<Rightarrow> nat \<times> 'k SkipList" where
  "NewNode s key height =
     (length (sl_nodes s),
      s\<lparr>sl_nodes := sl_nodes s @ [\<lparr>node_key = key, node_next = replicate height None\<rparr>]\<rparr>)"

text \<open>The loop of \<open>RandomHeight\<close> with \<open>kBranching\<close> 4.\<close>

function RandomHeight_loop :: "nat \<Rightarrow> u32 \<Rightarrow> (nat \<times> u32) option" where
  "RandomHeight_loop height rnd =
     (if height < kMaxHeight then
        (case Random_OneIn 4 rnd of
           None \<Rightarrow> None
         | Some (one, rnd) \<Rightarrow> if one then RandomHeight_loop (height + 1) rnd else Some (height, rnd))
      else Some (height, rnd))"
  by pat_completeness auto

termination
  by (relation "measure (\<lambda>(height, rnd). kMaxHeight - height)") auto

definition RandomHeight :: "'k SkipList \<Rightarrow> (nat \<times> 'k SkipList) option" where
  "RandomHeight s =
     do {
       (height, rnd) \<leftarrow> RandomHeight_loop 1 (sl_rnd s);
       if height > 0 \<and> height \<le> kMaxHeight then Some (height, s\<lparr>sl_rnd := rnd\<rparr>) else None
     }"

definition SkipList_Equal :: "('k \<Rightarrow> 'k \<Rightarrow> int) \<Rightarrow> 'k \<Rightarrow> 'k \<Rightarrow> bool" where
  "SkipList_Equal compare a b \<longleftrightarrow> compare a b = 0"

definition KeyIsAfterNode :: "('k \<Rightarrow> 'k \<Rightarrow> int) \<Rightarrow> 'k SkipList \<Rightarrow> 'k \<Rightarrow> nat option \<Rightarrow> bool" where
  "KeyIsAfterNode compare s key n = (case n of None \<Rightarrow> False | Some n \<Rightarrow> compare (key_of s n) key < 0)"

text \<open>\<open>prev\<close> is \<open>None\<close> for a null pointer, or the array with its entries set so far.\<close>

partial_function (option) FindGreaterOrEqual_loop ::
  "('k \<Rightarrow> 'k \<Rightarrow> int) \<Rightarrow> 'k SkipList \<Rightarrow> 'k \<Rightarrow> nat \<Rightarrow> nat \<Rightarrow> nat option list option \<Rightarrow>
   (nat option \<times> nat option list option) option" where
  "FindGreaterOrEqual_loop compare s key x level prev =
     do {
       nxt \<leftarrow> Node_Next s x level;
       if nxt \<noteq> None \<and> compare (key_of s (the nxt)) key < 0
       then FindGreaterOrEqual_loop compare s key (the nxt) level prev
       else
         let prev = map_option (\<lambda>a. a[level := Some x]) prev in
         if level = 0 then Some (nxt, prev)
         else FindGreaterOrEqual_loop compare s key x (level - 1) prev
     }"

definition FindGreaterOrEqual ::
  "('k \<Rightarrow> 'k \<Rightarrow> int) \<Rightarrow> 'k SkipList \<Rightarrow> 'k \<Rightarrow> nat option list option \<Rightarrow>
   (nat option \<times> nat option list option) option" where
  "FindGreaterOrEqual compare s key prev =
     FindGreaterOrEqual_loop compare s key 0 (GetMaxHeight s - 1) prev"

partial_function (option) FindLessThan_loop ::
  "('k \<Rightarrow> 'k \<Rightarrow> int) \<Rightarrow> 'k SkipList \<Rightarrow> 'k \<Rightarrow> nat \<Rightarrow> nat \<Rightarrow> nat option" where
  "FindLessThan_loop compare s key x level =
     (if \<not> (x = 0 \<or> compare (key_of s x) key < 0) then None
      else
        do {
          nxt \<leftarrow> Node_Next s x level;
          if nxt = None \<or> compare (key_of s (the nxt)) key \<ge> 0
          then (if level = 0 then Some x else FindLessThan_loop compare s key x (level - 1))
          else FindLessThan_loop compare s key (the nxt) level
        })"

definition FindLessThan :: "('k \<Rightarrow> 'k \<Rightarrow> int) \<Rightarrow> 'k SkipList \<Rightarrow> 'k \<Rightarrow> nat option" where
  "FindLessThan compare s key = FindLessThan_loop compare s key 0 (GetMaxHeight s - 1)"

partial_function (option) FindLast_loop :: "'k SkipList \<Rightarrow> nat \<Rightarrow> nat \<Rightarrow> nat option" where
  "FindLast_loop s x level =
     do {
       nxt \<leftarrow> Node_Next s x level;
       (case nxt of
          None \<Rightarrow> if level = 0 then Some x else FindLast_loop s x (level - 1)
        | Some n \<Rightarrow> FindLast_loop s n level)
     }"

definition FindLast :: "'k SkipList \<Rightarrow> nat option" where
  "FindLast s = FindLast_loop s 0 (GetMaxHeight s - 1)"

text \<open>The constructor: the head has the key \<open>zero\<close> (0 in the code) and every pointer null.\<close>

definition SkipList_new :: "'k \<Rightarrow> 'k SkipList" where
  "SkipList_new zero =
     \<lparr>sl_nodes = [\<lparr>node_key = zero, node_next = replicate kMaxHeight None\<rparr>], sl_max_height = 1,
      sl_rnd = Random_new 0xDEADBEEF\<rparr>"

text \<open>The loop of \<open>Insert\<close> that splices the node \<open>x\<close> in, from level \<open>i\<close> up.\<close>

function Insert_link :: "'k SkipList \<Rightarrow> nat option list \<Rightarrow> nat \<Rightarrow> nat \<Rightarrow> nat \<Rightarrow> 'k SkipList option" where
  "Insert_link s prev x height i =
     (if i < height then
        do {
          p \<leftarrow> prev ! i;
          nxt \<leftarrow> Node_Next s p i;
          s \<leftarrow> Node_SetNext s x i nxt;
          s \<leftarrow> Node_SetNext s p i (Some x);
          Insert_link s prev x height (i + 1)
        }
      else Some s)"
  by pat_completeness auto

termination
  by (relation "measure (\<lambda>(s, prev, x, height, i). height - i)") auto

text \<open>\<open>prev[i] = head_\<close> for the new levels.\<close>

definition raise_prev :: "nat option list \<Rightarrow> nat \<Rightarrow> nat \<Rightarrow> nat option list" where
  "raise_prev prev lo hi = foldl (\<lambda>a i. a[i := Some 0]) prev [lo..<hi]"

definition SkipList_Insert :: "('k \<Rightarrow> 'k \<Rightarrow> int) \<Rightarrow> 'k SkipList \<Rightarrow> 'k \<Rightarrow> 'k SkipList option" where
  "SkipList_Insert compare s key =
     do {
       (x, prev) \<leftarrow> FindGreaterOrEqual compare s key (Some (replicate kMaxHeight None));
       if \<not> (x = None \<or> \<not> SkipList_Equal compare key (key_of s (the x))) then None
       else
         do {
           (height, s) \<leftarrow> RandomHeight s;
           let (prev, s) =
             (if height > GetMaxHeight s
              then (raise_prev (the prev) (GetMaxHeight s) height, s\<lparr>sl_max_height := height\<rparr>)
              else (the prev, s));
               (x, s) = NewNode s key height in
           Insert_link s prev x height 0
         }
     }"

definition SkipList_Contains :: "('k \<Rightarrow> 'k \<Rightarrow> int) \<Rightarrow> 'k SkipList \<Rightarrow> 'k \<Rightarrow> bool option" where
  "SkipList_Contains compare s key =
     do {
       (x, _) \<leftarrow> FindGreaterOrEqual compare s key None;
       Some (x \<noteq> None \<and> SkipList_Equal compare key (key_of s (the x)))
     }"

text \<open>\<open>SkipList::Iterator\<close>: the state is \<open>node_\<close>.\<close>

definition Iterator_new :: "nat option" where
  "Iterator_new = None"

definition Iterator_Valid :: "nat option \<Rightarrow> bool" where
  "Iterator_Valid it \<longleftrightarrow> it \<noteq> None"

definition Iterator_key :: "'k SkipList \<Rightarrow> nat option \<Rightarrow> 'k option" where
  "Iterator_key s it = (if Iterator_Valid it then Some (key_of s (the it)) else None)"

definition Iterator_Next :: "'k SkipList \<Rightarrow> nat option \<Rightarrow> nat option option" where
  "Iterator_Next s it = (if Iterator_Valid it then Node_Next s (the it) 0 else None)"

definition Iterator_Prev :: "('k \<Rightarrow> 'k \<Rightarrow> int) \<Rightarrow> 'k SkipList \<Rightarrow> nat option \<Rightarrow> nat option option" where
  "Iterator_Prev compare s it =
     (if Iterator_Valid it then
        do { x \<leftarrow> FindLessThan compare s (key_of s (the it)); Some (if x = 0 then None else Some x) }
      else None)"

definition Iterator_Seek :: "('k \<Rightarrow> 'k \<Rightarrow> int) \<Rightarrow> 'k SkipList \<Rightarrow> 'k \<Rightarrow> nat option option" where
  "Iterator_Seek compare s target = do { (x, _) \<leftarrow> FindGreaterOrEqual compare s target None; Some x }"

definition Iterator_SeekToFirst :: "'k SkipList \<Rightarrow> nat option option" where
  "Iterator_SeekToFirst s = Node_Next s 0 0"

definition Iterator_SeekToLast :: "'k SkipList \<Rightarrow> nat option option" where
  "Iterator_SeekToLast s = do { x \<leftarrow> FindLast s; Some (if x = 0 then None else Some x) }"

declare RandomHeight_loop.simps [simp del]
declare FindGreaterOrEqual_loop.simps [code]
declare FindLessThan_loop.simps [code]
declare FindLast_loop.simps [code]
declare Insert_link.simps [simp del]

section \<open>Random heights\<close>

lemma RandomHeight_loop_total:
  "height \<le> kMaxHeight \<Longrightarrow> \<exists>h rnd'. RandomHeight_loop height rnd = Some (h, rnd') \<and> height \<le> h \<and> h \<le> kMaxHeight"
proof (induction height rnd rule: RandomHeight_loop.induct)
  case (1 height rnd)
  obtain one rnd' where one: "Random_OneIn 4 rnd = Some (one, rnd')"
    by (cases "Random_Next rnd") (simp add: Random_OneIn_def)
  with 1 show ?case
    by (subst RandomHeight_loop.simps) (fastforce simp: Suc_le_eq intro: less_imp_le)
qed

lemma RandomHeight_total:
  "\<exists>h rnd'. RandomHeight s = Some (h, s\<lparr>sl_rnd := rnd'\<rparr>) \<and> 0 < h \<and> h \<le> kMaxHeight"
  using RandomHeight_loop_total [of 1 "sl_rnd s"] by (auto simp: RandomHeight_def kMaxHeight_def)

section \<open>The invariant\<close>

text \<open>A chain of pointers from \<open>x\<close> through the nodes \<open>ys\<close> to the null pointer.\<close>

fun chain :: "(nat \<Rightarrow> nat option) \<Rightarrow> nat \<Rightarrow> nat list \<Rightarrow> bool" where
  "chain f x [] \<longleftrightarrow> f x = None"
| "chain f x (y # ys) \<longleftrightarrow> f x = Some y \<and> chain f y ys"

definition height :: "'k SkipList \<Rightarrow> nat \<Rightarrow> nat" where
  "height s x = length (node_next (sl_nodes s ! x))"

definition succ_at :: "'k SkipList \<Rightarrow> nat \<Rightarrow> nat \<Rightarrow> nat option" where
  "succ_at s i x = node_next (sl_nodes s ! x) ! i"

text \<open>The nodes of \<open>L\<close> that reach level \<open>i\<close>.\<close>

definition level_list :: "'k SkipList \<Rightarrow> nat list \<Rightarrow> nat \<Rightarrow> nat list" where
  "level_list s L i = filter (\<lambda>x. i < height s x) L"

text \<open>
  \<open>L\<close> lists the nodes other than the head in the order of the bottom level: sorted by key, each with
  a height of at most the current maximum; on every level the pointers chain the nodes that reach it.
\<close>

definition sl_inv :: "('k \<Rightarrow> 'k \<Rightarrow> int) \<Rightarrow> 'k SkipList \<Rightarrow> nat list \<Rightarrow> bool" where
  "sl_inv compare s L \<longleftrightarrow>
     sl_nodes s \<noteq> [] \<and> distinct L \<and> set L = {0<..<length (sl_nodes s)}
     \<and> height s 0 = kMaxHeight
     \<and> (\<forall>x \<in> set L. 0 < height s x \<and> height s x \<le> sl_max_height s)
     \<and> 0 < sl_max_height s \<and> sl_max_height s \<le> kMaxHeight
     \<and> (\<forall>i < kMaxHeight. chain (succ_at s i) 0 (level_list s L i))
     \<and> sorted_wrt (\<lambda>x y. \<not> compare (key_of s y) (key_of s x) < 0) L"

lemma level_list_0: "sl_inv compare s L \<Longrightarrow> level_list s L 0 = L"
  by (simp add: sl_inv_def level_list_def filter_id_conv)

lemma sl_inv_last_height: "sl_inv compare s L \<Longrightarrow> height s (length (sl_nodes s) - 1) \<le> kMaxHeight"
proof -
  assume inv: "sl_inv compare s L"
  then have "length (sl_nodes s) - 1 = 0 \<or> length (sl_nodes s) - 1 \<in> set L" by (auto simp: sl_inv_def)
  with inv show ?thesis unfolding sl_inv_def by (metis le_trans order_refl)
qed

lemma chain_append: "chain f x (ys @ z # zs) \<Longrightarrow> chain f z zs"
  by (induction ys arbitrary: x) auto

lemma chain_mid: "chain f x ws \<Longrightarrow> x # ws = ys @ z # zs \<Longrightarrow> chain f z zs"
  by (cases ys) (auto intro: chain_append)

lemma chain_cong: "(\<And>y. y \<in> set (x # ys) \<Longrightarrow> f y = g y) \<Longrightarrow> chain f x ys = chain g x ys"
  by (induction ys arbitrary: x) simp_all

text \<open>Splicing a new node \<open>n\<close> in behind the last of \<open>x # ys\<close>.\<close>

lemma chain_insert:
  assumes "chain f x (ys @ zs)" and "distinct (x # ys @ zs)" and "n \<notin> set (x # ys @ zs)"
  shows "chain (f(n := f (last (x # ys)), last (x # ys) := Some n)) x (ys @ n # zs)"
  using assms
proof (induction ys arbitrary: x)
  case Nil
  define g where "g = f(n := f x, x := Some n)"
  have g: "g x = Some n" "g n = f x" "\<And>y. y \<noteq> n \<Longrightarrow> y \<noteq> x \<Longrightarrow> g y = f y"
    using Nil by (simp_all add: g_def)
  have "chain g n zs"
  proof (cases zs)
    case (Cons z zs')
    have "chain f z zs'" using Nil Cons by simp
    moreover have "chain g z zs' = chain f z zs'"
    proof (rule chain_cong)
      fix y assume "y \<in> set (z # zs')"
      with Nil Cons have "y \<noteq> n" "y \<noteq> x" by auto
      then show "g y = f y" by (rule g(3))
    qed
    ultimately show ?thesis using Nil Cons g by simp
  qed (use Nil g in simp)
  then show ?case using g(1) by (simp add: g_def fun_upd_def)
next
  case (Cons y ys)
  define l where "l = last (y # ys)"
  define g where "g = f(n := f l, l := Some n)"
  have "l \<noteq> x" "x \<noteq> n" using Cons.prems(2,3) last_in_set [of "y # ys"] by (auto simp: l_def)
  then have "g x = Some y" using Cons.prems(1) by (simp add: g_def)
  moreover have "chain g y (ys @ n # zs)"
    unfolding g_def l_def using Cons.prems by (intro Cons.IH) simp_all
  moreover have "last (x # y # ys) = l" by (simp add: l_def)
  ultimately show ?case by (simp only: append_Cons chain.simps g_def simp_thms)
qed

lemma Node_Next_level:
  assumes inv: "sl_inv compare s L" and "i < kMaxHeight" and "x \<in> set (0 # level_list s L i)"
  shows "Node_Next s x i = Some (succ_at s i x)"
proof -
  have "x < length (sl_nodes s)" "i < height s x"
    using assms by (auto simp: sl_inv_def level_list_def)
  then show ?thesis using assms(2) by (simp add: Node_Next_def succ_at_def height_def)
qed

section \<open>Descending through the levels\<close>

text \<open>
  The three searches of the code have one shape: go right while the next node satisfies \<open>P\<close>, go down
  otherwise.  For a \<open>P\<close> that holds on an initial part of the list they end, on each level, at the
  last node with \<open>P\<close>.
\<close>

definition pred_at :: "'k SkipList \<Rightarrow> nat list \<Rightarrow> (nat \<Rightarrow> bool) \<Rightarrow> nat \<Rightarrow> nat" where
  "pred_at s L P i = last (0 # takeWhile P (level_list s L i))"

definition initial :: "(nat \<Rightarrow> bool) \<Rightarrow> nat list \<Rightarrow> bool" where
  "initial P L \<longleftrightarrow> sorted_wrt (\<lambda>x y. P y \<longrightarrow> P x) L"

lemma initial_filter: "initial P L \<Longrightarrow> initial P (filter Q L)"
  by (simp add: initial_def sorted_wrt_filter)

lemma takeWhile_initial: "initial P (ys @ x # zs) \<Longrightarrow> P x \<Longrightarrow>
    takeWhile P (ys @ x # zs) = ys @ x # takeWhile P zs"
  by (induction ys) (auto simp: initial_def)

lemma pred_at_in: "pred_at s L P i \<in> set (0 # level_list s L i)" "pred_at s L P i = 0 \<or> P (pred_at s L P i)"
proof -
  have "takeWhile P (level_list s L i) \<noteq> [] \<Longrightarrow> pred_at s L P i \<in> set (takeWhile P (level_list s L i))"
    by (simp add: pred_at_def)
  moreover have "takeWhile P (level_list s L i) = [] \<Longrightarrow> pred_at s L P i = 0"
    by (simp add: pred_at_def)
  ultimately show "pred_at s L P i \<in> set (0 # level_list s L i)" "pred_at s L P i = 0 \<or> P (pred_at s L P i)"
    using set_takeWhileD [of "pred_at s L P i" P "level_list s L i"] by auto
qed

lemma zero_notin: "sl_inv compare s L \<Longrightarrow> 0 \<notin> set L"
  by (simp add: sl_inv_def)

lemma pred_at_split:
  assumes "sl_inv compare s L" and "initial P L" and "0 # level_list s L i = ys @ x # zs" and "x = 0 \<or> P x"
  shows "last (x # takeWhile P zs) = pred_at s L P i"
proof (cases ys)
  case Nil
  with assms(3) show ?thesis by (simp add: pred_at_def)
next
  case (Cons y ys')
  with assms(3) have ll: "level_list s L i = ys' @ x # zs" by simp
  then have "x \<in> set (level_list s L i)" by simp
  then have "x \<in> set L" by (simp add: level_list_def)
  then have "x \<noteq> 0" using zero_notin [OF assms(1)] by metis
  with assms(4) have "P x" by simp
  moreover have "initial P (ys' @ x # zs)"
    using initial_filter [OF assms(2)] ll by (metis level_list_def)
  ultimately show ?thesis by (simp add: pred_at_def ll takeWhile_initial)
qed

lemma chain_level:
  "sl_inv compare s L \<Longrightarrow> i < kMaxHeight \<Longrightarrow> 0 # level_list s L i = ys @ x # zs \<Longrightarrow> chain (succ_at s i) x zs"
  unfolding sl_inv_def by (blast intro: chain_mid)

lemma level_step:
  assumes inv: "sl_inv compare s L" and i: "i < kMaxHeight"
    and step: "\<And>x. x \<in> set (0 # level_list s L i) \<Longrightarrow> x = 0 \<or> P x \<Longrightarrow>
      F x = (case succ_at s i x of Some n \<Rightarrow> if P n then F n else D x | None \<Rightarrow> D x)"
    and "0 # level_list s L i = ys @ x # zs" and "x = 0 \<or> P x"
  shows "F x = D (last (x # takeWhile P zs))"
  using assms(4,5)
proof (induction zs arbitrary: ys x)
  case Nil
  then show ?case
    using step [of x] chain_level [OF inv i Nil.prems(1)] by simp
next
  case (Cons z zs)
  have nxt: "succ_at s i x = Some z" using chain_level [OF inv i Cons.prems(1)] by simp
  have x: "x \<in> set (0 # level_list s L i)" using Cons.prems(1) by simp
  show ?case
  proof (cases "P z")
    case True
    with Cons.IH [of "ys @ [x]" z] Cons.prems(1) step [OF x Cons.prems(2)] nxt show ?thesis by simp
  next
    case False
    with step [OF x Cons.prems(2)] nxt show ?thesis by simp
  qed
qed

lemma descent:
  assumes inv: "sl_inv compare s L" and "initial P L"
    and step: "\<And>x i st. i < kMaxHeight \<Longrightarrow> x \<in> set (0 # level_list s L i) \<Longrightarrow> x = 0 \<or> P x \<Longrightarrow>
      F x i st = (case succ_at s i x of Some n \<Rightarrow> if P n then F n i st else D x i st | None \<Rightarrow> D x i st)"
    and down: "\<And>x i st. D x (Suc i) st = F x i (upd (Suc i) x st)"
    and "i < kMaxHeight" and "x \<in> set (0 # level_list s L i)" and "x = 0 \<or> P x"
  shows "F x i st = D (pred_at s L P 0) 0 (foldr (\<lambda>j. upd j (pred_at s L P j)) [1..<Suc i] st)"
  using assms(5-7)
proof (induction i arbitrary: x st)
  case 0
  from 0(2) obtain ys zs where ll: "0 # level_list s L 0 = ys @ x # zs"
    using split_list by metis
  have "F x 0 st = D (last (x # takeWhile P zs)) 0 st"
    by (rule level_step [where P = P and F = "\<lambda>x. F x 0 st" and D = "\<lambda>x. D x 0 st", OF inv 0(1) _ ll 0(3)])
      (rule step [OF 0(1)])
  then show ?case
    using pred_at_split [OF inv assms(2) ll 0(3)] by simp
next
  case (Suc i)
  from Suc.prems(2) obtain ys zs where ll: "0 # level_list s L (Suc i) = ys @ x # zs"
    using split_list by metis
  have "F x (Suc i) st = D (last (x # takeWhile P zs)) (Suc i) st"
    by (rule level_step [where P = P and F = "\<lambda>x. F x (Suc i) st" and D = "\<lambda>x. D x (Suc i) st",
          OF inv Suc.prems(1) _ ll Suc.prems(3)])
      (rule step [OF Suc.prems(1)])
  also have "\<dots> = D (pred_at s L P (Suc i)) (Suc i) st"
    by (simp only: pred_at_split [OF inv assms(2) ll Suc.prems(3)])
  also have "\<dots> = F (pred_at s L P (Suc i)) i (upd (Suc i) (pred_at s L P (Suc i)) st)" by (rule down)
  also have "\<dots> = D (pred_at s L P 0) 0 (foldr (\<lambda>j. upd j (pred_at s L P j)) [1..<Suc i]
      (upd (Suc i) (pred_at s L P (Suc i)) st))"
    using Suc.prems(1) pred_at_in [of s L P "Suc i"]
    by (intro Suc.IH) (auto simp: level_list_def)
  finally show ?case by simp
qed

section \<open>The searches\<close>

definition first_opt :: "'a list \<Rightarrow> 'a option" where
  "first_opt xs = (case xs of [] \<Rightarrow> None | x # _ \<Rightarrow> Some x)"

lemma first_opt_simps [simp]: "first_opt [] = None" "first_opt (x # xs) = Some x"
  by (simp_all add: first_opt_def)

lemma chain_first: "chain f x ys \<Longrightarrow> f x = first_opt ys"
  by (cases ys) simp_all

lemma succ_pred:
  assumes "sl_inv compare s L" and "i < kMaxHeight"
  shows "succ_at s i (pred_at s L P i) = first_opt (dropWhile P (level_list s L i))"
proof -
  have "0 # level_list s L i = butlast (0 # takeWhile P (level_list s L i)) @ pred_at s L P i
      # dropWhile P (level_list s L i)"
    unfolding pred_at_def by (metis append_butlast_last_id append_Cons append_assoc append_Nil list.distinct(1)
        takeWhile_dropWhile_id)
  from chain_first [OF chain_level [OF assms this]] show ?thesis .
qed

lemma succ_in_list:
  assumes "sl_inv compare s L" and "i < kMaxHeight" and "x \<in> set (0 # level_list s L i)" and "succ_at s i x = Some n"
  shows "n \<in> set (level_list s L i)"
proof -
  from assms(3) obtain ys zs where ll: "0 # level_list s L i = ys @ x # zs" using split_list by metis
  from chain_level [OF assms(1,2) ll] assms(4) obtain zs' where "zs = n # zs'"
    by (cases zs) simp_all
  then have "n \<in> set (tl (0 # level_list s L i))" unfolding ll by (cases ys) simp_all
  then show ?thesis by simp
qed

text \<open>The array \<open>prev\<close> after a descent from level \<open>i\<close>.\<close>

lemma foldr_update:
  fixes g :: "nat \<Rightarrow> 'a" and a :: "'a list"
  assumes "i < length a"
  defines "b \<equiv> (foldr (\<lambda>j a. a[j := g j]) [1..<Suc i] a)[0 := g 0]"
  shows "length b = length a" and "j < length a \<Longrightarrow> b ! j = (if j \<le> i then g j else a ! j)"
proof -
  have len: "length (foldr (\<lambda>j a. a[j := g j]) [1..<Suc k] a) = length a" for k a
    by (induction k arbitrary: a) simp_all
  have "\<lbrakk>k < length a; j < length a\<rbrakk> \<Longrightarrow> foldr (\<lambda>j a. a[j := g j]) [1..<Suc k] a ! j =
      (if 1 \<le> j \<and> j \<le> k then g j else a ! j)" for k a
    by (induction k arbitrary: a) (auto simp: nth_list_update)
  then show "j < length a \<Longrightarrow> b ! j = (if j \<le> i then g j else a ! j)"
    using assms(1) len by (cases j) (simp_all add: b_def nth_list_update)
  show "length b = length a" unfolding b_def length_list_update len ..
qed

lemma foldr_map_option:
  "foldr (\<lambda>j. map_option (\<lambda>a. a[j := g j])) js (Some a) = Some (foldr (\<lambda>j a. a[j := g j]) js a)"
  "foldr (\<lambda>j. map_option (\<lambda>a. a[j := g j])) js None = None"
  by (induction js) simp_all

text \<open>
  What a skip list needs of its comparator: the negative results are a strict weak order.
\<close>

locale skip_order =
  fixes compare :: "'k \<Rightarrow> 'k \<Rightarrow> int"
  assumes less_irrefl: "\<not> compare a a < 0"
    and less_trans: "compare a b < 0 \<Longrightarrow> compare b c < 0 \<Longrightarrow> compare a c < 0"
    and not_less_trans: "\<not> compare a b < 0 \<Longrightarrow> \<not> compare b c < 0 \<Longrightarrow> \<not> compare a c < 0"
begin

lemma initial_below:
  assumes "sl_inv compare s L"
  shows "initial (\<lambda>x. compare (key_of s x) key < 0) L"
proof -
  have "sorted_wrt (\<lambda>x y. \<not> compare (key_of s y) (key_of s x) < 0) L"
    using assms by (simp add: sl_inv_def)
  then show ?thesis
    unfolding initial_def by (rule sorted_wrt_mono_rel [rotated]) (use not_less_trans in blast)
qed

lemma FindGreaterOrEqual_eq:
  fixes key L
  defines "P s \<equiv> \<lambda>x. compare (key_of s x) key < 0"
  assumes inv: "sl_inv compare s L"
  shows "FindGreaterOrEqual compare s key prev = Some (first_opt (dropWhile (P s) L),
    map_option (\<lambda>a. a[0 := Some (pred_at s L (P s) 0)])
     (foldr (\<lambda>j. map_option (\<lambda>a. a[j := Some (pred_at s L (P s) j)])) [1..<sl_max_height s] prev))"
proof -
  let ?F = "\<lambda>x i st. FindGreaterOrEqual_loop compare s key x i st"
  let ?upd = "\<lambda>i x. map_option (\<lambda>a. a[i := Some x])"
  let ?D = "\<lambda>x i st. if i = 0 then Some (succ_at s 0 x, ?upd i x st) else ?F x (i - 1) (?upd i x st)"
  have h: "0 < sl_max_height s" "sl_max_height s - 1 < kMaxHeight" "Suc (sl_max_height s - 1) = sl_max_height s"
    using inv by (auto simp: sl_inv_def)
  have "?F 0 (sl_max_height s - 1) prev = ?D (pred_at s L (P s) 0) 0
      (foldr (\<lambda>j. ?upd j (pred_at s L (P s) j)) [1..<Suc (sl_max_height s - 1)] prev)"
  proof (rule descent [OF inv, where P = "P s" and F = ?F and D = ?D and upd = ?upd])
    show "initial (P s) L" unfolding P_def by (rule initial_below [OF inv])
  next
    fix x i st
    assume "i < kMaxHeight" "x \<in> set (0 # level_list s L i)"
    then have "Node_Next s x i = Some (succ_at s i x)" by (rule Node_Next_level [OF inv])
    then show "?F x i st = (case succ_at s i x of Some n \<Rightarrow> if P s n then ?F n i st else ?D x i st | None \<Rightarrow> ?D x i st)"
      by (subst FindGreaterOrEqual_loop.simps) (simp add: Let_def P_def split: option.split)
  qed (use h in auto)
  then show ?thesis
    using succ_pred [OF inv, of 0 "P s"] level_list_0 [OF inv] h(3)
    by (simp add: FindGreaterOrEqual_def GetMaxHeight_def kMaxHeight_def)
qed

lemma FindLessThan_eq:
  assumes inv: "sl_inv compare s L"
  shows "FindLessThan compare s key = Some (last (0 # takeWhile (\<lambda>x. compare (key_of s x) key < 0) L))"
proof -
  let ?P = "\<lambda>x. compare (key_of s x) key < 0"
  let ?F = "\<lambda>x i (st :: unit). FindLessThan_loop compare s key x i"
  let ?D = "\<lambda>x i (st :: unit). if i = 0 then Some x else ?F x (i - 1) ()"
  have h: "0 < sl_max_height s" "sl_max_height s - 1 < kMaxHeight"
    using inv by (auto simp: sl_inv_def)
  have "?F 0 (sl_max_height s - 1) () = ?D (pred_at s L ?P 0) 0
      (foldr (\<lambda>j (st :: unit). ()) [1..<Suc (sl_max_height s - 1)] ())"
  proof (rule descent [OF inv, where P = ?P and F = ?F and D = ?D and upd = "\<lambda>j x st. ()"])
    show "initial ?P L" by (rule initial_below [OF inv])
  next
    fix x i and st :: unit
    assume "i < kMaxHeight" "x \<in> set (0 # level_list s L i)" and P: "x = 0 \<or> ?P x"
    then have "Node_Next s x i = Some (succ_at s i x)" by (intro Node_Next_level [OF inv])
    then show "?F x i st = (case succ_at s i x of Some n \<Rightarrow> if ?P n then ?F n i st else ?D x i st | None \<Rightarrow> ?D x i st)"
      using P by (subst FindLessThan_loop.simps) (auto simp: not_less split: option.split)
  qed (use h in auto)
  then show ?thesis
    using level_list_0 [OF inv] by (simp add: FindLessThan_def GetMaxHeight_def pred_at_def)
qed

end

lemma FindLast_eq:
  assumes inv: "sl_inv compare s L"
  shows "FindLast s = Some (last (0 # L))"
proof -
  let ?F = "\<lambda>x i (st :: unit). FindLast_loop s x i"
  let ?D = "\<lambda>x i (st :: unit). if i = 0 then Some x else ?F x (i - 1) ()"
  have h: "0 < sl_max_height s" "sl_max_height s - 1 < kMaxHeight"
    using inv by (auto simp: sl_inv_def)
  have "?F 0 (sl_max_height s - 1) () = ?D (pred_at s L (\<lambda>_. True) 0) 0
      (foldr (\<lambda>j (st :: unit). ()) [1..<Suc (sl_max_height s - 1)] ())"
  proof (rule descent [OF inv, where P = "\<lambda>_. True" and F = ?F and D = ?D and upd = "\<lambda>j x st. ()"])
    show "initial (\<lambda>_. True) L" by (induction L) (simp_all add: initial_def)
  next
    fix x i and st :: unit
    assume "i < kMaxHeight" "x \<in> set (0 # level_list s L i)"
    then have "Node_Next s x i = Some (succ_at s i x)" by (rule Node_Next_level [OF inv])
    then show "?F x i st = (case succ_at s i x of Some n \<Rightarrow> if True then ?F n i st else ?D x i st | None \<Rightarrow> ?D x i st)"
      by (subst FindLast_loop.simps) (auto split: option.split)
  qed (use h in auto)
  moreover have "takeWhile (\<lambda>_. True) L = L" by (simp add: takeWhile_eq_all_conv)
  ultimately show ?thesis
    using level_list_0 [OF inv] by (simp add: FindLast_def GetMaxHeight_def pred_at_def)
qed

section \<open>Splicing a node in\<close>

text \<open>Two heaps that differ in pointers only.\<close>

definition same_shape :: "'k SkipList \<Rightarrow> 'k SkipList \<Rightarrow> bool" where
  "same_shape s s' \<longleftrightarrow> length (sl_nodes s') = length (sl_nodes s) \<and> sl_max_height s' = sl_max_height s
     \<and> (\<forall>x. key_of s' x = key_of s x \<and> height s' x = height s x)"

lemma same_shape_refl: "same_shape s s"
  by (simp add: same_shape_def)

lemma same_shape_trans: "same_shape s1 s2 \<Longrightarrow> same_shape s2 s3 \<Longrightarrow> same_shape s1 s3"
  by (simp add: same_shape_def)

lemma Node_SetNext_Some:
  assumes "i < kMaxHeight" and "x < length (sl_nodes s)" and "i < height s x"
  shows "\<exists>s'. Node_SetNext s x i v = Some s' \<and> same_shape s s'
    \<and> (\<forall>j. succ_at s' j = (if j = i then (succ_at s i)(x := v) else succ_at s j))"
proof -
  let ?nd = "(sl_nodes s ! x)\<lparr>node_next := (node_next (sl_nodes s ! x))[i := v]\<rparr>"
  let ?s' = "s\<lparr>sl_nodes := (sl_nodes s)[x := ?nd]\<rparr>"
  have "Node_SetNext s x i v = Some ?s'" using assms by (simp add: Node_SetNext_def height_def)
  moreover have nth: "(sl_nodes s)[x := ?nd] ! y = (if y = x then ?nd else sl_nodes s ! y)" for y
    using assms(2) by simp
  have "same_shape s ?s'" by (simp add: same_shape_def height_def nth)
  moreover have "succ_at ?s' j = (if j = i then (succ_at s i)(x := v) else succ_at s j)" for j
    using assms(3) by (auto simp: succ_at_def nth height_def fun_eq_iff nth_list_update)
  ultimately show ?thesis by blast
qed

lemma Insert_link_Some:
  assumes "h \<le> kMaxHeight" and "n < length (sl_nodes s)" and "height s n = h" and "h \<le> length prev"
    and "\<And>j. i \<le> j \<Longrightarrow> j < h \<Longrightarrow> prev ! j = Some (q j) \<and> q j < length (sl_nodes s) \<and> q j \<noteq> n \<and> j < height s (q j)"
  shows "\<exists>s'. Insert_link s prev n h i = Some s' \<and> same_shape s s'
    \<and> (\<forall>j. succ_at s' j = (if i \<le> j \<and> j < h then (succ_at s j)(n := succ_at s j (q j), q j := Some n) else succ_at s j))"
  using assms
proof (induction "h - i" arbitrary: s i)
  case 0
  then show ?case by (subst Insert_link.simps) (auto simp: same_shape_refl)
next
  case (Suc d)
  then have i: "i < h" by simp
  have q: "prev ! i = Some (q i)" "q i < length (sl_nodes s)" "q i \<noteq> n" "i < height s (q i)"
    using Suc.prems(5) [of i] i by auto
  have ik: "i < kMaxHeight" using i Suc.prems(1) by simp
  have nxt: "Node_Next s (q i) i = Some (succ_at s i (q i))"
    using q ik by (simp add: Node_Next_def succ_at_def height_def)
  obtain s1 where s1: "Node_SetNext s n i (succ_at s i (q i)) = Some s1" "same_shape s s1"
    "\<forall>j. succ_at s1 j = (if j = i then (succ_at s i)(n := succ_at s i (q i)) else succ_at s j)"
    using Node_SetNext_Some [OF ik Suc.prems(2), of "succ_at s i (q i)"] i Suc.prems(3) by auto
  have "q i < length (sl_nodes s1)" "i < height s1 (q i)" using s1(2) q by (simp_all add: same_shape_def)
  from Node_SetNext_Some [OF ik this, of "Some n"] obtain s2 where
    s2: "Node_SetNext s1 (q i) i (Some n) = Some s2" "same_shape s1 s2"
    "\<forall>j. succ_at s2 j = (if j = i then (succ_at s1 i)(q i := Some n) else succ_at s1 j)"
    by auto
  have sh: "same_shape s s2" using s1(2) s2(2) by (rule same_shape_trans)
  have "\<exists>s'. Insert_link s2 prev n h (i + 1) = Some s' \<and> same_shape s2 s'
    \<and> (\<forall>j. succ_at s' j = (if i + 1 \<le> j \<and> j < h then (succ_at s2 j)(n := succ_at s2 j (q j), q j := Some n) else succ_at s2 j))"
    using Suc.hyps(2) Suc.prems sh by (intro Suc.hyps(1)) (auto simp: same_shape_def)
  then obtain s' where s': "Insert_link s2 prev n h (i + 1) = Some s'" "same_shape s2 s'"
    "\<And>j. succ_at s' j = (if i + 1 \<le> j \<and> j < h then (succ_at s2 j)(n := succ_at s2 j (q j), q j := Some n) else succ_at s2 j)"
    by blast
  have "Insert_link s prev n h i = Some s'"
    using i q(1) nxt s1(1) s2(1) s'(1) by (subst Insert_link.simps) simp
  moreover have "same_shape s s'" using sh s'(2) by (rule same_shape_trans)
  moreover have "succ_at s' j = (if i \<le> j \<and> j < h then (succ_at s j)(n := succ_at s j (q j), q j := Some n) else succ_at s j)" for j
    using s'(3) [of j] s1(3) s2(3) i by (cases "j = i") auto
  ultimately show ?case by blast
qed

lemma raise_prev_nth:
  "length (raise_prev a lo hi) = length a"
  "j < length a \<Longrightarrow> raise_prev a lo hi ! j = (if lo \<le> j \<and> j < hi then Some 0 else a ! j)"
proof -
  have "length (foldl (\<lambda>a i. a[i := Some 0]) a is) = length a" for a :: "nat option list" and "is"
    by (induction "is" arbitrary: a) simp_all
  then show "length (raise_prev a lo hi) = length a" by (simp add: raise_prev_def)
  have "j < length a \<Longrightarrow> foldl (\<lambda>a i. a[i := Some 0]) a is ! j = (if j \<in> set is then Some 0 else a ! j)"
    for a :: "nat option list" and "is"
    by (induction "is" arbitrary: a) (auto simp: nth_list_update)
  then show "j < length a \<Longrightarrow> raise_prev a lo hi ! j = (if lo \<le> j \<and> j < hi then Some 0 else a ! j)"
    by (simp add: raise_prev_def)
qed

section \<open>Insertion\<close>

lemma initial_takeWhile: "initial P L \<Longrightarrow> takeWhile P L = filter P L"
  by (induction L) (auto simp: initial_def filter_empty_conv)

lemma initial_dropWhile: "initial P L \<Longrightarrow> dropWhile P L = filter (\<lambda>x. \<not> P x) L"
  by (induction L) (auto simp: initial_def filter_id_conv [THEN iffD2, symmetric])

lemma level_list_split:
  assumes "initial P L"
  shows "filter Q (takeWhile P L) = takeWhile P (filter Q L)" "filter Q (dropWhile P L) = dropWhile P (filter Q L)"
  using assms initial_filter [OF assms, of Q]
  by (simp_all add: initial_takeWhile initial_dropWhile conj_commute)

text \<open>A node behind the last node of the front part of a chain.\<close>

lemma chain_spliced:
  assumes "chain f a (xs @ ys)" and "distinct (a # xs @ ys)" and "n \<notin> set (a # xs @ ys)"
    and "\<And>y. y \<in> set (a # xs @ ys) \<Longrightarrow> g y = (if y = last (a # xs) then Some n else f y)" and "g n = f (last (a # xs))"
  shows "chain g a (xs @ n # ys)"
proof -
  have "chain (f(n := f (last (a # xs)), last (a # xs) := Some n)) a (xs @ n # ys)"
    by (rule chain_insert [OF assms(1-3)])
  moreover have "chain (f(n := f (last (a # xs)), last (a # xs) := Some n)) a (xs @ n # ys) = chain g a (xs @ n # ys)"
  proof (rule chain_cong)
    fix y
    assume "y \<in> set (a # xs @ n # ys)"
    moreover have "last (a # xs) \<in> set (a # xs)" by (rule last_in_set) simp
    ultimately show "(f(n := f (last (a # xs)), last (a # xs) := Some n)) y = g y" using assms(3-5) by auto
  qed
  ultimately show ?thesis by simp
qed

text \<open>The new heap: a node \<open>n\<close> with the new key, spliced into the levels below its height.\<close>

lemma inv_spliced:
  assumes inv: "sl_inv compare s L" and init: "initial P L" and n: "n = length (sl_nodes s)"
    and shape: "length (sl_nodes s') = Suc n"
      "\<And>x. x < n \<Longrightarrow> key_of s' x = key_of s x \<and> height s' x = height s x"
      "height s' n = h" "0 < h" "h \<le> kMaxHeight" "sl_max_height s' = max h (sl_max_height s)"
    and succ: "\<And>j x. j < h \<Longrightarrow> x < n \<Longrightarrow> succ_at s' j x = (if x = pred_at s L P j then Some n else succ_at s j x)"
      "\<And>j. j < h \<Longrightarrow> succ_at s' j n = succ_at s j (pred_at s L P j)"
      "\<And>j x. h \<le> j \<Longrightarrow> x < n \<Longrightarrow> succ_at s' j x = succ_at s j x"
    and le: "\<And>x. x \<in> set L \<Longrightarrow> P x \<Longrightarrow> \<not> compare (key_of s' n) (key_of s x) < 0"
      "\<And>x. x \<in> set L \<Longrightarrow> \<not> P x \<Longrightarrow> \<not> compare (key_of s x) (key_of s' n) < 0"
  shows "sl_inv compare s' (takeWhile P L @ n # dropWhile P L)"
proof -
  let ?L' = "takeWhile P L @ n # dropWhile P L"
  have L: "set L = {0<..<n}" "distinct L" and npos: "0 < n"
    using inv n by (auto simp: sl_inv_def)
  have sets: "set (takeWhile P L) \<union> set (dropWhile P L) = set L"
    by (metis set_append takeWhile_dropWhile_id)
  have lt: "x < n" if "x \<in> set (0 # level_list s L j)" for x j
    using that L npos by (auto simp: level_list_def)
  have keep: "filter (\<lambda>x. j < height s' x) L = filter (\<lambda>x. j < height s x) L" for j
    using shape(2) L by (intro filter_cong) auto
  have ll: "level_list s' ?L' j = (if j < h then takeWhile P (level_list s L j) @ n # dropWhile P (level_list s L j)
      else level_list s L j)" for j
    using shape(3) by (simp add: level_list_def level_list_split [OF init] keep)
  have chain: "chain (succ_at s' j) 0 (level_list s' ?L' j)" if j: "j < kMaxHeight" for j
  proof -
    have c: "chain (succ_at s j) 0 (level_list s L j)" using inv j by (simp add: sl_inv_def)
    show ?thesis
    proof (cases "j < h")
      case True
      have d: "distinct (0 # level_list s L j)" "n \<notin> set (0 # level_list s L j)"
        using L npos by (auto simp: level_list_def)
      have "chain (succ_at s' j) 0 (takeWhile P (level_list s L j) @ n # dropWhile P (level_list s L j))"
      proof (rule chain_spliced)
        show "succ_at s' j y = (if y = last (0 # takeWhile P (level_list s L j)) then Some n else succ_at s j y)"
          if "y \<in> set (0 # takeWhile P (level_list s L j) @ dropWhile P (level_list s L j))" for y
          using that succ(1) [OF True lt [of y j]] by (simp add: pred_at_def)
        show "succ_at s' j n = succ_at s j (last (0 # takeWhile P (level_list s L j)))"
          using succ(2) [OF True] by (simp add: pred_at_def)
      qed (use c d in simp_all)
      then show ?thesis using True by (simp add: ll)
    next
      case False
      have "chain (succ_at s' j) 0 (level_list s L j) = chain (succ_at s j) 0 (level_list s L j)"
        using False lt by (intro chain_cong succ(3)) auto
      with c False show ?thesis by (simp add: ll)
    qed
  qed
  have sorted: "sorted_wrt (\<lambda>x y. \<not> compare (key_of s' y) (key_of s' x) < 0) ?L'"
  proof -
    have keys: "key_of s' x = key_of s x" if "x \<in> set L" for x using that L shape(2) by auto
    have "sorted_wrt (\<lambda>x y. \<not> compare (key_of s y) (key_of s x) < 0) (takeWhile P L @ dropWhile P L)"
      using inv by (simp add: sl_inv_def)
    then show ?thesis
      using sets keys le by (auto simp: sorted_wrt_append initial_takeWhile [OF init] initial_dropWhile [OF init]
          elim!: sorted_wrt_mono_rel [rotated])
  qed
  have "set ?L' = {0<..<Suc n}" "distinct ?L'"
    using sets L npos distinct_append [of "takeWhile P L" "dropWhile P L"] by auto
  moreover have "height s' 0 = kMaxHeight" "0 < sl_max_height s'" "sl_max_height s' \<le> kMaxHeight"
    using inv npos shape by (auto simp: sl_inv_def)
  moreover have "\<forall>x \<in> set ?L'. 0 < height s' x \<and> height s' x \<le> sl_max_height s'"
  proof
    fix x
    assume "x \<in> set ?L'"
    then consider "x = n" | "x \<in> set L" using sets by auto
    then show "0 < height s' x \<and> height s' x \<le> sl_max_height s'"
    proof cases
      case 2
      then have "0 < height s x \<and> height s x \<le> sl_max_height s" using inv by (simp add: sl_inv_def)
      with 2 L shape(2,6) show ?thesis by auto
    qed (simp add: shape)
  qed
  ultimately show ?thesis
    using chain sorted shape(1) unfolding sl_inv_def by (metis list.size(3) nat.distinct(1))
qed

text \<open>The specification: the key goes before the first key that is not less.\<close>

definition ordered_insert :: "('k \<Rightarrow> 'k \<Rightarrow> int) \<Rightarrow> 'k \<Rightarrow> 'k list \<Rightarrow> 'k list" where
  "ordered_insert compare key ks =
     takeWhile (\<lambda>k. compare k key < 0) ks @ key # dropWhile (\<lambda>k. compare k key < 0) ks"

lemma pred_above: "sl_inv compare s L \<Longrightarrow> sl_max_height s \<le> j \<Longrightarrow> pred_at s L P j = 0"
proof -
  assume "sl_inv compare s L" and "sl_max_height s \<le> j"
  then have "\<forall>x \<in> set L. \<not> j < height s x" unfolding sl_inv_def by fastforce
  then have "level_list s L j = []" by (simp add: level_list_def)
  then show ?thesis by (simp add: pred_at_def)
qed

lemma NewNode_simps:
  assumes "NewNode s key h = (x, s')"
  shows "x = length (sl_nodes s)" "length (sl_nodes s') = Suc x" "sl_max_height s' = sl_max_height s"
    "height s' x = h" "key_of s' x = key"
    "y < x \<Longrightarrow> key_of s' y = key_of s y \<and> height s' y = height s y \<and> succ_at s' j y = succ_at s j y"
  using assms by (auto simp: NewNode_def height_def succ_at_def nth_append)

context skip_order
begin

lemma prev_array:
  fixes key
  assumes inv: "sl_inv compare s L"
  defines "P \<equiv> \<lambda>x. compare (key_of s x) key < 0"
  obtains a where "FindGreaterOrEqual compare s key (Some (replicate kMaxHeight None))
      = Some (first_opt (dropWhile P L), Some a)"
    "length a = kMaxHeight" "\<And>j. j < sl_max_height s \<Longrightarrow> a ! j = Some (pred_at s L P j)"
proof -
  have h: "0 < sl_max_height s" "sl_max_height s \<le> kMaxHeight"
    using inv by (auto simp: sl_inv_def)
  let ?r = "replicate kMaxHeight None :: nat option list"
  let ?g = "\<lambda>j. Some (pred_at s L P j)"
  define a where "a = (foldr (\<lambda>j a. a[j := ?g j]) [1..<Suc (sl_max_height s - 1)] ?r)[0 := ?g 0]"
  have "FindGreaterOrEqual compare s key (Some ?r) = Some (first_opt (dropWhile P L), Some a)"
    using FindGreaterOrEqual_eq [OF inv, of key "Some ?r"] h(1)
    unfolding a_def P_def by (simp add: foldr_map_option)
  moreover have "length a = kMaxHeight" "\<And>j. j < sl_max_height s \<Longrightarrow> a ! j = ?g j"
    using foldr_update [where i = "sl_max_height s - 1" and a = ?r and g = ?g] h unfolding a_def [symmetric] by auto
  ultimately show thesis using that by blast
qed

lemma Insert_inv:
  fixes key
  assumes inv: "sl_inv compare s L" and fresh: "\<And>x. x \<in> set L \<Longrightarrow> compare key (key_of s x) \<noteq> 0"
  defines "P \<equiv> \<lambda>x. compare (key_of s x) key < 0" and "n \<equiv> length (sl_nodes s)"
  shows "\<exists>s'. SkipList_Insert compare s key = Some s' \<and> sl_inv compare s' (takeWhile P L @ n # dropWhile P L)
    \<and> key_of s' n = key \<and> (\<forall>x < n. key_of s' x = key_of s x)"
proof -
  have init: "initial P L" unfolding P_def by (rule initial_below [OF inv])
  have npos: "0 < n" and L: "set L = {0<..<n}" using inv by (auto simp: sl_inv_def n_def)
  obtain h rnd' where h: "RandomHeight s = Some (h, s\<lparr>sl_rnd := rnd'\<rparr>)" "0 < h" "h \<le> kMaxHeight"
    using RandomHeight_total by blast
  obtain a where fge: "FindGreaterOrEqual compare s key (Some (replicate kMaxHeight None))
      = Some (first_opt (dropWhile P L), Some a)"
    and a: "length a = kMaxHeight" "\<And>j. j < sl_max_height s \<Longrightarrow> a ! j = Some (pred_at s L P j)"
    using prev_array [OF inv, of key] unfolding P_def by blast
  have assert: "first_opt (dropWhile P L) = None
      \<or> \<not> SkipList_Equal compare key (key_of s (the (first_opt (dropWhile P L))))"
  proof (cases "dropWhile P L")
    case (Cons y ys)
    then have "y \<in> set L" by (metis list.set_intros(1) set_dropWhileD)
    with Cons fresh show ?thesis by (simp add: SkipList_Equal_def)
  qed (simp del: dropWhile_eq_Nil_conv)
  define s1 where "s1 = s\<lparr>sl_rnd := rnd', sl_max_height := max h (sl_max_height s)\<rparr>"
  define prev where "prev = (if h > sl_max_height s then raise_prev a (sl_max_height s) h else a)"
  obtain x s2 where nn: "NewNode s1 key h = (x, s2)" by fastforce
  note new = NewNode_simps [OF nn]
  have s1: "length (sl_nodes s1) = n" "sl_max_height s1 = max h (sl_max_height s)"
    "\<And>y. key_of s1 y = key_of s y \<and> height s1 y = height s y" "\<And>j. succ_at s1 j = succ_at s j"
    by (simp_all add: s1_def n_def height_def succ_at_def fun_eq_iff)
  have x: "x = n" using new(1) s1(1) by simp
  have ins: "SkipList_Insert compare s key = Insert_link s2 prev n h 0"
    using fge assert h(1) nn x by (auto simp: SkipList_Insert_def GetMaxHeight_def s1_def prev_def Let_def max_def)
  have pl: "pred_at s L P j < n" and ph: "j < kMaxHeight \<Longrightarrow> j < height s (pred_at s L P j)" for j
    using pred_at_in(1) [of s L P j] L npos inv by (auto simp: level_list_def sl_inv_def)
  have prev: "prev ! j = Some (pred_at s L P j)" if "j < h" for j
    using that h(3) a pred_above [OF inv, of j P] raise_prev_nth [where a = a and lo = "sl_max_height s" and hi = h]
    by (cases "j < sl_max_height s") (auto simp: prev_def)
  have "\<exists>s3. Insert_link s2 prev n h 0 = Some s3 \<and> same_shape s2 s3
    \<and> (\<forall>j. succ_at s3 j = (if 0 \<le> j \<and> j < h then (succ_at s2 j)(n := succ_at s2 j (pred_at s L P j), pred_at s L P j := Some n) else succ_at s2 j))"
  proof (rule Insert_link_Some)
    show "h \<le> length prev" using a(1) h(3) raise_prev_nth(1) by (simp add: prev_def)
    show "prev ! j = Some (pred_at s L P j) \<and> pred_at s L P j < length (sl_nodes s2) \<and> pred_at s L P j \<noteq> n
        \<and> j < height s2 (pred_at s L P j)" if "j < h" for j
      using that prev pl [of j] ph [of j] h(3) new s1 x by auto
  qed (use h new x in auto)
  then obtain s3 where s3: "Insert_link s2 prev n h 0 = Some s3" "same_shape s2 s3"
    "\<And>j. succ_at s3 j = (if j < h then (succ_at s2 j)(n := succ_at s2 j (pred_at s L P j), pred_at s L P j := Some n) else succ_at s2 j)"
    by auto
  have keys: "key_of s3 n = key" "\<And>y. y < n \<Longrightarrow> key_of s3 y = key_of s y"
    using s3(2) new(5,6) s1(3) x by (auto simp: same_shape_def)
  have "sl_inv compare s3 (takeWhile P L @ n # dropWhile P L)"
  proof (rule inv_spliced [OF inv init, of n s3 h])
    show "\<not> compare (key_of s3 n) (key_of s y) < 0" if "P y" for y
      using that keys(1) less_trans less_irrefl unfolding P_def by metis
    show "\<not> compare (key_of s y) (key_of s3 n) < 0" if "\<not> P y" for y
      using that keys(1) unfolding P_def by simp
    show "key_of s3 y = key_of s y \<and> height s3 y = height s y" if "y < n" for y
      using that keys(2) s3(2) new(6) s1(3) x by (auto simp: same_shape_def)
    show "succ_at s3 j y = (if y = pred_at s L P j then Some n else succ_at s j y)" if "j < h" "y < n" for j y
      using that s3(3) new(6) s1(4) x by auto
    show "succ_at s3 j n = succ_at s j (pred_at s L P j)" if "j < h" for j
      using that s3(3) new(6) [of "pred_at s L P j" j] s1(4) pl [of j] x by auto
    show "succ_at s3 j y = succ_at s j y" if "h \<le> j" "y < n" for j y
      using that s3(3) new(6) s1(4) x by auto
  qed (use s3(2) new s1 x h n_def in \<open>auto simp: same_shape_def\<close>)
  with ins s3(1) keys show ?thesis by auto
qed

end

section \<open>The skip list as a sorted sequence of keys\<close>

definition sl_keys :: "'k SkipList \<Rightarrow> nat list \<Rightarrow> 'k list" where
  "sl_keys s L = map (key_of s) L"

fun insert_all :: "('k \<Rightarrow> 'k \<Rightarrow> int) \<Rightarrow> 'k SkipList \<Rightarrow> 'k list \<Rightarrow> 'k SkipList option" where
  "insert_all compare s [] = Some s"
| "insert_all compare s (k # ks) = do { s \<leftarrow> SkipList_Insert compare s k; insert_all compare s ks }"

text \<open>The keys an iterator passes from a position to the end.\<close>

partial_function (option) scan :: "'k SkipList \<Rightarrow> nat option \<Rightarrow> 'k list option" where
  "scan s it =
     (if Iterator_Valid it then
        do {
          k \<leftarrow> Iterator_key s it;
          it \<leftarrow> Iterator_Next s it;
          ks \<leftarrow> scan s it;
          Some (k # ks)
        }
      else Some [])"

lemma SkipList_new_inv: "sl_inv compare (SkipList_new zero) []"
  by (auto simp: sl_inv_def SkipList_new_def height_def level_list_def succ_at_def kMaxHeight_def)

lemma ordered_insert_mset [simp]: "mset (ordered_insert compare k ks) = add_mset k (mset ks)"
  unfolding ordered_insert_def by (metis mset_append add_mset_add_single mset.simps(2) takeWhile_dropWhile_id
      union_mset_add_mset_right)

lemma sl_inv_sorted: "sl_inv compare s L \<Longrightarrow> sorted_wrt (\<lambda>a b. \<not> compare b a < 0) (sl_keys s L)"
  by (simp add: sl_inv_def sl_keys_def sorted_wrt_map)

lemma Iterator_SeekToFirst_eq: "sl_inv compare s L \<Longrightarrow> Iterator_SeekToFirst s = Some (first_opt L)"
proof -
  assume inv: "sl_inv compare s L"
  have k: "0 < kMaxHeight" by (simp add: kMaxHeight_def)
  have "chain (succ_at s 0) 0 L" using inv k level_list_0 [OF inv] by (metis sl_inv_def)
  then show ?thesis
    using Node_Next_level [OF inv k, of 0] by (simp add: Iterator_SeekToFirst_def chain_first)
qed

lemma Iterator_Next_eq:
  assumes inv: "sl_inv compare s (xs @ x # ys)"
  shows "Iterator_Next s (Some x) = Some (first_opt ys)"
proof -
  have k: "0 < kMaxHeight" by (simp add: kMaxHeight_def)
  have ll: "0 # level_list s (xs @ x # ys) 0 = (0 # xs) @ x # ys" by (simp add: level_list_0 [OF inv])
  have "Node_Next s x 0 = Some (succ_at s 0 x)" by (rule Node_Next_level [OF inv k]) (simp add: ll)
  then show ?thesis
    using chain_first [OF chain_level [OF inv k ll]] by (simp add: Iterator_Next_def Iterator_Valid_def)
qed

lemma Iterator_SeekToLast_eq:
  assumes inv: "sl_inv compare s L"
  shows "Iterator_SeekToLast s = Some (first_opt (rev L))"
proof (cases L rule: rev_cases)
  case (snoc ys y)
  then have "y \<noteq> 0" using zero_notin [OF inv] by (auto intro: ccontr)
  with snoc show ?thesis by (simp add: Iterator_SeekToLast_def FindLast_eq [OF inv])
qed (simp add: Iterator_SeekToLast_def FindLast_eq [OF inv])

lemma scan_eq:
  assumes inv: "sl_inv compare s (xs @ ys)"
  shows "scan s (first_opt ys) = Some (map (key_of s) ys)"
  using assms
proof (induction ys arbitrary: xs)
  case Nil
  show ?case by (subst scan.simps) (simp add: Iterator_Valid_def)
next
  case (Cons y ys)
  from Cons.prems Cons.IH [of "xs @ [y]"] Iterator_Next_eq [OF Cons.prems] show ?case
    by (subst scan.simps) (simp add: Iterator_Valid_def Iterator_key_def)
qed

lemma dropWhile_sl_keys:
  "map (key_of s) (dropWhile (\<lambda>x. Q (key_of s x)) L) = dropWhile Q (sl_keys s L)"
  "map (key_of s) (takeWhile (\<lambda>x. Q (key_of s x)) L) = takeWhile Q (sl_keys s L)"
  by (simp_all add: sl_keys_def dropWhile_map takeWhile_map comp_def)

context skip_order
begin

lemma Insert_refines:
  assumes "sl_inv compare s L" and "\<forall>k \<in> set (sl_keys s L). compare key k \<noteq> 0"
  shows "\<exists>s' L'. SkipList_Insert compare s key = Some s' \<and> sl_inv compare s' L'
    \<and> sl_keys s' L' = ordered_insert compare key (sl_keys s L)"
proof -
  let ?P = "\<lambda>x. compare (key_of s x) key < 0"
  let ?n = "length (sl_nodes s)"
  obtain s' where s': "SkipList_Insert compare s key = Some s'"
    "sl_inv compare s' (takeWhile ?P L @ ?n # dropWhile ?P L)" "key_of s' ?n = key"
    "\<forall>x < ?n. key_of s' x = key_of s x"
    using Insert_inv [OF assms(1), of key] assms(2) by (auto simp: sl_keys_def)
  have "set L \<subseteq> {..<?n}" using assms(1) by (auto simp: sl_inv_def)
  then have "map (key_of s') (takeWhile ?P L) = map (key_of s) (takeWhile ?P L)"
    "map (key_of s') (dropWhile ?P L) = map (key_of s) (dropWhile ?P L)"
    using s'(4) by (auto dest: set_takeWhileD set_dropWhileD)
  then have "sl_keys s' (takeWhile ?P L @ ?n # dropWhile ?P L) = ordered_insert compare key (sl_keys s L)"
    using s'(3) dropWhile_sl_keys [of s "\<lambda>k. compare k key < 0" L]
    by (simp add: sl_keys_def [of s'] ordered_insert_def)
  with s'(1,2) show ?thesis by blast
qed

lemma insert_all_refines:
  assumes "sl_inv compare s L" and "sorted_wrt (\<lambda>a b. compare b a \<noteq> 0) ks"
    and "\<forall>a \<in> set (sl_keys s L). \<forall>k \<in> set ks. compare k a \<noteq> 0"
  shows "\<exists>s' L'. insert_all compare s ks = Some s' \<and> sl_inv compare s' L'
    \<and> sl_keys s' L' = foldl (\<lambda>l k. ordered_insert compare k l) (sl_keys s L) ks"
  using assms
proof (induction ks arbitrary: s L)
  case (Cons k ks)
  then obtain s1 L1 where s1: "SkipList_Insert compare s k = Some s1" "sl_inv compare s1 L1"
    "sl_keys s1 L1 = ordered_insert compare k (sl_keys s L)"
    using Insert_refines [of s L k] by auto
  have "set (sl_keys s1 L1) = insert k (set (sl_keys s L))"
    using arg_cong [OF s1(3), of mset] by (metis ordered_insert_mset set_mset_add_mset_insert set_mset_mset)
  then have "\<forall>a \<in> set (sl_keys s1 L1). \<forall>k \<in> set ks. compare k a \<noteq> 0" using Cons.prems by auto
  from Cons.IH [OF s1(2) _ this] Cons.prems(2) s1 show ?case by auto
qed auto

lemma Iterator_Seek_eq:
  assumes inv: "sl_inv compare s L"
  shows "Iterator_Seek compare s key = Some (first_opt (dropWhile (\<lambda>x. compare (key_of s x) key < 0) L))"
  by (simp add: Iterator_Seek_def FindGreaterOrEqual_eq [OF inv])

lemma SkipList_Contains_eq:
  assumes inv: "sl_inv compare s L"
  shows "SkipList_Contains compare s key = Some (\<exists>k. first_opt (dropWhile (\<lambda>k. compare k key < 0) (sl_keys s L)) = Some k
    \<and> compare key k = 0)"
proof -
  have m: "first_opt (map f xs) = map_option f (first_opt xs)" for f :: "nat \<Rightarrow> 'k" and xs
    by (cases xs) simp_all
  have "first_opt (dropWhile (\<lambda>k. compare k key < 0) (sl_keys s L))
    = map_option (key_of s) (first_opt (dropWhile (\<lambda>x. compare (key_of s x) key < 0) L))"
    by (simp only: dropWhile_sl_keys(1) [symmetric] m)
  then show ?thesis
    by (auto simp: SkipList_Contains_def FindGreaterOrEqual_eq [OF inv] SkipList_Equal_def)
qed

lemma Iterator_Prev_eq:
  assumes inv: "sl_inv compare s L"
  shows "Iterator_Prev compare s (Some x) = Some (first_opt (rev (takeWhile (\<lambda>y. compare (key_of s y) (key_of s x) < 0) L)))"
proof -
  let ?T = "takeWhile (\<lambda>y. compare (key_of s y) (key_of s x) < 0) L"
  have "0 \<notin> set ?T" using zero_notin [OF inv] by (auto dest: set_takeWhileD)
  then show ?thesis
    by (cases ?T rule: rev_cases) (auto simp: Iterator_Prev_def Iterator_Valid_def FindLessThan_eq [OF inv])
qed

end

section \<open>Properties\<close>

text \<open>C4. The skip list is a sorted container.  For a comparator whose negative results are a strict
  weak order and keys no two of which compare equal, inserting the keys one after the other into a new
  list returns, without a failed assertion or an access outside a node, whatever heights are drawn; a
  scan from the first node returns and yields exactly the inserted keys, in ascending order.\<close>

theorem inserted_keys_are_scanned_in_order:
  assumes "skip_order compare" and "sorted_wrt (\<lambda>a b. compare b a \<noteq> 0) ks"
  shows "\<exists>s it out. insert_all compare (SkipList_new zero) ks = Some s
    \<and> Iterator_SeekToFirst s = Some it \<and> scan s it = Some out
    \<and> mset out = mset ks \<and> sorted_wrt (\<lambda>a b. \<not> compare b a < 0) out"
proof -
  obtain s L where s: "insert_all compare (SkipList_new zero) ks = Some s" "sl_inv compare s L"
    "sl_keys s L = foldl (\<lambda>l k. ordered_insert compare k l) [] ks"
    using skip_order.insert_all_refines [OF assms(1) SkipList_new_inv assms(2), of zero]
    by (auto simp: sl_keys_def)
  have "mset (foldl (\<lambda>l k. ordered_insert compare k l) l ks) = mset l + mset ks" for l
    by (induction ks arbitrary: l) simp_all
  then have "mset (sl_keys s L) = mset ks" by (simp add: s(3))
  moreover have "scan s (first_opt L) = Some (sl_keys s L)"
    using scan_eq [of compare s "[]" L] s(2) by (simp add: sl_keys_def)
  ultimately show ?thesis
    using s(1) Iterator_SeekToFirst_eq [OF s(2)] sl_inv_sorted [OF s(2)] by blast
qed

text \<open>A comparator of integers.\<close>

definition int_compare :: "int \<Rightarrow> int \<Rightarrow> int" where
  "int_compare a b = a - b"

lemma int_compare_order: "skip_order int_compare"
  by unfold_locales (auto simp: int_compare_def)

theorem inserted_keys_are_scanned_in_order_witness:
  "\<exists>s it out. insert_all int_compare (SkipList_new 0) [5, 2, 9] = Some s
    \<and> Iterator_SeekToFirst s = Some it \<and> scan s it = Some out
    \<and> mset out = {# 5, 2, 9 #} \<and> sorted_wrt (\<lambda>a b. \<not> int_compare b a < 0) out"
  using inserted_keys_are_scanned_in_order [OF int_compare_order, of "[5, 2, 9]" 0]
  by (simp add: int_compare_def del: insert_all.simps)

text \<open>C29. Insertion refines ordered insertion into the sequence of keys and keeps the invariant of
  the pointer structure: under the comparator's contract and when no key in the list compares equal,
  \<open>Insert\<close> returns and puts the key before the first key that is not less.  A list that holds an equal
  key is refused by the assertion when the first key that is not less is equal.\<close>

theorem insert_refines_ordered_insert:
  assumes "skip_order compare" and "sl_inv compare s L"
  shows "((\<forall>k \<in> set (sl_keys s L). compare key k \<noteq> 0) \<longrightarrow>
       (\<exists>s' L'. SkipList_Insert compare s key = Some s' \<and> sl_inv compare s' L'
         \<and> sl_keys s' L' = ordered_insert compare key (sl_keys s L)))
   \<and> (SkipList_Contains compare s key = Some True \<longrightarrow> SkipList_Insert compare s key = None)"
proof -
  have "SkipList_Insert compare s key = None" if "SkipList_Contains compare s key = Some True"
    using that
    by (auto simp: SkipList_Contains_def SkipList_Insert_def
        skip_order.FindGreaterOrEqual_eq [OF assms])
  then show ?thesis
    using skip_order.Insert_refines [OF assms, of key] by simp
qed

theorem insert_refines_ordered_insert_witness:
  "\<exists>s' L'. SkipList_Insert int_compare (SkipList_new 0) 4 = Some s' \<and> sl_inv int_compare s' L'
    \<and> sl_keys s' L' = [4]"
  using insert_refines_ordered_insert [OF int_compare_order SkipList_new_inv, of 0 4]
  by (simp add: sl_keys_def [of _ "[]"] ordered_insert_def)

text \<open>The iterator moves as its interface says.  On a list that satisfies the invariant, with
  the nodes \<open>L\<close> in order: \<open>Seek\<close> finds the first node whose key is not less than the target,
  \<open>SeekToFirst\<close> and \<open>SeekToLast\<close> the ends, \<open>Next\<close> the successor, \<open>Prev\<close> the last node whose key is less
  than the current one; each returns, and is invalid when there is no such node.\<close>

theorem iterator_moves:
  assumes "skip_order compare" and "sl_inv compare s (xs @ x # ys)"
  shows "Iterator_SeekToFirst s = Some (first_opt (xs @ x # ys))
    \<and> Iterator_SeekToLast s = Some (first_opt (rev (xs @ x # ys)))
    \<and> Iterator_Seek compare s target
        = Some (first_opt (filter (\<lambda>z. \<not> compare (key_of s z) target < 0) (xs @ x # ys)))
    \<and> Iterator_Next s (Some x) = Some (first_opt ys)
    \<and> Iterator_Prev compare s (Some x)
        = Some (first_opt (rev (filter (\<lambda>z. compare (key_of s z) (key_of s x) < 0) (xs @ x # ys))))"
  unfolding initial_dropWhile [OF skip_order.initial_below [OF assms], symmetric]
    initial_takeWhile [OF skip_order.initial_below [OF assms], symmetric]
  using Iterator_SeekToFirst_eq [OF assms(2)] Iterator_SeekToLast_eq [OF assms(2)]
    skip_order.Iterator_Seek_eq [OF assms, of target] Iterator_Next_eq [OF assms(2)]
    skip_order.Iterator_Prev_eq [OF assms, of x]
  by simp

theorem iterator_moves_witness:
  "\<exists>s x. SkipList_Insert int_compare (SkipList_new 0) 4 = Some s
    \<and> Iterator_SeekToFirst s = Some (Some x) \<and> Iterator_SeekToLast s = Some (Some x)
    \<and> Iterator_Next s (Some x) = Some None \<and> Iterator_Prev int_compare s (Some x) = Some None"
proof -
  obtain s where s: "SkipList_Insert int_compare (SkipList_new 0) 4 = Some s"
    "sl_inv int_compare s ([] @ length (sl_nodes (SkipList_new (0::int))) # [])"
    using skip_order.Insert_inv [OF int_compare_order SkipList_new_inv, of 4 0] by auto
  from iterator_moves [OF int_compare_order s(2), of 0] s(1) show ?thesis
    by (auto simp: int_compare_def)
qed

end
