(* ===== verification/Arena.thy ===== *)
theory Arena
  imports Prelude "HOL-Library.Monad_Syntax"
begin

text \<open>
  The arena (\<open>memory/arena.h\<close>, \<open>memory/arena.cpp\<close>): bump allocation from blocks of 4096 bytes,
  large requests in blocks of their own.

  Pointers are addresses, natural numbers.  The C++ heap is a parameter: given the blocks handed
  out so far and a size, it returns the address of a new block; a heap that runs out of memory and
  throws is not modelled.
\<close>

section \<open>Definitions\<close>

type_synonym region = "nat \<times> nat" \<comment> \<open>address and size\<close>

text \<open>The code's \<open>blocks_\<close> holds the addresses; the sizes are kept for the proofs.\<close>

record Arena =
  ar_alloc_ptr :: nat
  ar_alloc_bytes_remaining :: nat
  ar_blocks :: "region list"
  ar_memory_usage :: nat

definition kArenaBlockSize :: nat where
  "kArenaBlockSize = 4096"

definition Arena_new :: Arena where
  "Arena_new = \<lparr>ar_alloc_ptr = 0, ar_alloc_bytes_remaining = 0, ar_blocks = [], ar_memory_usage = 0\<rparr>"

definition AllocateNewBlock :: "(region list \<Rightarrow> nat \<Rightarrow> nat) \<Rightarrow> Arena \<Rightarrow> nat \<Rightarrow> nat \<times> Arena" where
  "AllocateNewBlock heap a block_bytes =
     (let result = heap (ar_blocks a) block_bytes in
      (result, a\<lparr>ar_blocks := ar_blocks a @ [(result, block_bytes)],
                 ar_memory_usage := (ar_memory_usage a + block_bytes + 8) mod 2 ^ 64\<rparr>))"

definition AllocateFallback :: "(region list \<Rightarrow> nat \<Rightarrow> nat) \<Rightarrow> Arena \<Rightarrow> nat \<Rightarrow> nat \<times> Arena" where
  "AllocateFallback heap a bytes =
     (if bytes > kArenaBlockSize div 4 then AllocateNewBlock heap a bytes
      else
        let (p, a) = AllocateNewBlock heap a kArenaBlockSize in
        (p, a\<lparr>ar_alloc_ptr := p + bytes, ar_alloc_bytes_remaining := kArenaBlockSize - bytes\<rparr>))"

text \<open>\<open>None\<close> is a failed assertion.\<close>

definition Arena_Allocate :: "(region list \<Rightarrow> nat \<Rightarrow> nat) \<Rightarrow> Arena \<Rightarrow> nat \<Rightarrow> (nat \<times> Arena) option" where
  "Arena_Allocate heap a bytes =
     (if \<not> bytes > 0 then None
      else if bytes \<le> ar_alloc_bytes_remaining a then
        Some (ar_alloc_ptr a,
              a\<lparr>ar_alloc_ptr := ar_alloc_ptr a + bytes,
                ar_alloc_bytes_remaining := ar_alloc_bytes_remaining a - bytes\<rparr>)
      else Some (AllocateFallback heap a bytes))"

text \<open>The sum \<open>bytes + slop\<close> is a \<open>uint64_t\<close>.\<close>

definition Arena_AllocateAligned :: "(region list \<Rightarrow> nat \<Rightarrow> nat) \<Rightarrow> Arena \<Rightarrow> nat \<Rightarrow> (nat \<times> Arena) option" where
  "Arena_AllocateAligned heap a bytes =
     (let align = 8;
          current_mod = ar_alloc_ptr a mod align;
          slop = (if current_mod = 0 then 0 else align - current_mod);
          needed = (bytes + slop) mod 2 ^ 64;
          (result, a) =
            (if needed \<le> ar_alloc_bytes_remaining a then
               (ar_alloc_ptr a + slop,
                a\<lparr>ar_alloc_ptr := ar_alloc_ptr a + needed,
                  ar_alloc_bytes_remaining := ar_alloc_bytes_remaining a - needed\<rparr>)
             else AllocateFallback heap a bytes) in
      if result mod align = 0 then Some (result, a) else None)"

definition Arena_MemoryUsage :: "Arena \<Rightarrow> nat" where
  "Arena_MemoryUsage a = ar_memory_usage a"

text \<open>The destructor: the addresses it passes to \<open>delete[]\<close>, in order.\<close>

definition Arena_delete :: "Arena \<Rightarrow> nat list" where
  "Arena_delete a = map fst (ar_blocks a)"

section \<open>Regions\<close>

definition apart :: "region \<Rightarrow> region \<Rightarrow> bool" where
  "apart r q \<longleftrightarrow> fst r + snd r \<le> fst q \<or> fst q + snd q \<le> fst r"

definition inside :: "region \<Rightarrow> region \<Rightarrow> bool" where
  "inside r b \<longleftrightarrow> fst b \<le> fst r \<and> fst r + snd r \<le> fst b + snd b"

lemma apart_sym: "apart r q \<Longrightarrow> apart q r"
  by (auto simp: apart_def)

lemma apart_inside: "inside r b \<Longrightarrow> apart b q \<Longrightarrow> apart r q"
  by (auto simp: apart_def inside_def)

lemma inside_refl: "inside b b"
  by (simp add: inside_def)

lemma inside_trans: "inside r q \<Longrightarrow> inside q b \<Longrightarrow> inside r b"
  by (auto simp: inside_def)

text \<open>
  The documented behaviour of \<open>new uint8_t[n]\<close>: memory apart from all live blocks, aligned for every
  fundamental type.
\<close>

locale heap_alloc =
  fixes heap :: "region list \<Rightarrow> nat \<Rightarrow> nat"
  assumes heap_fresh: "b \<in> set blocks \<Longrightarrow> apart (heap blocks n, n) b"
    and heap_aligned: "heap blocks n mod 8 = 0"

definition free_area :: "Arena \<Rightarrow> region" where
  "free_area a = (ar_alloc_ptr a, ar_alloc_bytes_remaining a)"

text \<open>
  \<open>rs\<close> are the regions handed out: inside the blocks, apart from each other and from the free area,
  which is empty or inside a block as well.
\<close>

definition arena_inv :: "Arena \<Rightarrow> region list \<Rightarrow> bool" where
  "arena_inv a rs \<longleftrightarrow>
     (\<forall>r \<in> set rs. \<exists>b \<in> set (ar_blocks a). inside r b)
     \<and> sorted_wrt apart rs
     \<and> (ar_alloc_bytes_remaining a = 0
         \<or> (\<exists>b \<in> set (ar_blocks a). inside (free_area a) b) \<and> (\<forall>r \<in> set rs. apart (free_area a) r))
     \<and> ar_memory_usage a = (\<Sum>b \<leftarrow> ar_blocks a. snd b + 8) mod 2 ^ 64"

lemma arena_inv_new: "arena_inv Arena_new []"
  by (simp add: arena_inv_def Arena_new_def)

text \<open>Taking a piece of the free area that leaves a suffix of it free.\<close>

lemma arena_inv_bump:
  assumes inv: "arena_inv a rs" and "slop + bytes \<le> ar_alloc_bytes_remaining a" and "0 < bytes"
  shows "arena_inv (a\<lparr>ar_alloc_ptr := ar_alloc_ptr a + (slop + bytes),
      ar_alloc_bytes_remaining := ar_alloc_bytes_remaining a - (slop + bytes)\<rparr>) ((ar_alloc_ptr a + slop, bytes) # rs)"
    (is "arena_inv ?a ((?p, bytes) # rs)")
proof -
  have ins: "inside (?p, bytes) (free_area a)" "inside (free_area ?a) (free_area a)"
    using assms(2) by (simp_all add: inside_def free_area_def)
  obtain b where b: "b \<in> set (ar_blocks a)" "inside (free_area a) b"
    using inv assms(2,3) by (auto simp: arena_inv_def)
  have "apart (?p, bytes) r" "apart (free_area ?a) r" if "r \<in> set rs" for r
    using that inv ins apart_inside assms(2,3) by (auto simp: arena_inv_def)
  moreover have "apart (free_area ?a) (?p, bytes)" by (simp add: apart_def free_area_def)
  moreover have "inside (?p, bytes) b" "inside (free_area ?a) b" using ins b(2) inside_trans by blast+
  ultimately show ?thesis
    using inv b(1) by (auto simp: arena_inv_def)
qed

context heap_alloc
begin

text \<open>A new block of its own, the free area untouched.\<close>

lemma arena_inv_block:
  assumes inv: "arena_inv a rs" and eq: "AllocateNewBlock heap a n = (p, a')"
  shows "arena_inv a' ((p, n) # rs)" and "p mod 8 = 0"
proof -
  have a': "p = heap (ar_blocks a) n" "a' = a\<lparr>ar_blocks := ar_blocks a @ [(p, n)],
      ar_memory_usage := (ar_memory_usage a + n + 8) mod 2 ^ 64\<rparr>"
    using eq by (auto simp: AllocateNewBlock_def Let_def)
  have fresh: "apart (p, n) b" if "b \<in> set (ar_blocks a)" for b
    using that heap_fresh by (simp add: a'(1))
  have r: "apart (p, n) r" if "r \<in> set rs" for r
    using that inv fresh apart_inside apart_sym unfolding arena_inv_def by metis
  have f: "ar_alloc_bytes_remaining a = 0 \<or> apart (free_area a) (p, n)"
    using inv fresh apart_inside apart_sym unfolding arena_inv_def by metis
  have "ar_memory_usage a = (\<Sum>b \<leftarrow> ar_blocks a. snd b + 8) mod 2 ^ 64" using inv by (simp add: arena_inv_def)
  then have u: "ar_memory_usage a' = (\<Sum>b \<leftarrow> ar_blocks a'. snd b + 8) mod 2 ^ 64"
    unfolding a'(2) by (simp add: add.assoc mod_add_left_eq)
  show "arena_inv a' ((p, n) # rs)"
    using inv r f u by (auto simp: arena_inv_def a'(2) free_area_def inside_refl)
  show "p mod 8 = 0" by (simp add: a'(1) heap_aligned)
qed

text \<open>A new standard block as the free area, with a first piece taken from it.\<close>

lemma arena_inv_fallback:
  assumes inv: "arena_inv a rs" and eq: "AllocateFallback heap a n = (p, a')" and "0 < n"
  shows "arena_inv a' ((p, n) # rs)" and "p mod 8 = 0"
proof -
  show "arena_inv a' ((p, n) # rs)"
  proof (cases "n > kArenaBlockSize div 4")
    case True
    then show ?thesis using arena_inv_block(1) [OF inv] eq by (simp add: AllocateFallback_def)
  next
    case False
    obtain a1 where a1: "AllocateNewBlock heap a kArenaBlockSize = (p, a1)"
      and a': "a' = a1\<lparr>ar_alloc_ptr := p + n, ar_alloc_bytes_remaining := kArenaBlockSize - n\<rparr>"
      using False eq by (auto simp: AllocateFallback_def split: prod.splits)
    let ?a2 = "a1\<lparr>ar_alloc_ptr := p, ar_alloc_bytes_remaining := kArenaBlockSize\<rparr>"
    have block: "(p, kArenaBlockSize) \<in> set (ar_blocks a1)"
      using a1 by (auto simp: AllocateNewBlock_def Let_def)
    have "arena_inv ?a2 rs"
      using arena_inv_block(1) [OF inv a1] block
      by (auto simp: arena_inv_def free_area_def intro: inside_refl)
    from arena_inv_bump [OF this, of 0 n] False assms(3) show ?thesis
      by (simp add: a' kArenaBlockSize_def)
  qed
  show "p mod 8 = 0"
    using eq heap_aligned by (auto simp: AllocateFallback_def AllocateNewBlock_def Let_def split: if_splits)
qed

lemma Allocate_ok:
  assumes "arena_inv a rs" and "0 < n"
  shows "\<exists>p a'. Arena_Allocate heap a n = Some (p, a') \<and> arena_inv a' ((p, n) # rs)"
proof (cases "n \<le> ar_alloc_bytes_remaining a")
  case True
  with arena_inv_bump [OF assms(1), of 0 n] assms(2) show ?thesis by (simp add: Arena_Allocate_def)
next
  case False
  obtain p a' where "AllocateFallback heap a n = (p, a')" by fastforce
  with False arena_inv_fallback(1) [OF assms(1) this assms(2)] assms(2) show ?thesis
    by (simp add: Arena_Allocate_def)
qed

lemma AllocateAligned_ok:
  assumes inv: "arena_inv a rs" and n: "0 < n" "n + 8 \<le> 2 ^ 64"
  shows "\<exists>p a'. Arena_AllocateAligned heap a n = Some (p, a') \<and> arena_inv a' ((p, n) # rs) \<and> p mod 8 = 0"
proof -
  define slop where "slop = (if ar_alloc_ptr a mod 8 = 0 then 0 else 8 - ar_alloc_ptr a mod 8)"
  have al: "(ar_alloc_ptr a + slop) mod 8 = 0" and "slop < 8"
    by (auto simp: slop_def) presburger+
  then have needed: "(n + slop) mod 2 ^ 64 = slop + n" using n by simp
  show ?thesis
  proof (cases "slop + n \<le> ar_alloc_bytes_remaining a")
    case True
    with arena_inv_bump [OF inv True n(1)] al needed show ?thesis
      by (simp add: Arena_AllocateAligned_def Let_def slop_def [symmetric])
  next
    case False
    obtain p a' where eq: "AllocateFallback heap a n = (p, a')" by fastforce
    from arena_inv_fallback [OF inv eq n(1)] False eq needed show ?thesis
      by (simp add: Arena_AllocateAligned_def Let_def slop_def [symmetric])
  qed
qed

end

section \<open>Sequences of requests\<close>

datatype request = Plain nat | Aligned nat

fun request_size :: "request \<Rightarrow> nat" where
  "request_size (Plain n) = n"
| "request_size (Aligned n) = n"

fun serve :: "(region list \<Rightarrow> nat \<Rightarrow> nat) \<Rightarrow> Arena \<Rightarrow> request \<Rightarrow> (nat \<times> Arena) option" where
  "serve heap a (Plain n) = Arena_Allocate heap a n"
| "serve heap a (Aligned n) = Arena_AllocateAligned heap a n"

fun serve_all :: "(region list \<Rightarrow> nat \<Rightarrow> nat) \<Rightarrow> Arena \<Rightarrow> request list \<Rightarrow> (nat list \<times> Arena) option" where
  "serve_all heap a [] = Some ([], a)"
| "serve_all heap a (q # qs) =
     do {
       (p, a) \<leftarrow> serve heap a q;
       (ps, a) \<leftarrow> serve_all heap a qs;
       Some (p # ps, a)
     }"

definition request_ok :: "request \<Rightarrow> bool" where
  "request_ok q \<longleftrightarrow> 0 < request_size q \<and> request_size q + 8 \<le> 2 ^ 64"

lemma serve_ok:
  assumes "heap_alloc heap" and "arena_inv a rs" and "request_ok q"
  shows "\<exists>p a'. serve heap a q = Some (p, a') \<and> arena_inv a' ((p, request_size q) # rs)
    \<and> (case q of Plain n \<Rightarrow> True | Aligned n \<Rightarrow> p mod 8 = 0)"
  using assms heap_alloc.Allocate_ok [OF assms(1,2)] heap_alloc.AllocateAligned_ok [OF assms(1,2)]
  by (cases q) (auto simp: request_ok_def)

lemma serve_all_ok:
  assumes "heap_alloc heap" and "arena_inv a rs" and "list_all request_ok qs"
  shows "\<exists>ps a'. serve_all heap a qs = Some (ps, a') \<and> length ps = length qs
    \<and> arena_inv a' (rev (zip ps (map request_size qs)) @ rs)
    \<and> list_all (\<lambda>(p, q). case q of Plain n \<Rightarrow> True | Aligned n \<Rightarrow> p mod 8 = 0) (zip ps qs)"
  using assms(2,3)
proof (induction qs arbitrary: a rs)
  case (Cons q qs)
  then obtain p a1 where a1: "serve heap a q = Some (p, a1)" "arena_inv a1 ((p, request_size q) # rs)"
    "case q of Plain n \<Rightarrow> True | Aligned n \<Rightarrow> p mod 8 = 0"
    using serve_ok [OF assms(1)] by fastforce
  from Cons.IH [OF a1(2)] Cons.prems(2) a1(1,3) show ?case by auto
qed simp

text \<open>C31. Every sequence of positive requests (below \<open>2 ^ 64 - 8\<close> bytes) is served, no assertion fails,
  and the regions handed out lie inside the blocks of the heap and are apart from each other; those
  of \<open>AllocateAligned\<close> are aligned to eight bytes; \<open>MemoryUsage\<close> is the size of the blocks plus eight
  bytes for each.\<close>

theorem arena_regions_disjoint:
  assumes "heap_alloc heap" and "list_all request_ok qs"
  shows "\<exists>ps a. serve_all heap Arena_new qs = Some (ps, a) \<and> length ps = length qs
    \<and> sorted_wrt apart (rev (zip ps (map request_size qs)))
    \<and> (\<forall>r \<in> set (zip ps (map request_size qs)). \<exists>b \<in> set (ar_blocks a). inside r b)
    \<and> list_all (\<lambda>(p, q). case q of Plain n \<Rightarrow> True | Aligned n \<Rightarrow> p mod 8 = 0) (zip ps qs)
    \<and> Arena_MemoryUsage a = (\<Sum>b \<leftarrow> ar_blocks a. snd b + 8) mod 2 ^ 64"
  using serve_all_ok [OF assms(1) arena_inv_new assms(2)]
  by (auto simp: arena_inv_def Arena_MemoryUsage_def)

text \<open>A heap that places each block behind all others.\<close>

definition bump_heap :: "region list \<Rightarrow> nat \<Rightarrow> nat" where
  "bump_heap blocks n = 8 * (\<Sum>b \<leftarrow> blocks. fst b + snd b)"

lemma bump_heap_fresh: "b \<in> set blocks \<Longrightarrow> fst b + snd b \<le> bump_heap blocks n"
  by (induction blocks) (auto simp: bump_heap_def)

interpretation bump: heap_alloc bump_heap
  by unfold_locales (auto simp: apart_def bump_heap_fresh, simp add: bump_heap_def)

theorem arena_regions_disjoint_witness:
  "\<exists>ps a. serve_all bump_heap Arena_new [Plain 3, Aligned 24, Plain 5000] = Some (ps, a)
    \<and> sorted_wrt apart (rev (zip ps [3, 24, 5000]))"
proof -
  have ok: "list_all request_ok [Plain 3, Aligned 24, Plain 5000]" by (simp add: request_ok_def)
  show ?thesis
    using arena_regions_disjoint [OF bump.heap_alloc_axioms ok]
    by (auto simp del: serve_all.simps sorted_wrt.simps)
qed

end
