(* ===== verification/Mem_Table.thy ===== *)
theory Mem_Table
  imports Db_Format Status Skip_List Arena
begin

text \<open>
  The memtable (\<open>data_structure/mem_table.h\<close>, \<open>data_structure/mem_table.cpp\<close>): a skip list of
  length-prefixed entries, its comparator, insertion, lookup and iterator.

  A key of the skip list is a pointer to an entry, given by the bytes readable from it.  The
  result \<open>None\<close> stands for a failed assertion or a call that does not return.  The user comparator
  is a parameter.
\<close>

section \<open>Definitions\<close>

text \<open>
  \<open>GetLengthPrefixedSlice (data)\<close> does not check the varint: on a malformed one the code makes a
  slice of a null pointer and an uninitialised length, here the empty slice.
\<close>

definition GetLengthPrefixedSlice_ptr :: "mem \<Rightarrow> slice" where
  "GetLengthPrefixedSlice_ptr data =
     (case GetVarint32Ptr data 5 of
        Some (len, p) \<Rightarrow> Slice_ptr p (unat len)
      | None \<Rightarrow> Slice_ptr [] 0)"

definition KeyComparator :: "(bytes \<Rightarrow> bytes \<Rightarrow> int) \<Rightarrow> mem \<Rightarrow> mem \<Rightarrow> int option" where
  "KeyComparator ucmp ap bp =
     InternalKeyComparator_Compare ucmp (slice_bytes (GetLengthPrefixedSlice_ptr ap))
       (slice_bytes (GetLengthPrefixedSlice_ptr bp))"

text \<open>
  The comparator the skip list is made with: what \<open>KeyComparator\<close> returns when its assertions hold.  That they
  hold for all comparisons of a search is checked before it.  A search of an empty list compares
  nothing; every search of another list compares its key with an entry, and an entry with a key of fewer than
  eight bytes can only be the sole one of its list, so that it is then the one compared.
\<close>

definition entry_compare :: "(bytes \<Rightarrow> bytes \<Rightarrow> int) \<Rightarrow> mem \<Rightarrow> mem \<Rightarrow> int" where
  "entry_compare ucmp ap bp =
     internal_compare ucmp (slice_bytes (GetLengthPrefixedSlice_ptr ap))
       (slice_bytes (GetLengthPrefixedSlice_ptr bp))"

definition search_ok :: "(bytes \<Rightarrow> bytes \<Rightarrow> int) \<Rightarrow> mem SkipList \<Rightarrow> mem \<Rightarrow> bool" where
  "search_ok ucmp t key \<longleftrightarrow> list_all (\<lambda>n. KeyComparator ucmp (node_key n) key \<noteq> None) (tl (sl_nodes t))"

record MemTable =
  mt_refs :: int
  mt_arena :: Arena
  mt_table :: "mem SkipList"

text \<open>
  The memory of a skip list node: \<open>sizeof(Node)\<close> is 16, a key pointer and one link, and every
  further level is a link more.
\<close>

definition NewNode_memory :: "(region list \<Rightarrow> nat \<Rightarrow> nat) \<Rightarrow> Arena \<Rightarrow> nat \<Rightarrow> Arena option" where
  "NewNode_memory heap a h = map_option snd (Arena_AllocateAligned heap a (16 + 8 * (h - 1)))"

definition MemTable_new :: "(region list \<Rightarrow> nat \<Rightarrow> nat) \<Rightarrow> MemTable option" where
  "MemTable_new heap =
     do {
       a \<leftarrow> NewNode_memory heap Arena_new kMaxHeight;
       Some \<lparr>mt_refs = 0, mt_arena = a, mt_table = SkipList_new []\<rparr>
     }"

definition MemTable_Ref :: "MemTable \<Rightarrow> MemTable" where
  "MemTable_Ref m = m\<lparr>mt_refs := mt_refs m + 1\<rparr>"

text \<open>The destructor asserts that no reference is left; its arena frees the blocks.\<close>

definition MemTable_delete :: "MemTable \<Rightarrow> nat list option" where
  "MemTable_delete m = (if mt_refs m = 0 then Some (Arena_delete (mt_arena m)) else None)"

text \<open>\<open>Some None\<close>: the memtable has been deleted.\<close>

definition MemTable_Unref :: "MemTable \<Rightarrow> MemTable option option" where
  "MemTable_Unref m =
     (let m = m\<lparr>mt_refs := mt_refs m - 1\<rparr> in
      if \<not> mt_refs m \<ge> 0 then None
      else if mt_refs m \<le> 0 then do { _ \<leftarrow> MemTable_delete m; Some None }
      else Some (Some m))"

definition ApproximateMemoryUsage :: "MemTable \<Rightarrow> nat" where
  "ApproximateMemoryUsage m = Arena_MemoryUsage (mt_arena m)"

definition EncodeKey :: "bytes \<Rightarrow> mem" where
  "EncodeKey target = PutVarint32 [] (of_nat (length target)) @ target"

text \<open>
  The entry is written into \<open>encoded_len\<close> bytes of the arena; the assertion compares the end of
  what was written with the end of the buffer.
\<close>

definition MemTable_Add ::
  "(region list \<Rightarrow> nat \<Rightarrow> nat) \<Rightarrow> (bytes \<Rightarrow> bytes \<Rightarrow> int) \<Rightarrow> MemTable \<Rightarrow> u64 \<Rightarrow> ValueType \<Rightarrow> bytes \<Rightarrow> bytes \<Rightarrow>
   MemTable option" where
  "MemTable_Add heap ucmp m seq type key val =
     (let key_size = length key;
          val_size = length val;
          internal_key_size = key_size + 8;
          encoded_len = VarintLength (of_nat internal_key_size) + internal_key_size
            + VarintLength (of_nat val_size) + val_size;
          buf = EncodeVarint32 (of_nat internal_key_size) @ key
            @ EncodeFixed64 (push_bit 8 seq OR ucast (ValueType_byte type))
            @ EncodeVarint32 (of_nat val_size) @ val in
      do {
        (_, a) \<leftarrow> Arena_Allocate heap (mt_arena m) encoded_len;
        if \<not> length buf = encoded_len \<or> \<not> search_ok ucmp (mt_table m) buf then None
        else
          do {
            t \<leftarrow> SkipList_Insert (entry_compare ucmp) (mt_table m) buf;
            a \<leftarrow> NewNode_memory heap a (height t (length (sl_nodes t) - 1));
            Some (m\<lparr>mt_arena := a, mt_table := t\<rparr>)
          }
      })"

text \<open>The return value, \<open>*value\<close> and \<open>*s\<close>, the last two with the values the caller passed in.\<close>

definition MemTable_Get ::
  "(bytes \<Rightarrow> bytes \<Rightarrow> int) \<Rightarrow> MemTable \<Rightarrow> LookupKey \<Rightarrow> bytes \<Rightarrow> Status \<Rightarrow> (bool \<times> bytes \<times> Status) option" where
  "MemTable_Get ucmp m key val s =
     do {
       it \<leftarrow> (if search_ok ucmp (mt_table m) (memtable_key key)
             then Iterator_Seek (entry_compare ucmp) (mt_table m) (memtable_key key) else None);
       if Iterator_Valid it then
         do {
           entry \<leftarrow> Iterator_key (mt_table m) it;
           (key_length, key_ptr) \<leftarrow> GetVarint32Ptr entry 5;
           if ucmp (take (unat (key_length - 8)) key_ptr) (LookupKey_user_key key) = 0 then
             let tag = DecodeFixed64 (drop (unat (key_length - 8)) key_ptr);
                 t = ValueType_of_byte (ucast (tag AND 0xFF)) in
             (if t = kTypeValue then
                let v = GetLengthPrefixedSlice_ptr (drop (unat key_length) key_ptr) in
                Some (True, slice_bytes v, s)
              else if t = kTypeDeletion then Some (True, val, Status_NotFound [] [])
              else Some (False, val, s))
           else Some (False, val, s)
         }
       else Some (False, val, s)
     }"

text \<open>\<open>MemTableIterator\<close> delegates to the iterator of the skip list.\<close>

definition MemTableIterator_new :: "nat option" where
  "MemTableIterator_new = Iterator_new"

definition MemTable_NewIterator :: "MemTable \<Rightarrow> nat option" where
  "MemTable_NewIterator m = MemTableIterator_new"

definition MemTableIterator_Valid :: "nat option \<Rightarrow> bool" where
  "MemTableIterator_Valid it = Iterator_Valid it"

definition MemTableIterator_SeekToFirst :: "MemTable \<Rightarrow> nat option option" where
  "MemTableIterator_SeekToFirst m = Iterator_SeekToFirst (mt_table m)"

definition MemTableIterator_SeekToLast :: "MemTable \<Rightarrow> nat option option" where
  "MemTableIterator_SeekToLast m = Iterator_SeekToLast (mt_table m)"

definition MemTableIterator_Seek :: "(bytes \<Rightarrow> bytes \<Rightarrow> int) \<Rightarrow> MemTable \<Rightarrow> bytes \<Rightarrow> nat option option" where
  "MemTableIterator_Seek ucmp m target =
     (if search_ok ucmp (mt_table m) (EncodeKey target)
      then Iterator_Seek (entry_compare ucmp) (mt_table m) (EncodeKey target) else None)"

definition MemTableIterator_Next :: "MemTable \<Rightarrow> nat option \<Rightarrow> nat option option" where
  "MemTableIterator_Next m it = Iterator_Next (mt_table m) it"

definition MemTableIterator_Prev :: "(bytes \<Rightarrow> bytes \<Rightarrow> int) \<Rightarrow> MemTable \<Rightarrow> nat option \<Rightarrow> nat option option" where
  "MemTableIterator_Prev ucmp m it =
     do {
       entry \<leftarrow> Iterator_key (mt_table m) it;
       if search_ok ucmp (mt_table m) entry then Iterator_Prev (entry_compare ucmp) (mt_table m) it else None
     }"

definition MemTableIterator_key :: "MemTable \<Rightarrow> nat option \<Rightarrow> slice option" where
  "MemTableIterator_key m it = map_option GetLengthPrefixedSlice_ptr (Iterator_key (mt_table m) it)"

definition MemTableIterator_value :: "MemTable \<Rightarrow> nat option \<Rightarrow> slice option" where
  "MemTableIterator_value m it =
     do {
       entry \<leftarrow> Iterator_key (mt_table m) it;
       let key_slice = GetLengthPrefixedSlice_ptr entry in
       Some (GetLengthPrefixedSlice_ptr (drop (ssize key_slice) (sdata key_slice)))
     }"

definition MemTableIterator_status :: Status where
  "MemTableIterator_status = Status_OK"

section \<open>Entries\<close>

text \<open>Neither assertion fails while there is a reference, and the last one deletes the memtable.\<close>

lemma MemTable_Unref_held:
  "0 < mt_refs m \<Longrightarrow>
   MemTable_Unref m = Some (if mt_refs m = 1 then None else Some (m\<lparr>mt_refs := mt_refs m - 1\<rparr>))"
  by (auto simp: MemTable_Unref_def MemTable_delete_def Let_def)

text \<open>An update of the memtable and its entry.\<close>

record mt_update =
  u_seq :: u64
  u_type :: ValueType
  u_key :: bytes
  u_val :: bytes

definition u_ikey :: "mt_update \<Rightarrow> bytes" where
  "u_ikey u = ikey (u_key u) (tag_of (u_seq u) (u_type u))"

definition mt_entry :: "mt_update \<Rightarrow> mem" where
  "mt_entry u = EncodeVarint32 (of_nat (length (u_key u) + 8)) @ u_ikey u
     @ EncodeVarint32 (of_nat (length (u_val u))) @ u_val u"

definition u_small :: "mt_update \<Rightarrow> bool" where
  "u_small u \<longleftrightarrow> length (u_key u) + 8 < 2 ^ 32 \<and> length (u_val u) < 2 ^ 32"

lemma GetLengthPrefixedSlice_ptr_Encode:
  assumes "length k < 2 ^ 32"
  shows "GetLengthPrefixedSlice_ptr (EncodeVarint32 (of_nat (length k)) @ k @ r) = Slice_ptr (k @ r) (length k)"
  using GetVarint32Ptr_Encode [OF length_EncodeVarint32, of "of_nat (length k)" "k @ r"] assms
  by (simp add: GetLengthPrefixedSlice_ptr_def unat_of_nat_small)

lemma slice_bytes_ptr: "n = length k \<Longrightarrow> slice_bytes (Slice_ptr (k @ r) n) = k"
  by (simp add: slice_ToString_def Slice_ptr_def)

lemma entry_key: "u_small u \<Longrightarrow> slice_bytes (GetLengthPrefixedSlice_ptr (mt_entry u)) = u_ikey u"
  using GetLengthPrefixedSlice_ptr_Encode [of "u_ikey u"]
  by (simp add: u_small_def mt_entry_def u_ikey_def slice_bytes_ptr)

text \<open>The key a lookup seeks.\<close>

definition seek_key :: "bytes \<Rightarrow> u64 \<Rightarrow> mem" where
  "seek_key k tag = EncodeVarint32 (of_nat (length k + 8)) @ ikey k tag"

lemma lookup_entry_key:
  assumes "length u + 8 < 2 ^ 32"
  shows "slice_bytes (GetLengthPrefixedSlice_ptr (seek_key u t)) = ikey u t"
  unfolding seek_key_def
  using GetLengthPrefixedSlice_ptr_Encode [of "ikey u t" "[]"] slice_bytes_ptr [of "length u + 8" "ikey u t" "[]"] assms by simp

definition key_size_ok :: "mem \<Rightarrow> bool" where
  "key_size_ok p \<longleftrightarrow> 8 \<le> length (slice_bytes (GetLengthPrefixedSlice_ptr p))"

lemma KeyComparator_eq:
  "KeyComparator ucmp a b = (if key_size_ok a \<and> key_size_ok b then Some (entry_compare ucmp a b) else None)"
  by (simp add: KeyComparator_def entry_compare_def key_size_ok_def InternalKeyComparator_Compare_eq)

lemma key_size_ok_entry: "u_small u \<Longrightarrow> key_size_ok (mt_entry u)"
  by (simp add: key_size_ok_def entry_key u_ikey_def)

lemma key_size_ok_seek: "length k + 8 < 2 ^ 32 \<Longrightarrow> key_size_ok (seek_key k tag)"
  by (simp add: key_size_ok_def lookup_entry_key)

lemma entry_compare_nonzero: "entry_compare ucmp a b \<noteq> 0"
  unfolding entry_compare_def by (rule internal_compare_nonzero)

text \<open>A lawful user comparator gives the skip list what it needs.\<close>

sublocale key_order \<subseteq> mem: skip_order "entry_compare Compare"
  by unfold_locales (auto simp only: entry_compare_def ikc_irrefl intro: ikc_trans dest: ikc_not_less_trans)

section \<open>Adding entries\<close>

text \<open>
  The memtable holds the updates \<open>us\<close>: the skip list satisfies its invariant and its keys are the
  entries of the updates; the arena has handed out some regions.
\<close>

definition mt_holds :: "(bytes \<Rightarrow> bytes \<Rightarrow> int) \<Rightarrow> MemTable \<Rightarrow> mt_update list \<Rightarrow> bool" where
  "mt_holds ucmp m us \<longleftrightarrow>
     (\<exists>L. sl_inv (entry_compare ucmp) (mt_table m) L
        \<and> mset (sl_keys (mt_table m) L) = mset (map mt_entry us))
     \<and> (\<exists>rs. arena_inv (mt_arena m) rs) \<and> list_all u_small us"

text \<open>The entries are long enough for the comparator: a search fails its assertion exactly when it has
  something to compare and its own key is too short.\<close>

lemma inv_node_keys:
  assumes "sl_inv compare t L"
  shows "set (sl_keys t L) = node_key ` set (tl (sl_nodes t))"
proof -
  have "set (sl_keys t L) = (\<lambda>i. node_key (sl_nodes t ! i)) ` {0<..<length (sl_nodes t)}"
    using assms by (simp add: sl_keys_def sl_inv_def)
  also have "\<dots> = (\<lambda>i. node_key (tl (sl_nodes t) ! i)) ` {..<length (tl (sl_nodes t))}"
  proof -
    have "{0<..<length (sl_nodes t)} = Suc ` {..<length (tl (sl_nodes t))}"
      unfolding image_Suc_lessThan by auto
    then show ?thesis by (simp add: image_image nth_tl)
  qed
  also have "\<dots> = node_key ` set (tl (sl_nodes t))" by (auto simp: set_conv_nth)
  finally show ?thesis .
qed

lemma search_ok_holds:
  assumes "mt_holds ucmp m us"
  shows "search_ok ucmp (mt_table m) key \<longleftrightarrow> us = [] \<or> key_size_ok key"
proof -
  obtain L where L: "sl_inv (entry_compare ucmp) (mt_table m) L"
    "mset (sl_keys (mt_table m) L) = mset (map mt_entry us)" and small: "list_all u_small us"
    using assms by (auto simp: mt_holds_def)
  have keys: "node_key ` set (tl (sl_nodes (mt_table m))) = mt_entry ` set us"
    using inv_node_keys [OF L(1)] mset_eq_setD [OF L(2)] by simp
  have ok: "key_size_ok (node_key n)" if "n \<in> set (tl (sl_nodes (mt_table m)))" for n
  proof -
    have "node_key n \<in> mt_entry ` set us" using keys that by blast
    with small show ?thesis by (auto simp: list_all_iff key_size_ok_entry)
  qed
  have "tl (sl_nodes (mt_table m)) = [] \<longleftrightarrow> us = []" using keys by (metis image_is_empty set_empty)
  with ok show ?thesis by (cases "tl (sl_nodes (mt_table m))") (auto simp: search_ok_def KeyComparator_eq list_all_iff)
qed

lemma NewNode_memory_ok:
  assumes "heap_alloc heap" and "arena_inv a rs" and "h \<le> kMaxHeight"
  shows "\<exists>a' rs'. NewNode_memory heap a h = Some a' \<and> arena_inv a' rs'"
  using heap_alloc.AllocateAligned_ok [OF assms(1,2), of "16 + 8 * (h - 1)"] assms(3)
  by (fastforce simp: NewNode_memory_def kMaxHeight_def)

lemma MemTable_new_holds:
  assumes "heap_alloc heap"
  shows "\<exists>m. MemTable_new heap = Some m \<and> mt_holds ucmp m []"
  using NewNode_memory_ok [OF assms arena_inv_new, of kMaxHeight] SkipList_new_inv
  by (fastforce simp: MemTable_new_def mt_holds_def sl_keys_def)

lemma entry_buffer:
  "EncodeVarint32 (of_nat (length (u_key u) + 8)) @ u_key u
     @ EncodeFixed64 (push_bit 8 (u_seq u) OR ucast (ValueType_byte (u_type u)))
     @ EncodeVarint32 (of_nat (length (u_val u))) @ u_val u = mt_entry u"
  by (simp add: mt_entry_def u_ikey_def ikey_def tag_of_def)

lemma entry_length:
  assumes "u_small u"
  shows "length (mt_entry u) = VarintLength (of_nat (length (u_key u) + 8)) + (length (u_key u) + 8)
    + VarintLength (of_nat (length (u_val u))) + length (u_val u)"
proof -
  have v: "length (EncodeVarint32 (of_nat n)) = VarintLength (of_nat n)" if "n < 2 ^ 32" for n
    using that by (simp add: EncodeVarint32_varint VarintLength_varint unat_of_nat)
  show ?thesis
    using assms v [of "length (u_key u) + 8"] v [of "length (u_val u)"]
    by (simp add: u_small_def mt_entry_def u_ikey_def del: of_nat_add)
qed

fun MemTable_AddAll ::
  "(region list \<Rightarrow> nat \<Rightarrow> nat) \<Rightarrow> (bytes \<Rightarrow> bytes \<Rightarrow> int) \<Rightarrow> MemTable \<Rightarrow> mt_update list \<Rightarrow> MemTable option" where
  "MemTable_AddAll heap ucmp m [] = Some m"
| "MemTable_AddAll heap ucmp m (u # us) =
     do {
       m \<leftarrow> MemTable_Add heap ucmp m (u_seq u) (u_type u) (u_key u) (u_val u);
       MemTable_AddAll heap ucmp m us
     }"

context key_order
begin

lemma Add_holds:
  assumes heap: "heap_alloc heap" and m: "mt_holds Compare m us" and u: "u_small u"
  shows "\<exists>m'. MemTable_Add heap Compare m (u_seq u) (u_type u) (u_key u) (u_val u) = Some m'
    \<and> mt_holds Compare m' (us @ [u]) \<and> mt_refs m' = mt_refs m"
proof -
  obtain L rs where L: "sl_inv (entry_compare Compare) (mt_table m) L"
    "mset (sl_keys (mt_table m) L) = mset (map mt_entry us)" and rs: "arena_inv (mt_arena m) rs"
    using m by (auto simp: mt_holds_def)
  obtain t L' where t: "SkipList_Insert (entry_compare Compare) (mt_table m) (mt_entry u) = Some t"
    "sl_inv (entry_compare Compare) t L'"
    "sl_keys t L' = ordered_insert (entry_compare Compare) (mt_entry u) (sl_keys (mt_table m) L)"
    using mem.Insert_refines [OF L(1), of "mt_entry u"] entry_compare_nonzero by blast
  have pos: "0 < length (mt_entry u)" by (simp add: mt_entry_def u_ikey_def ikey_def)
  obtain p a rs1 where a: "Arena_Allocate heap (mt_arena m) (length (mt_entry u)) = Some (p, a)" "arena_inv a rs1"
    using heap_alloc.Allocate_ok [OF heap rs pos] by blast
  have h: "height t (length (sl_nodes t) - 1) \<le> kMaxHeight"
    using t(2) by (rule sl_inv_last_height)
  obtain a' rs2 where a': "NewNode_memory heap a (height t (length (sl_nodes t) - 1)) = Some a'" "arena_inv a' rs2"
    using NewNode_memory_ok [OF heap a(2) h] by blast
  have "MemTable_Add heap Compare m (u_seq u) (u_type u) (u_key u) (u_val u) = Some (m\<lparr>mt_arena := a', mt_table := t\<rparr>)"
    unfolding MemTable_Add_def Let_def entry_buffer entry_length [OF u, symmetric]
    using a(1) a'(1) t(1) search_ok_holds [OF m] key_size_ok_entry [OF u] by simp
  moreover have "mset (sl_keys t L') = mset (map mt_entry (us @ [u]))" using t(3) L(2) by simp
  ultimately show ?thesis
    using t(2) a'(2) m u by (auto simp: mt_holds_def)
qed

lemma AddAll_holds:
  assumes heap: "heap_alloc heap" and "mt_holds Compare m vs" and "list_all u_small us"
  shows "\<exists>m'. MemTable_AddAll heap Compare m us = Some m' \<and> mt_holds Compare m' (vs @ us)"
  using assms(2,3)
proof (induction us arbitrary: m vs)
  case (Cons u us)
  then obtain m1 where "MemTable_Add heap Compare m (u_seq u) (u_type u) (u_key u) (u_val u) = Some m1"
    "mt_holds Compare m1 (vs @ [u])"
    using Add_holds [OF heap, of m vs u] by auto
  with Cons.IH [of m1 "vs @ [u]"] Cons.prems(2) show ?case by auto
qed auto

end

section \<open>Lookup\<close>

text \<open>The specification of a lookup: of the updates of the key that are visible at the sequence
  number, the one with the greatest.\<close>

fun newest :: "mt_update list \<Rightarrow> bytes \<Rightarrow> u64 \<Rightarrow> mt_update option" where
  "newest [] k s = None"
| "newest (u # us) k s =
     (let r = newest us k s in
      if u_key u = k \<and> u_seq u \<le> s \<and> (case r of None \<Rightarrow> True | Some v \<Rightarrow> u_seq v < u_seq u)
      then Some u else r)"

lemma newest_None: "newest us k s = None \<longleftrightarrow> (\<forall>u \<in> set us. \<not> (u_key u = k \<and> u_seq u \<le> s))"
  by (induction us) (auto simp: Let_def split: option.splits)

lemma newest_Some:
  "newest us k s = Some v \<Longrightarrow> v \<in> set us \<and> u_key v = k \<and> u_seq v \<le> s
     \<and> (\<forall>u \<in> set us. u_key u = k \<and> u_seq u \<le> s \<longrightarrow> u_seq u \<le> u_seq v)"
proof (induction us arbitrary: v)
  case (Cons u us)
  show ?case
  proof (cases "newest us k s")
    case None
    with Cons.prems have "u = v" "u_key u = k" "u_seq u \<le> s" by (auto simp: Let_def split: if_splits)
    with None newest_None [of us k s] show ?thesis by auto
  next
    case (Some w)
    with Cons.IH have w: "w \<in> set us \<and> u_key w = k \<and> u_seq w \<le> s
      \<and> (\<forall>u \<in> set us. u_key u = k \<and> u_seq u \<le> s \<longrightarrow> u_seq u \<le> u_seq w)" by blast
    show ?thesis
    proof (cases "u_key u = k \<and> u_seq u \<le> s \<and> u_seq w < u_seq u")
      case True
      with Some Cons.prems have "v = u" by simp
      with True w show ?thesis by (auto intro: order_trans less_imp_le)
    next
      case False
      with Some Cons.prems have "v = w" by (auto simp: Let_def split: if_splits)
      with False w show ?thesis by (auto simp: not_less)
    qed
  qed
qed simp

definition get_result :: "mt_update option \<Rightarrow> bytes \<Rightarrow> Status \<Rightarrow> bool \<times> bytes \<times> Status" where
  "get_result r val s =
     (case r of
        None \<Rightarrow> (False, val, s)
      | Some u \<Rightarrow> if u_type u = kTypeValue then (True, u_val u, s) else (True, val, Status_NotFound [] []))"

text \<open>The first match of a sorted list is a least one.\<close>

lemma first_filter_sorted:
  assumes "sorted_wrt (\<lambda>a b. \<not> R b a) ks" and "first_opt (filter Q ks) = Some k" and "\<not> R k k"
  shows "k \<in> set ks \<and> Q k \<and> (\<forall>k' \<in> set ks. Q k' \<longrightarrow> \<not> R k' k)"
  using assms by (induction ks) (auto split: if_splits)

lemma first_opt_None: "first_opt xs = None \<longleftrightarrow> xs = []"
  by (cases xs) simp_all

lemma first_opt_map: "first_opt (map f xs) = map_option f (first_opt xs)"
  by (cases xs) simp_all

text \<open>Reading the entry the search stops at.\<close>

lemma entry_fields:
  assumes "u_small u"
  defines "kl \<equiv> of_nat (length (u_key u) + 8) :: u32"
  shows "\<exists>p. GetVarint32Ptr (mt_entry u) 5 = Some (kl, p) \<and> take (unat (kl - 8)) p = u_key u
    \<and> DecodeFixed64 (drop (unat (kl - 8)) p) = tag_of (u_seq u) (u_type u)
    \<and> slice_bytes (GetLengthPrefixedSlice_ptr (drop (unat kl) p)) = u_val u"
proof -
  let ?p = "u_ikey u @ EncodeVarint32 (of_nat (length (u_val u))) @ u_val u"
  have "GetVarint32Ptr (mt_entry u) 5 = Some (kl, ?p)"
    unfolding mt_entry_def kl_def by (rule GetVarint32Ptr_Encode [OF length_EncodeVarint32])
  moreover have kl: "unat kl = length (u_key u) + 8" "unat (kl - 8) = length (u_key u)"
    using assms(1) by (simp_all add: kl_def u_small_def unat_word_ariths unat_of_nat)
  moreover have "slice_bytes (GetLengthPrefixedSlice_ptr (drop (unat kl) ?p)) = u_val u"
    using GetLengthPrefixedSlice_ptr_Encode [of "u_val u" "[]"] slice_bytes_ptr [of _ "u_val u" "[]"] assms(1) kl(1)
    by (simp add: u_ikey_def u_small_def)
  moreover have "take (unat (kl - 8)) ?p = u_key u" using kl by (simp add: u_ikey_def ikey_def)
  moreover have "DecodeFixed64 (drop (unat (kl - 8)) ?p) = tag_of (u_seq u) (u_type u)"
    using kl by (simp add: u_ikey_def ikey_def)
  ultimately show ?thesis by blast
qed

definition u_wf :: "mt_update \<Rightarrow> bool" where
  "u_wf u \<longleftrightarrow> u_small u \<and> u_seq u \<le> kMaxSequenceNumber \<and> (u_type u = kTypeDeletion \<or> u_type u = kTypeValue)"

lemma tag_seq_le:
  assumes "s \<le> kMaxSequenceNumber" and "q \<le> kMaxSequenceNumber" and "t = kTypeDeletion \<or> t = kTypeValue"
  shows "tag_of q t \<le> tag_of s kTypeValue \<longleftrightarrow> q \<le> s"
proof -
  have "unat (ValueType_byte t) \<le> 1" using assms(3) by auto
  then show ?thesis
    using unat_tag_of [OF assms(1), of kTypeValue] unat_tag_of [OF assms(2), of t]
    unfolding word_le_nat_alt by simp presburger
qed

lemma type_of_tag: "t = kTypeDeletion \<or> t = kTypeValue \<Longrightarrow> ValueType_of_byte (ucast (tag_of q t AND 0xFF)) = t"
  unfolding low_byte_tag_of by (auto simp: ValueType_of_byte_def)

context key_order
begin

text \<open>Where a lookup stops: nowhere, or at an entry that is least among those not before the
  lookup key.\<close>

lemma Seek_stops:
  assumes m: "mt_holds Compare m us"
  obtains it where "Iterator_Seek (entry_compare Compare) (mt_table m) target = Some it"
    "it = None \<Longrightarrow> (\<forall>u \<in> set us. entry_compare Compare (mt_entry u) target < 0)"
    "\<And>x. it = Some x \<Longrightarrow> \<exists>u \<in> set us. Iterator_key (mt_table m) it = Some (mt_entry u)
      \<and> \<not> entry_compare Compare (mt_entry u) target < 0
      \<and> (\<forall>v \<in> set us. \<not> entry_compare Compare (mt_entry v) target < 0 \<longrightarrow>
           \<not> entry_compare Compare (mt_entry v) (mt_entry u) < 0)"
proof -
  let ?C = "entry_compare Compare" and ?t = "mt_table m"
  let ?Q = "\<lambda>k. \<not> ?C k target < 0"
  obtain L where L: "sl_inv ?C ?t L" "mset (sl_keys ?t L) = mset (map mt_entry us)"
    using m by (auto simp: mt_holds_def)
  have set: "set (sl_keys ?t L) = mt_entry ` set us" using L(2) by (metis set_map set_mset_mset)
  let ?it = "first_opt (dropWhile (\<lambda>x. ?C (key_of ?t x) target < 0) L)"
  have key: "map_option (key_of ?t) ?it = first_opt (filter ?Q (sl_keys ?t L))"
    unfolding initial_dropWhile [OF mem.initial_below [OF L(1)]] first_opt_map [symmetric]
    by (simp add: sl_keys_def filter_map comp_def)
  show thesis
  proof (rule that [OF mem.Iterator_Seek_eq [OF L(1)]])
    assume "?it = None"
    then have "first_opt (filter ?Q (sl_keys ?t L)) = None" using key by (simp only: option.map)
    then have "filter ?Q (sl_keys ?t L) = []" by (simp only: first_opt_None)
    with set show "\<forall>u \<in> set us. ?C (mt_entry u) target < 0" by (auto simp: filter_empty_conv)
  next
    fix x
    assume x: "?it = Some x"
    with key have f: "first_opt (filter ?Q (sl_keys ?t L)) = Some (key_of ?t x)" by simp
    have "key_of ?t x \<in> set (sl_keys ?t L) \<and> ?Q (key_of ?t x)
      \<and> (\<forall>k' \<in> set (sl_keys ?t L). ?Q k' \<longrightarrow> \<not> ?C k' (key_of ?t x) < 0)"
      by (rule first_filter_sorted [where R = "\<lambda>a b. ?C a b < 0", OF sl_inv_sorted [OF L(1)] f mem.less_irrefl])
    then obtain u where "u \<in> set us" "key_of ?t x = mt_entry u" "?Q (mt_entry u)"
      "\<forall>v \<in> set us. ?Q (mt_entry v) \<longrightarrow> \<not> ?C (mt_entry v) (mt_entry u) < 0"
      unfolding set by auto
    with x show "\<exists>u \<in> set us. Iterator_key ?t ?it = Some (mt_entry u) \<and> \<not> ?C (mt_entry u) target < 0
      \<and> (\<forall>v \<in> set us. \<not> ?C (mt_entry v) target < 0 \<longrightarrow> \<not> ?C (mt_entry v) (mt_entry u) < 0)"
      by (auto simp: Iterator_key_def Iterator_Valid_def)
  qed
qed

lemma entries_less:
  assumes "u_small u" and "u_small v"
  shows "entry_compare Compare (mt_entry u) (mt_entry v) < 0 \<longleftrightarrow>
    Compare (u_key u) (u_key v) < 0
    \<or> Compare (u_key u) (u_key v) = 0 \<and> tag_of (u_seq v) (u_type v) < tag_of (u_seq u) (u_type u)"
  using assms by (simp add: entry_compare_def entry_key internal_compare_less u_ikey_def)

lemma entry_target_less:
  assumes "u_small u" and "length k + 8 < 2 ^ 32"
  shows "entry_compare Compare (mt_entry u) (seek_key k tag) < 0 \<longleftrightarrow>
    Compare (u_key u) k < 0 \<or> Compare (u_key u) k = 0 \<and> tag < tag_of (u_seq u) (u_type u)"
  using assms by (simp add: entry_compare_def entry_key lookup_entry_key internal_compare_less u_ikey_def)

lemma u_wfD:
  assumes "u_wf u"
  shows "u_small u" "u_seq u \<le> kMaxSequenceNumber" "u_type u = kTypeDeletion \<or> u_type u = kTypeValue"
  using assms by (auto simp: u_wf_def)

text \<open>The entries that a search does not pass.\<close>

lemma entry_not_passed:
  assumes "\<And>a. Compare a a = 0" and "u_wf u" and "length k + 8 < 2 ^ 32" and "s \<le> kMaxSequenceNumber"
  shows "\<not> entry_compare Compare (mt_entry u) (seek_key k (tag_of s kTypeValue)) < 0 \<longleftrightarrow>
    (if u_key u = k then u_seq u \<le> s else \<not> Compare (u_key u) k < 0)"
  using assms(1) Compare_zero [of "u_key u" k] tag_seq_le [OF assms(4) u_wfD(2,3) [OF assms(2)]]
  by (auto simp: entry_target_less [OF u_wfD(1) [OF assms(2)] assms(3)] not_less)

text \<open>The least of them is the newest update of the key, if it is one of the key at all.\<close>

lemma newest_is_least:
  assumes refl: "\<And>a. Compare a a = 0" and wf: "list_all u_wf us" and dist: "distinct (map u_seq us)"
    and k: "length k + 8 < 2 ^ 32" and s: "s \<le> kMaxSequenceNumber" and u: "u \<in> set us"
    and vis: "\<not> entry_compare Compare (mt_entry u) (seek_key k (tag_of s kTypeValue)) < 0"
    and least: "\<And>v. v \<in> set us \<Longrightarrow> \<not> entry_compare Compare (mt_entry v) (seek_key k (tag_of s kTypeValue)) < 0 \<Longrightarrow>
         \<not> entry_compare Compare (mt_entry v) (mt_entry u) < 0"
  shows "newest us k s = (if u_key u = k then Some u else None)"
proof -
  have wfs: "u_wf v" if "v \<in> set us" for v using that wf by (simp add: list_all_iff)
  note visible = entry_not_passed [OF refl wfs k s] and less = entries_less [OF u_wfD(1) [OF wfs] u_wfD(1) [OF wfs [OF u]]]
  show ?thesis
  proof (cases "u_key u = k")
    case True
    with vis visible [OF u] have seq: "u_seq u \<le> s" by simp
    have max: "u_seq v \<le> u_seq u" if "v \<in> set us" "u_key v = k" "u_seq v \<le> s" for v
    proof -
      have "\<not> tag_of (u_seq u) (u_type u) < tag_of (u_seq v) (u_type v)"
        using least [OF that(1)] visible [OF that(1)] that True refl by (simp add: less)
      then show ?thesis
        using tag_of_less [OF _ u_wfD(2) [OF wfs [OF that(1)]]] by (meson not_less)
    qed
    obtain v where v: "newest us k s = Some v" using newest_None [of us k s] True seq u by blast
    with newest_Some [OF v] max [of v] True seq u have "u_seq v = u_seq u" "v \<in> set us" by (auto intro: antisym)
    then have "v = u" using dist u by (metis distinct_map inj_onD)
    with v True show ?thesis by simp
  next
    case False
    then have above: "Compare k (u_key u) < 0"
      using vis visible [OF u] Compare_total by metis
    have "newest us k s = None"
      unfolding newest_None
    proof (intro ballI notI)
      fix v
      assume v: "v \<in> set us" "u_key v = k \<and> u_seq v \<le> s"
      with least [OF v(1)] visible [OF v(1)] above show False by (simp add: less)
    qed
    with False show ?thesis by simp
  qed
qed

lemma Get_newest:
  assumes refl: "\<And>a. Compare a a = 0" and m: "mt_holds Compare m us" and wf: "list_all u_wf us"
    and dist: "distinct (map u_seq us)" and k: "length k + 8 < 2 ^ 32" and s: "s \<le> kMaxSequenceNumber"
    and lk: "LookupKey_new k s = Some lk"
  shows "MemTable_Get Compare m lk val st = Some (get_result (newest us k s) val st)"
proof -
  let ?target = "seek_key k (tag_of s kTypeValue)"
  have target: "memtable_key lk = ?target" "LookupKey_user_key lk = k"
    using LookupKey_new_Some [OF s, of k] lk by (auto simp: seek_key_def)
  have checked: "search_ok Compare (mt_table m) ?target" using search_ok_holds [OF m] key_size_ok_seek [OF k] by simp
  obtain it where it: "Iterator_Seek (entry_compare Compare) (mt_table m) ?target = Some it"
    "it = None \<Longrightarrow> (\<forall>u \<in> set us. entry_compare Compare (mt_entry u) ?target < 0)"
    "\<And>x. it = Some x \<Longrightarrow> \<exists>u \<in> set us. Iterator_key (mt_table m) it = Some (mt_entry u)
      \<and> \<not> entry_compare Compare (mt_entry u) ?target < 0
      \<and> (\<forall>v \<in> set us. \<not> entry_compare Compare (mt_entry v) ?target < 0 \<longrightarrow>
           \<not> entry_compare Compare (mt_entry v) (mt_entry u) < 0)"
    using Seek_stops [OF m, of ?target] by blast
  show ?thesis
  proof (cases it)
    case None
    then have "newest us k s = None"
      using it(2) entry_not_passed [OF refl _ k s] wf unfolding newest_None by (fastforce simp: list_all_iff)
    with None it(1) target checked show ?thesis by (simp add: MemTable_Get_def Iterator_Valid_def get_result_def)
  next
    case (Some x)
    then obtain u where u: "u \<in> set us" "Iterator_key (mt_table m) it = Some (mt_entry u)"
      and newest: "newest us k s = (if u_key u = k then Some u else None)"
      using it(3) newest_is_least [OF refl wf dist k s] by blast
    have "u_wf u" using wf u(1) by (simp add: list_all_iff)
    note wfD = u_wfD [OF this]
    obtain p kl where p: "GetVarint32Ptr (mt_entry u) 5 = Some (kl, p)" "take (unat (kl - 8)) p = u_key u"
      "DecodeFixed64 (drop (unat (kl - 8)) p) = tag_of (u_seq u) (u_type u)"
      "slice_bytes (GetLengthPrefixedSlice_ptr (drop (unat kl) p)) = u_val u"
      using entry_fields [OF wfD(1)] by blast
    have "MemTable_Get Compare m lk val st =
        Some (if u_key u = k then get_result (Some u) val st else (False, val, st))"
      using it(1) Some u p target checked refl Compare_zero [of "u_key u" k] wfD(3) type_of_tag [OF wfD(3)]
      by (auto simp: MemTable_Get_def Iterator_Valid_def Let_def get_result_def)
    then show ?thesis using newest by (simp add: get_result_def)
  qed
qed

end

section \<open>Properties\<close>

text \<open>C3. A memtable answers with the newest visible update.  For a lawful user comparator that
  returns 0 on equal keys: adding any updates with distinct sequence numbers to a new memtable returns,
  without a failed assertion; a \<open>Get\<close> of a key at a sequence number then finds the update of that key
  with the greatest sequence number not above the given one, returns its value, or \<open>NotFound\<close> for a
  deletion, and returns false without touching its out parameters when there is none.\<close>

theorem get_finds_newest_visible:
  assumes "heap_alloc heap" and "key_order ucmp" and "\<And>a. ucmp a a = 0"
    and "list_all u_wf us" and "distinct (map u_seq us)"
    and "length k + 8 < 2 ^ 32" and "s \<le> kMaxSequenceNumber"
  shows "\<exists>m0 m lk. MemTable_new heap = Some m0 \<and> MemTable_AddAll heap ucmp m0 us = Some m
    \<and> LookupKey_new k s = Some lk
    \<and> MemTable_Get ucmp m lk val st = Some (get_result (newest us k s) val st)"
proof -
  obtain m0 where m0: "MemTable_new heap = Some m0" "mt_holds ucmp m0 []"
    using MemTable_new_holds [OF assms(1)] by blast
  have "list_all u_small us" using assms(4) by (simp add: list_all_iff u_wf_def)
  then obtain m where m: "MemTable_AddAll heap ucmp m0 us = Some m" "mt_holds ucmp m us"
    using key_order.AddAll_holds [OF assms(2,1) m0(2)] by auto
  obtain lk where lk: "LookupKey_new k s = Some lk"
    using LookupKey_new_Some [OF assms(7), of k] by blast
  from key_order.Get_newest [OF assms(2,3) m(2) assms(4-7) lk] m0 m lk show ?thesis by blast
qed

text \<open>The lexicographic comparator that returns 0 on equal keys.\<close>

definition lex_compare :: "bytes \<Rightarrow> bytes \<Rightarrow> int" where
  "lex_compare a b = (if a = b then 0 else if a < b then -1 else 1)"

lemma lex_compare_order: "key_order lex_compare"
  by unfold_locales (auto simp: lex_compare_def split: if_splits)

theorem get_finds_newest_visible_witness:
  "\<exists>m0 m lk. MemTable_new bump_heap = Some m0
    \<and> MemTable_AddAll bump_heap lex_compare m0
        [\<lparr>u_seq = 1, u_type = kTypeValue, u_key = [7], u_val = [1]\<rparr>,
         \<lparr>u_seq = 2, u_type = kTypeValue, u_key = [7], u_val = [2]\<rparr>,
         \<lparr>u_seq = 3, u_type = kTypeDeletion, u_key = [7], u_val = []\<rparr>] = Some m
    \<and> LookupKey_new [7] 2 = Some lk
    \<and> MemTable_Get lex_compare m lk [] Status_OK = Some (True, [2], Status_OK)"
proof -
  let ?us = "[\<lparr>u_seq = 1, u_type = kTypeValue, u_key = [7], u_val = [1]\<rparr>,
         \<lparr>u_seq = 2, u_type = kTypeValue, u_key = [7], u_val = [2]\<rparr>,
         \<lparr>u_seq = 3, u_type = kTypeDeletion, u_key = [7], u_val = []\<rparr>]"
  have max: "(2 :: u64) \<le> kMaxSequenceNumber" "(1 :: u64) \<le> kMaxSequenceNumber" "(3 :: u64) \<le> kMaxSequenceNumber"
    by (simp_all add: kMaxSequenceNumber_def)
  then have wf: "list_all u_wf ?us" by (simp add: u_wf_def u_small_def)
  have dist: "distinct (map u_seq ?us)" by simp
  have refl: "lex_compare a a = 0" for a by (simp add: lex_compare_def)
  have res: "get_result (newest ?us [7] 2) [] Status_OK = (True, [2], Status_OK)"
    by (simp add: get_result_def Let_def)
  have len: "length [7 :: byte] + 8 < 2 ^ 32" by simp
  show ?thesis
    using get_finds_newest_visible [OF bump.heap_alloc_axioms lex_compare_order refl wf dist len max(1),
        of "[]" Status_OK]
    unfolding res .
qed

text \<open>C30. With the comparator of the library, a memtable never finds anything: because
  \<open>BytewiseComparator\<close> does not return 0 for equal keys, every \<open>Get\<close> on a memtable over it that holds
  any updates returns, and returns false with its out parameters untouched; only a lookup key of fewer than
  eight bytes, which no \<open>LookupKey\<close> of an ordinary length has, fails the assertion of \<open>ExtractUserKey\<close>.\<close>

theorem get_with_bytewise_comparator_finds_nothing:
  assumes "mt_holds Bytewise_Compare m us"
  shows "MemTable_Get Bytewise_Compare m lk val st =
    (if us = [] \<or> key_size_ok (memtable_key lk) then Some (False, val, st) else None)"
proof (rule bytewise.Seek_stops [OF assms, of "memtable_key lk"])
  fix it
  assume it: "Iterator_Seek (entry_compare Bytewise_Compare) (mt_table m) (memtable_key lk) = Some it"
    and "\<And>x. it = Some x \<Longrightarrow> \<exists>u \<in> set us. Iterator_key (mt_table m) it = Some (mt_entry u)
      \<and> \<not> entry_compare Bytewise_Compare (mt_entry u) (memtable_key lk) < 0
      \<and> (\<forall>v \<in> set us. \<not> entry_compare Bytewise_Compare (mt_entry v) (memtable_key lk) < 0 \<longrightarrow>
           \<not> entry_compare Bytewise_Compare (mt_entry v) (mt_entry u) < 0)"
  then have key: "\<exists>u \<in> set us. Iterator_key (mt_table m) it = Some (mt_entry u)" if "it = Some x" for x
    using that by blast
  note checked = search_ok_holds [OF assms, of "memtable_key lk"]
  show ?thesis
  proof (cases it)
    case None
    with it checked show ?thesis by (simp add: MemTable_Get_def Iterator_Valid_def)
  next
    case (Some x)
    with key obtain u where u: "u \<in> set us" "Iterator_key (mt_table m) it = Some (mt_entry u)" by blast
    then have "u_small u" using assms by (simp add: mt_holds_def list_all_iff)
    then obtain p kl where "GetVarint32Ptr (mt_entry u) 5 = Some (kl, p)" using entry_fields by blast
    with it u(2) Some checked show ?thesis
      by (simp add: MemTable_Get_def Iterator_Valid_def Bytewise_Compare_nonzero)
  qed
qed

theorem get_with_bytewise_comparator_finds_nothing_witness:
  "\<exists>m0 m. MemTable_new bump_heap = Some m0
    \<and> MemTable_Add bump_heap Bytewise_Compare m0 1 kTypeValue [7] [1] = Some m
    \<and> MemTable_Get Bytewise_Compare m
        \<lparr>lk_bytes = seek_key [7] (tag_of 1 kTypeValue), lk_kstart = 1, lk_inline = True, lk_capacity = 200\<rparr>
        [] Status_OK = Some (False, [], Status_OK)"
proof -
  let ?u = "\<lparr>u_seq = 1, u_type = kTypeValue, u_key = [7], u_val = [1]\<rparr>"
  obtain m0 where m0: "MemTable_new bump_heap = Some m0" "mt_holds Bytewise_Compare m0 []"
    using MemTable_new_holds [OF bump.heap_alloc_axioms] by blast
  have "u_small ?u" by (simp add: u_small_def)
  from bytewise.Add_holds [OF bump.heap_alloc_axioms m0(2) this] obtain m where
    m: "MemTable_Add bump_heap Bytewise_Compare m0 1 kTypeValue [7] [1] = Some m" "mt_holds Bytewise_Compare m [?u]"
    by auto
  have "key_size_ok (seek_key [7] (tag_of 1 kTypeValue))" by (rule key_size_ok_seek) simp
  with get_with_bytewise_comparator_finds_nothing [OF m(2)] m0(1) m(1) show ?thesis
    by (auto simp: memtable_key_def)
qed

end
