(* ===== verification/Iterator.thy ===== *)
theory Iterator
  imports Status "HOL-Library.Monad_Syntax"
begin

text \<open>
  \<open>iterator/iterator.h\<close> and \<open>iterator/iterator.cpp\<close>: the cleanup functions of an iterator, kept in a list whose
  first node is part of the object and whose other nodes are allocated, the iterator that is empty, and
  the interface of iterators as a locale.

  The allocated nodes are in an explicit heap, and the address that \<open>new\<close> returns is an argument.  Functions
  and their arguments are numbers; the calls are recorded in order.  A failing assertion and the use of a
  freed node are \<open>None\<close>.
\<close>

section \<open>Cleanup functions\<close>

record CleanupNode =
  cn_function :: "nat option"
  cn_arg1 :: nat
  cn_arg2 :: nat
  cn_next :: "nat option"

definition CleanupNode_IsEmpty :: "CleanupNode \<Rightarrow> bool" where
  "CleanupNode_IsEmpty n \<longleftrightarrow> cn_function n = None"

definition CleanupNode_Run :: "CleanupNode \<Rightarrow> (nat \<times> nat \<times> nat) option" where
  "CleanupNode_Run n = map_option (\<lambda>f. (f, cn_arg1 n, cn_arg2 n)) (cn_function n)"

record IteratorBase =
  cleanup_head :: CleanupNode
  it_heap :: "nat \<Rightarrow> CleanupNode option"
  it_calls :: "(nat \<times> nat \<times> nat) list"

text \<open>The constructor leaves the arguments of the first node as they are.\<close>

definition IteratorBase_new :: "nat \<Rightarrow> nat \<Rightarrow> IteratorBase" where
  "IteratorBase_new garbage1 garbage2 =
     \<lparr>cleanup_head = \<lparr>cn_function = None, cn_arg1 = garbage1, cn_arg2 = garbage2, cn_next = None\<rparr>,
      it_heap = (\<lambda>_. None), it_calls = []\<rparr>"

definition RegisterCleanup :: "IteratorBase \<Rightarrow> nat option \<Rightarrow> nat \<Rightarrow> nat \<Rightarrow> nat \<Rightarrow> IteratorBase option" where
  "RegisterCleanup it function arg1 arg2 a =
     (if function = None then None
      else if CleanupNode_IsEmpty (cleanup_head it) then
        Some (it\<lparr>cleanup_head := (cleanup_head it)\<lparr>cn_function := function, cn_arg1 := arg1, cn_arg2 := arg2\<rparr>\<rparr>)
      else if it_heap it a \<noteq> None then None
      else
        let node = \<lparr>cn_function = function, cn_arg1 = arg1, cn_arg2 = arg2, cn_next = cn_next (cleanup_head it)\<rparr> in
        Some (it\<lparr>it_heap := (it_heap it)(a \<mapsto> node), cleanup_head := (cleanup_head it)\<lparr>cn_next := Some a\<rparr>\<rparr>))"

partial_function (option) cleanup_loop :: "IteratorBase \<Rightarrow> nat option \<Rightarrow> IteratorBase option" where
  "cleanup_loop it node =
     (case node of
        None \<Rightarrow> Some it
      | Some a \<Rightarrow>
          do {
            n \<leftarrow> it_heap it a;
            r \<leftarrow> CleanupNode_Run n;
            cleanup_loop (it\<lparr>it_calls := it_calls it @ [r], it_heap := (it_heap it)(a := None)\<rparr>) (cn_next n)
          })"

definition IteratorBase_delete :: "IteratorBase \<Rightarrow> IteratorBase option" where
  "IteratorBase_delete it =
     (if CleanupNode_IsEmpty (cleanup_head it) then Some it
      else
        do {
          r \<leftarrow> CleanupNode_Run (cleanup_head it);
          cleanup_loop (it\<lparr>it_calls := it_calls it @ [r]\<rparr>) (cn_next (cleanup_head it))
        })"

section \<open>The empty iterator\<close>

record EmptyIterator =
  ei_base :: IteratorBase
  ei_status :: Status

definition NewErrorIterator :: "nat \<Rightarrow> nat \<Rightarrow> Status \<Rightarrow> EmptyIterator" where
  "NewErrorIterator garbage1 garbage2 s = \<lparr>ei_base = IteratorBase_new garbage1 garbage2, ei_status = Status_copy s\<rparr>"

definition NewEmptyIterator :: "nat \<Rightarrow> nat \<Rightarrow> EmptyIterator" where
  "NewEmptyIterator garbage1 garbage2 = NewErrorIterator garbage1 garbage2 Status_OK"

definition EmptyIterator_Valid :: "EmptyIterator \<Rightarrow> bool" where
  "EmptyIterator_Valid it = False"

definition EmptyIterator_SeekToFirst :: "EmptyIterator \<Rightarrow> EmptyIterator option" where
  "EmptyIterator_SeekToFirst it = Some it"

definition EmptyIterator_SeekToLast :: "EmptyIterator \<Rightarrow> EmptyIterator option" where
  "EmptyIterator_SeekToLast it = Some it"

definition EmptyIterator_Seek :: "EmptyIterator \<Rightarrow> bytes \<Rightarrow> EmptyIterator option" where
  "EmptyIterator_Seek it target = Some it"

definition EmptyIterator_Next :: "EmptyIterator \<Rightarrow> EmptyIterator option" where
  "EmptyIterator_Next it = None"

definition EmptyIterator_Prev :: "EmptyIterator \<Rightarrow> EmptyIterator option" where
  "EmptyIterator_Prev it = None"

definition EmptyIterator_key :: "EmptyIterator \<Rightarrow> slice option" where
  "EmptyIterator_key it = None"

definition EmptyIterator_value :: "EmptyIterator \<Rightarrow> slice option" where
  "EmptyIterator_value it = None"

definition EmptyIterator_status :: "EmptyIterator \<Rightarrow> Status" where
  "EmptyIterator_status it = ei_status it"

section \<open>The interface\<close>

text \<open>
  An iterator over a sequence of entries: its position counts the entries before it, and it is valid
  while there is an entry at it.
\<close>

locale kv_iterator =
  fixes Valid :: "'it \<Rightarrow> bool"
    and SeekToFirst :: "'it \<Rightarrow> 'it option"
    and Next :: "'it \<Rightarrow> 'it option"
    and key val :: "'it \<Rightarrow> slice option"
    and invar :: "'it \<Rightarrow> bool"
    and pos :: "'it \<Rightarrow> nat"
    and entries :: "'it \<Rightarrow> (bytes \<times> bytes) list"
  assumes Valid_iff: "invar it \<Longrightarrow> Valid it \<longleftrightarrow> pos it < length (entries it)"
    and first: "invar it \<Longrightarrow> \<exists>it'. SeekToFirst it = Some it' \<and> invar it' \<and> entries it' = entries it \<and> pos it' = 0"
    and next_entry: "invar it \<Longrightarrow> Valid it \<Longrightarrow>
      \<exists>it'. Next it = Some it' \<and> invar it' \<and> entries it' = entries it \<and> pos it' = Suc (pos it)"
    and key_entry: "invar it \<Longrightarrow> Valid it \<Longrightarrow> map_option slice_bytes (key it) = Some (fst (entries it ! pos it))"
    and val_entry: "invar it \<Longrightarrow> Valid it \<Longrightarrow> map_option slice_bytes (val it) = Some (snd (entries it ! pos it))"

text \<open>The loop \<open>for (it->SeekToFirst(); it->Valid(); it->Next())\<close> that collects what it sees.\<close>

partial_function (option) collect ::
  "('it \<Rightarrow> bool) \<Rightarrow> ('it \<Rightarrow> 'it option) \<Rightarrow> ('it \<Rightarrow> slice option) \<Rightarrow> ('it \<Rightarrow> slice option) \<Rightarrow> 'it
    \<Rightarrow> (bytes \<times> bytes) list option" where
  "collect Valid Next key val it =
     (if Valid it then
        do {
          x \<leftarrow> key it; y \<leftarrow> val it; it \<leftarrow> Next it;
          rest \<leftarrow> collect Valid Next key val it;
          Some ((slice_ToString x, slice_ToString y) # rest)
        }
      else Some [])"

context kv_iterator
begin

lemma collect_from: "invar it \<Longrightarrow> collect Valid Next key val it = Some (drop (pos it) (entries it))"
proof (induction "length (entries it) - pos it" arbitrary: it)
  case 0
  then show ?case using Valid_iff [OF 0(2)] by (subst collect.simps) simp
next
  case (Suc n)
  have valid: "Valid it" "pos it < length (entries it)" using Suc.hyps(2) Valid_iff [OF Suc.prems] by simp_all
  obtain it' where it': "Next it = Some it'" "invar it'" "entries it' = entries it" "pos it' = Suc (pos it)"
    using next_entry [OF Suc.prems valid(1)] by blast
  obtain x y where "key it = Some x" "slice_bytes x = fst (entries it ! pos it)" "val it = Some y" "slice_bytes y = snd (entries it ! pos it)"
    using key_entry [OF Suc.prems valid(1)] val_entry [OF Suc.prems valid(1)] by auto
  moreover have "collect Valid Next key val it' = Some (drop (Suc (pos it)) (entries it))"
    using Suc.hyps(1) [of it'] Suc.hyps(2) it' by simp
  moreover have "drop (pos it) (entries it) = entries it ! pos it # drop (Suc (pos it)) (entries it)"
    by (rule Cons_nth_drop_Suc [OF valid(2), symmetric])
  ultimately show ?case using valid(1) it'(1) by (subst collect.simps) simp
qed

lemma collect_all:
  "invar it \<Longrightarrow> \<exists>it'. SeekToFirst it = Some it' \<and> collect Valid Next key val it' = Some (entries it)"
  using first [of it] collect_from by fastforce

end

interpretation empty: kv_iterator EmptyIterator_Valid EmptyIterator_SeekToFirst EmptyIterator_Next
  EmptyIterator_key EmptyIterator_value "\<lambda>_. True" "\<lambda>_. 0" "\<lambda>_. []"
  by unfold_locales (simp_all add: EmptyIterator_Valid_def EmptyIterator_SeekToFirst_def)

section \<open>Running the cleanups\<close>

text \<open>The allocated nodes from an address on, as the calls they stand for.\<close>

fun nodes :: "(nat \<Rightarrow> CleanupNode option) \<Rightarrow> nat option \<Rightarrow> (nat \<times> nat \<times> nat \<times> nat) list \<Rightarrow> bool" where
  "nodes h p [] \<longleftrightarrow> p = None"
| "nodes h p ((a, f, x, y) # ns) \<longleftrightarrow> p = Some a \<and>
     (\<exists>q. h a = Some \<lparr>cn_function = Some f, cn_arg1 = x, cn_arg2 = y, cn_next = q\<rparr> \<and> nodes h q ns)"

lemma nodes_other: "nodes h p ns \<Longrightarrow> a \<notin> set (map fst ns) \<Longrightarrow> nodes (h(a := n)) p ns"
  by (induction h p ns rule: nodes.induct) auto

lemma cleanup_loop_ok:
  assumes "nodes (it_heap it) p ns" "distinct (map fst ns)"
  shows "\<exists>it'. cleanup_loop it p = Some it' \<and> it_calls it' = it_calls it @ map snd ns
    \<and> (\<forall>a. it_heap it' a = (if a \<in> set (map fst ns) then None else it_heap it a))"
  using assms
proof (induction ns arbitrary: it p)
  case Nil
  then show ?case by (simp add: cleanup_loop.simps)
next
  case (Cons n ns)
  obtain a f x y where n: "n = (a, f, x, y)" by (rule prod_cases4)
  obtain q where q: "p = Some a" "it_heap it a = Some \<lparr>cn_function = Some f, cn_arg1 = x, cn_arg2 = y, cn_next = q\<rparr>" "nodes (it_heap it) q ns"
    using Cons.prems(1) n by auto
  let ?it = "it\<lparr>it_calls := it_calls it @ [(f, x, y)], it_heap := (it_heap it)(a := None)\<rparr>"
  have it: "nodes (it_heap ?it) q ns" using nodes_other [OF q(3), of a None] Cons.prems(2) n by (simp add: fun_upd_def)
  have "distinct (map fst ns)" using Cons.prems(2) by simp
  from Cons.IH [OF it this] obtain it' where "cleanup_loop ?it q = Some it'" "it_calls it' = it_calls ?it @ map snd ns"
      "\<forall>a. it_heap it' a = (if a \<in> set (map fst ns) then None else it_heap ?it a)"
    by blast
  with q n show ?case by (subst cleanup_loop.simps) (auto simp: CleanupNode_Run_def)
qed

text \<open>Registering a list of functions, each with the address for its node.\<close>

fun register_all :: "IteratorBase \<Rightarrow> (nat \<times> nat \<times> nat \<times> nat) list \<Rightarrow> IteratorBase option" where
  "register_all it [] = Some it"
| "register_all it ((a, f, x, y) # ns) = do { it \<leftarrow> RegisterCleanup it (Some f) x y a; register_all it ns }"

lemma register_rest:
  assumes "cleanup_head it = \<lparr>cn_function = Some f, cn_arg1 = x, cn_arg2 = y, cn_next = p\<rparr>" "nodes (it_heap it) p ns"
    and "\<forall>a. it_heap it a \<noteq> None \<longleftrightarrow> a \<in> set (map fst ns)" "distinct (map fst (rev ms @ ns))"
  shows "\<exists>it' q. register_all it ms = Some it' \<and> cleanup_head it' = \<lparr>cn_function = Some f, cn_arg1 = x, cn_arg2 = y, cn_next = q\<rparr>
    \<and> nodes (it_heap it') q (rev ms @ ns) \<and> (\<forall>a. it_heap it' a \<noteq> None \<longleftrightarrow> a \<in> set (map fst (rev ms @ ns))) \<and> it_calls it' = it_calls it"
  using assms
proof (induction ms arbitrary: it p ns)
  case (Cons m ms)
  obtain b g u v where m: "m = (b, g, u, v)" by (rule prod_cases4)
  have b: "it_heap it b = None" "b \<notin> set (map fst ns)" using Cons.prems(3,4) m by auto
  let ?n = "\<lparr>cn_function = Some g, cn_arg1 = u, cn_arg2 = v, cn_next = p\<rparr>"
  let ?it = "it\<lparr>it_heap := (it_heap it)(b \<mapsto> ?n), cleanup_head := (cleanup_head it)\<lparr>cn_next := Some b\<rparr>\<rparr>"
  have "RegisterCleanup it (Some g) u v b = Some ?it"
    using Cons.prems(1) b(1) by (simp add: RegisterCleanup_def CleanupNode_IsEmpty_def)
  moreover have "nodes (it_heap ?it) (Some b) (m # ns)"
    using nodes_other [OF Cons.prems(2) b(2), of "Some ?n"] m by (simp add: fun_upd_def)
  moreover have "cleanup_head ?it = \<lparr>cn_function = Some f, cn_arg1 = x, cn_arg2 = y, cn_next = Some b\<rparr>"
    using Cons.prems(1) by simp
  moreover have "\<forall>a. it_heap ?it a \<noteq> None \<longleftrightarrow> a \<in> set (map fst (m # ns))" using Cons.prems(3) m by auto
  moreover have "distinct (map fst (rev ms @ m # ns))" using Cons.prems(4) by auto
  ultimately show ?case using Cons.IH [of ?it "Some b" "m # ns"] m by (simp add: fun_upd_def)
qed auto

section \<open>Properties\<close>

text \<open>C38. The destructor of an iterator runs every registered cleanup function once, with its arguments:
  first the one registered first, then the others from the last to the second; and it frees every node
  that was allocated.\<close>

theorem cleanups_run_once:
  assumes "distinct (map fst ms)"
  shows "\<exists>it it'. register_all (IteratorBase_new g1 g2) (n # ms) = Some it \<and> IteratorBase_delete it = Some it'
    \<and> it_calls it' = snd n # map snd (rev ms) \<and> (\<forall>a. it_heap it' a = None)"
proof -
  obtain a f x y where n: "n = (a, f, x, y)" by (rule prod_cases4)
  let ?it = "\<lparr>cleanup_head = \<lparr>cn_function = Some f, cn_arg1 = x, cn_arg2 = y, cn_next = None\<rparr>,
      it_heap = (\<lambda>_. None), it_calls = []\<rparr>"
  have first: "RegisterCleanup (IteratorBase_new g1 g2) (Some f) x y a = Some ?it"
    by (simp add: RegisterCleanup_def IteratorBase_new_def CleanupNode_IsEmpty_def)
  have dist: "distinct (map fst (rev ms))" using assms by (simp add: rev_map [symmetric])
  obtain it q where it: "register_all ?it ms = Some it"
      "cleanup_head it = \<lparr>cn_function = Some f, cn_arg1 = x, cn_arg2 = y, cn_next = q\<rparr>" "nodes (it_heap it) q (rev ms)"
      "\<forall>a. it_heap it a \<noteq> None \<longleftrightarrow> a \<in> set (map fst (rev ms))" "it_calls it = []"
    using register_rest [of ?it f x y None "[]" ms] dist by auto
  let ?it' = "it\<lparr>it_calls := [(f, x, y)]\<rparr>"
  obtain it' where it': "cleanup_loop ?it' q = Some it'" "it_calls it' = it_calls ?it' @ map snd (rev ms)"
      "\<forall>a. it_heap it' a = (if a \<in> set (map fst (rev ms)) then None else it_heap ?it' a)"
    using cleanup_loop_ok [of ?it' q "rev ms"] it(3) dist by auto
  have "IteratorBase_delete it = Some it'"
    using it(2,5) it'(1) by (simp add: IteratorBase_delete_def CleanupNode_IsEmpty_def CleanupNode_Run_def)
  moreover have "\<forall>a. it_heap it' a = None" using it'(3) it(4) by auto
  ultimately show ?thesis using first it(1) it'(2) n by auto
qed

theorem cleanups_run_once_witness:
  "\<exists>it it'. register_all (IteratorBase_new 0 0) [(0, 7, 1, 2), (10, 8, 3, 4), (11, 9, 5, 6)] = Some it
    \<and> IteratorBase_delete it = Some it' \<and> it_calls it' = [(7, 1, 2), (9, 5, 6), (8, 3, 4)]"
  using cleanups_run_once [of "[(10, 8, 3, 4), (11, 9, 5, 6)]" 0 0 "(0, 7, 1, 2)"] by fastforce

end
