(* ===== verification/Mem_Iterator.thy ===== *)
theory Mem_Iterator
  imports Mem_Table Iterator
begin

text \<open>
  The iterator of a memtable (\<open>MemTableIterator\<close> of \<open>data_structure/mem_table.cpp\<close>) implements the interface of
  iterators: the locale \<open>kv_iterator\<close> is interpreted on its operations, so that the loop over all entries
  returns them in the order of the internal keys.
\<close>

section \<open>The memtable iterator as an implementation\<close>

text \<open>The state is the memtable and the node, with the order of the nodes carried along.\<close>

type_synonym mem_iter = "nat list \<times> MemTable \<times> nat option"

definition mi_entry :: "mem \<Rightarrow> bytes \<times> bytes" where
  "mi_entry e =
     (let k = GetLengthPrefixedSlice_ptr e in
      (slice_bytes k, slice_bytes (GetLengthPrefixedSlice_ptr (drop (ssize k) (sdata k)))))"

definition mi_Valid :: "mem_iter \<Rightarrow> bool" where
  "mi_Valid = (\<lambda>(L, m, it). MemTableIterator_Valid it)"

definition mi_SeekToFirst :: "mem_iter \<Rightarrow> mem_iter option" where
  "mi_SeekToFirst = (\<lambda>(L, m, it). map_option (\<lambda>it'. (L, m, it')) (MemTableIterator_SeekToFirst m))"

definition mi_Next :: "mem_iter \<Rightarrow> mem_iter option" where
  "mi_Next = (\<lambda>(L, m, it). map_option (\<lambda>it'. (L, m, it')) (MemTableIterator_Next m it))"

definition mi_key :: "mem_iter \<Rightarrow> slice option" where
  "mi_key = (\<lambda>(L, m, it). MemTableIterator_key m it)"

definition mi_value :: "mem_iter \<Rightarrow> slice option" where
  "mi_value = (\<lambda>(L, m, it). MemTableIterator_value m it)"

definition mi_inv :: "(bytes \<Rightarrow> bytes \<Rightarrow> int) \<Rightarrow> mem_iter \<Rightarrow> bool" where
  "mi_inv ucmp = (\<lambda>(L, m, it). sl_inv (entry_compare ucmp) (mt_table m) L
     \<and> (case it of None \<Rightarrow> True | Some x \<Rightarrow> x \<in> set L))"

definition mi_pos :: "mem_iter \<Rightarrow> nat" where
  "mi_pos = (\<lambda>(L, m, it). case it of None \<Rightarrow> length L | Some x \<Rightarrow> length (takeWhile (\<lambda>y. y \<noteq> x) L))"

definition mi_entries :: "mem_iter \<Rightarrow> (bytes \<times> bytes) list" where
  "mi_entries = (\<lambda>(L, m, it). map mi_entry (sl_keys (mt_table m) L))"

lemma takeWhile_up_to: "x \<notin> set xs \<Longrightarrow> takeWhile (\<lambda>y. y \<noteq> x) (xs @ x # ys) = xs"
  by (induction xs) auto

lemma split_at:
  assumes "x \<in> set L" "distinct L"
  obtains xs ys where "L = xs @ x # ys" "takeWhile (\<lambda>y. y \<noteq> x) L = xs"
proof -
  obtain xs ys where L: "L = xs @ x # ys" using split_list [OF assms(1)] by blast
  then have "takeWhile (\<lambda>y. y \<noteq> x) L = xs" using assms(2) by (simp add: takeWhile_up_to)
  with L that show thesis by blast
qed

lemma pos_of_first:
  assumes "L = xs @ ys" "distinct L"
  shows "mi_pos (L, m, first_opt ys) = length xs"
proof (cases ys)
  case (Cons y ys')
  with assms have "takeWhile (\<lambda>z. z \<noteq> y) L = xs" by (simp add: takeWhile_up_to)
  with Cons show ?thesis by (simp add: mi_pos_def)
qed (use assms in \<open>simp add: mi_pos_def\<close>)

interpretation mi: kv_iterator mi_Valid mi_SeekToFirst mi_Next mi_key mi_value "mi_inv ucmp" mi_pos mi_entries for ucmp
proof
  fix i :: mem_iter
  assume inv: "mi_inv ucmp i"
  obtain L m it where i: "i = (L, m, it)" by (rule prod_cases3)
  have sl: "sl_inv (entry_compare ucmp) (mt_table m) L" and dist: "distinct L"
    using inv i by (auto simp: mi_inv_def sl_inv_def)
  show "mi_Valid i \<longleftrightarrow> mi_pos i < length (mi_entries i)"
  proof (cases it)
    case (Some x)
    then have "x \<in> set L" using inv i by (simp add: mi_inv_def)
    then obtain xs ys where "L = xs @ x # ys" "takeWhile (\<lambda>y. y \<noteq> x) L = xs" using dist by (rule split_at)
    with Some i show ?thesis
      by (simp add: mi_Valid_def mi_pos_def mi_entries_def sl_keys_def MemTableIterator_Valid_def Iterator_Valid_def)
  qed (simp add: i mi_Valid_def mi_pos_def mi_entries_def sl_keys_def MemTableIterator_Valid_def Iterator_Valid_def)
  have "first_opt L = None \<or> (\<exists>x\<in>set L. first_opt L = Some x)" by (cases L) auto
  then show "\<exists>i'. mi_SeekToFirst i = Some i' \<and> mi_inv ucmp i' \<and> mi_entries i' = mi_entries i \<and> mi_pos i' = 0"
    using Iterator_SeekToFirst_eq [OF sl] pos_of_first [of L "[]" L m] dist sl i
    by (auto simp: mi_SeekToFirst_def MemTableIterator_SeekToFirst_def mi_inv_def mi_entries_def)
  assume "mi_Valid i"
  then obtain x where x: "it = Some x" by (auto simp: i mi_Valid_def MemTableIterator_Valid_def Iterator_Valid_def)
  then have "x \<in> set L" using inv i by (simp add: mi_inv_def)
  then obtain xs ys where L: "L = xs @ x # ys" "takeWhile (\<lambda>y. y \<noteq> x) L = xs" using dist by (rule split_at)
  have pos: "mi_pos i = length xs" using L(2) x i by (simp add: mi_pos_def)
  have "MemTableIterator_Next m it = Some (first_opt ys)"
    using Iterator_Next_eq [of "entry_compare ucmp" "mt_table m" xs x ys] sl L(1) x by (simp add: MemTableIterator_Next_def)
  moreover have "first_opt ys = None \<or> (\<exists>y\<in>set L. first_opt ys = Some y)" using L(1) by (cases ys) auto
  moreover have "mi_pos (L, m, first_opt ys) = Suc (length xs)" using pos_of_first [of L "xs @ [x]" ys m] L(1) dist by simp
  ultimately show "\<exists>i'. mi_Next i = Some i' \<and> mi_inv ucmp i' \<and> mi_entries i' = mi_entries i \<and> mi_pos i' = Suc (mi_pos i)"
    using sl i pos by (auto simp: mi_Next_def mi_inv_def mi_entries_def)
  have "mi_entries i ! mi_pos i = mi_entry (key_of (mt_table m) x)" using L(1) pos i by (simp add: mi_entries_def sl_keys_def nth_append)
  then show "map_option slice_bytes (mi_key i) = Some (fst (mi_entries i ! mi_pos i))"
    and "map_option slice_bytes (mi_value i) = Some (snd (mi_entries i ! mi_pos i))"
    using x i by (simp_all add: mi_key_def mi_value_def MemTableIterator_key_def MemTableIterator_value_def
        Iterator_key_def Iterator_Valid_def mi_entry_def Let_def)
qed

lemma mi_entry_of_update: "u_small u \<Longrightarrow> mi_entry (mt_entry u) = (u_ikey u, u_val u)"
proof -
  assume small: "u_small u"
  have "GetLengthPrefixedSlice_ptr (mt_entry u)
      = Slice_ptr (u_ikey u @ EncodeVarint32 (of_nat (length (u_val u))) @ u_val u) (length (u_ikey u))"
    using GetLengthPrefixedSlice_ptr_Encode [of "u_ikey u"] small by (simp add: u_small_def mt_entry_def u_ikey_def)
  moreover have "GetLengthPrefixedSlice_ptr (EncodeVarint32 (of_nat (length (u_val u))) @ u_val u) = Slice_ptr (u_val u) (length (u_val u))"
    using GetLengthPrefixedSlice_ptr_Encode [of "u_val u" "[]"] small by (simp add: u_small_def)
  ultimately show ?thesis by (simp add: mi_entry_def Slice_ptr_def slice_ToString_def)
qed

text \<open>The loop over the iterator of a memtable returns and yields the internal key and the value of each of the
  given updates, in the order of the internal keys.  A memtable that holds the updates does this.\<close>

definition scan_yields :: "(bytes \<Rightarrow> bytes \<Rightarrow> int) \<Rightarrow> MemTable \<Rightarrow> mt_update list \<Rightarrow> bool" where
  "scan_yields ucmp m us \<longleftrightarrow>
     (\<exists>L i out. mi_SeekToFirst (L, m, MemTable_NewIterator m) = Some i
        \<and> collect mi_Valid mi_Next mi_key mi_value i = Some out
        \<and> mset out = mset (map (\<lambda>u. (u_ikey u, u_val u)) us)
        \<and> sorted_wrt (\<lambda>a b. \<exists>c. InternalKeyComparator_Compare ucmp (fst b) (fst a) = Some c \<and> \<not> c < 0) out)"

lemma scan_of_held:
  assumes "mt_holds ucmp m us"
  shows "scan_yields ucmp m us"
proof -
  obtain L where L: "sl_inv (entry_compare ucmp) (mt_table m) L" "mset (sl_keys (mt_table m) L) = mset (map mt_entry us)"
    and small: "list_all u_small us" using assms by (auto simp: mt_holds_def)
  let ?i = "(L, m, MemTable_NewIterator m) :: mem_iter"
  have "mi_inv ucmp ?i"
    using L(1) by (simp add: mi_inv_def MemTable_NewIterator_def MemTableIterator_new_def Iterator_new_def)
  then obtain i where i: "mi_SeekToFirst ?i = Some i" "collect mi_Valid mi_Next mi_key mi_value i = Some (mi_entries ?i)"
    using mi.collect_all by blast
  have "mset (mi_entries ?i) = image_mset mi_entry (mset (map mt_entry us))" using L(2) by (simp add: mi_entries_def)
  also have "\<dots> = mset (map (\<lambda>u. (u_ikey u, u_val u)) us)"
    using small by (induction us) (simp_all add: mi_entry_of_update)
  finally have entries: "mset (mi_entries ?i) = mset (map (\<lambda>u. (u_ikey u, u_val u)) us)" .
  have "sorted_wrt (\<lambda>a b. \<not> internal_compare ucmp (fst b) (fst a) < 0) (mi_entries ?i)"
    using sl_inv_sorted [OF L(1)] by (simp add: mi_entries_def sorted_wrt_map entry_compare_def mi_entry_def Let_def)
  moreover have "8 \<le> length (fst e)" if "e \<in> set (mi_entries ?i)" for e
    using that mset_eq_setD [OF entries] by (auto simp: u_ikey_def)
  ultimately have "sorted_wrt (\<lambda>a b. \<exists>c. InternalKeyComparator_Compare ucmp (fst b) (fst a) = Some c \<and> \<not> c < 0) (mi_entries ?i)"
    by (auto simp: InternalKeyComparator_Compare_eq elim!: sorted_wrt_mono_rel [rotated])
  with i entries show ?thesis unfolding scan_yields_def by blast
qed

section \<open>Properties\<close>

text \<open>C14. Scanning a memtable yields its updates.  After any updates of moderate size to a new memtable, for
  every lawful user comparator, the loop over the memtable's iterator returns and yields the internal key
  and the value of every update, each once, in the order of the internal keys.\<close>

theorem memtable_scan_yields_updates:
  assumes "key_order ucmp" and "heap_alloc heap" and "list_all u_small us"
  shows "\<exists>m m' L i out. MemTable_new heap = Some m \<and> MemTable_AddAll heap ucmp m us = Some m'
    \<and> mi_SeekToFirst (L, m', MemTable_NewIterator m') = Some i \<and> collect mi_Valid mi_Next mi_key mi_value i = Some out
    \<and> mset out = mset (map (\<lambda>u. (u_ikey u, u_val u)) us)
    \<and> sorted_wrt (\<lambda>a b. \<exists>c. InternalKeyComparator_Compare ucmp (fst b) (fst a) = Some c \<and> \<not> c < 0) out"
proof -
  obtain m where m: "MemTable_new heap = Some m" "mt_holds ucmp m []" using MemTable_new_holds [OF assms(2)] by blast
  obtain m' where m': "MemTable_AddAll heap ucmp m us = Some m'" "mt_holds ucmp m' us"
    using key_order.AddAll_holds [OF assms(1,2) m(2) assms(3)] by auto
  from scan_of_held [OF m'(2)] m(1) m'(1) show ?thesis unfolding scan_yields_def by blast
qed

theorem memtable_scan_yields_updates_witness:
  "\<exists>m m' L i out. MemTable_new bump_heap = Some m
    \<and> MemTable_AddAll bump_heap lex_compare m [\<lparr>u_seq = 1, u_type = kTypeValue, u_key = [97], u_val = [1]\<rparr>] = Some m'
    \<and> mi_SeekToFirst (L, m', MemTable_NewIterator m') = Some i \<and> collect mi_Valid mi_Next mi_key mi_value i = Some out
    \<and> map snd out = [[1]]"
proof -
  let ?us = "[\<lparr>u_seq = 1, u_type = kTypeValue, u_key = [97], u_val = [1]\<rparr>]"
  have "list_all u_small ?us" by (simp add: u_small_def)
  from memtable_scan_yields_updates [OF lex_compare_order bump.heap_alloc_axioms this] show ?thesis by fastforce
qed

end
