(* ===== verification/Batch_Insert.thy ===== *)
theory Batch_Insert
  imports Write_Batch Mem_Iterator
begin

text \<open>
  Applying a write batch to a memtable: \<open>MemTableInserter\<close> and \<open>WriteBatchInternal::InsertInto\<close>
  (\<open>write_batch/write_batch.cpp\<close>), and what a scan and a
  lookup see afterwards.
\<close>

section \<open>Definitions\<close>

record MemTableInserter =
  ins_sequence :: u64
  ins_mem :: MemTable

definition MemTableInserter_Put ::
  "(region list \<Rightarrow> nat \<Rightarrow> nat) \<Rightarrow> (bytes \<Rightarrow> bytes \<Rightarrow> int) \<Rightarrow> MemTableInserter \<Rightarrow> bytes \<Rightarrow> bytes \<Rightarrow>
   MemTableInserter option" where
  "MemTableInserter_Put heap ucmp i key val =
     do {
       m \<leftarrow> MemTable_Add heap ucmp (ins_mem i) (ins_sequence i) kTypeValue key val;
       Some (i\<lparr>ins_mem := m, ins_sequence := ins_sequence i + 1\<rparr>)
     }"

definition MemTableInserter_Delete ::
  "(region list \<Rightarrow> nat \<Rightarrow> nat) \<Rightarrow> (bytes \<Rightarrow> bytes \<Rightarrow> int) \<Rightarrow> MemTableInserter \<Rightarrow> bytes \<Rightarrow>
   MemTableInserter option" where
  "MemTableInserter_Delete heap ucmp i key =
     do {
       m \<leftarrow> MemTable_Add heap ucmp (ins_mem i) (ins_sequence i) kTypeDeletion key [];
       Some (i\<lparr>ins_mem := m, ins_sequence := ins_sequence i + 1\<rparr>)
     }"

definition InsertInto ::
  "(region list \<Rightarrow> nat \<Rightarrow> nat) \<Rightarrow> (bytes \<Rightarrow> bytes \<Rightarrow> int) \<Rightarrow> WriteBatch \<Rightarrow> MemTable \<Rightarrow>
   (Status \<times> MemTable) option" where
  "InsertInto heap ucmp batch memtable =
     do {
       (s, i) \<leftarrow> WriteBatch_Iterate batch
          \<lparr>h_Put = MemTableInserter_Put heap ucmp, h_Delete = MemTableInserter_Delete heap ucmp\<rparr>
          \<lparr>ins_sequence = WriteBatch_Sequence batch, ins_mem = memtable\<rparr>;
       Some (s, ins_mem i)
     }"

section \<open>Numbered updates\<close>

text \<open>The updates of a batch with consecutive sequence numbers.\<close>

fun numbered_update :: "u64 \<Rightarrow> update \<Rightarrow> mt_update" where
  "numbered_update q (Update_Put k v) = \<lparr>u_seq = q, u_type = kTypeValue, u_key = k, u_val = v\<rparr>"
| "numbered_update q (Update_Delete k) = \<lparr>u_seq = q, u_type = kTypeDeletion, u_key = k, u_val = []\<rparr>"

fun numbered :: "u64 \<Rightarrow> update list \<Rightarrow> mt_update list" where
  "numbered q [] = []"
| "numbered q (u # us) = numbered_update q u # numbered (q + 1) us"

fun update_key :: "update \<Rightarrow> bytes" where
  "update_key (Update_Put k v) = k"
| "update_key (Update_Delete k) = k"

definition update_fits :: "update \<Rightarrow> bool" where
  "update_fits u \<longleftrightarrow> update_small u \<and> length (update_key u) + 8 < 2 ^ 32"

text \<open>The last update of a key in a batch, and what a lookup makes of it.\<close>

definition last_update :: "update list \<Rightarrow> bytes \<Rightarrow> update option" where
  "last_update us k = find (\<lambda>u. update_key u = k) (rev us)"

definition lookup_result :: "update option \<Rightarrow> bytes \<Rightarrow> Status \<Rightarrow> bool \<times> bytes \<times> Status" where
  "lookup_result r val s =
     (case r of
        None \<Rightarrow> (False, val, s)
      | Some (Update_Put k v) \<Rightarrow> (True, v, s)
      | Some (Update_Delete k) \<Rightarrow> (True, val, Status_NotFound [] []))"

lemma numbered_update_simps [simp]:
  "u_key (numbered_update q u) = update_key u" "u_seq (numbered_update q u) = q"
  by (cases u; simp)+

lemma numbered_snoc: "numbered q (us @ [u]) = numbered q us @ [numbered_update (q + of_nat (length us)) u]"
  by (induction us arbitrary: q) (simp_all add: algebra_simps)

lemma numbered_seqs:
  assumes "unat q + length us \<le> 2 ^ 56"
  shows "map (unat \<circ> u_seq) (numbered q us) = [unat q..<unat q + length us]"
  using assms
proof (induction us arbitrary: q)
  case (Cons u us)
  have "unat (q + 1) = unat q + 1" using Cons.prems by (simp add: unat_word_ariths)
  with Cons show ?case by (simp add: upt_conv_Cons del: upt_Suc)
qed simp

lemma numbered_type: "list_all (\<lambda>v. u_type v = kTypeDeletion \<or> u_type v = kTypeValue) (numbered q us)"
proof (induction us arbitrary: q)
  case (Cons u us)
  then show ?case by (cases u) simp_all
qed simp

lemma newest_snoc:
  "u_key y \<noteq> k \<Longrightarrow> newest (xs @ [y]) k s = newest xs k s"
  "u_key y = k \<Longrightarrow> u_seq y \<le> s \<Longrightarrow> list_all (\<lambda>x. u_seq x < u_seq y) xs \<Longrightarrow> newest (xs @ [y]) k s = Some y"
  by (induction xs) (auto simp: Let_def)

lemma newest_numbered:
  assumes "unat q + length us \<le> 2 ^ 56" and "unat q + length us \<le> unat s + 1"
  shows "get_result (newest (numbered q us) k s) val st = lookup_result (last_update us k) val st"
  using assms
proof (induction us rule: rev_induct)
  case Nil
  show ?case by (simp add: last_update_def lookup_result_def get_result_def)
next
  case (snoc u us)
  let ?y = "numbered_update (q + of_nat (length us)) u"
  show ?case
  proof (cases "update_key u = k")
    case False
    with snoc show ?thesis by (simp add: numbered_snoc newest_snoc(1) last_update_def)
  next
    case True
    have seq: "unat (q + of_nat (length us)) = unat q + length us"
      using snoc.prems by (simp add: unat_word_ariths unat_of_nat)
    have "x < unat q + length us" if "x \<in> set (map (unat \<circ> u_seq) (numbered q us))" for x
      using that snoc.prems by (subst (asm) numbered_seqs) auto
    then have "list_all (\<lambda>x. u_seq x < u_seq ?y) (numbered q us)"
      using seq by (auto simp: list_all_iff word_less_nat_alt)
    moreover have "u_seq ?y \<le> s" using seq snoc.prems by (simp add: word_le_nat_alt)
    ultimately have "newest (numbered q (us @ [u])) k s = Some ?y"
      using True by (simp add: numbered_snoc newest_snoc(2))
    with True show ?thesis
      by (cases u) (simp_all add: get_result_def last_update_def lookup_result_def)
  qed
qed

section \<open>Inserting a batch\<close>

lemma apply_inserter:
  assumes "mt_holds ucmp m vs" and "key_order ucmp" and "heap_alloc heap" and "list_all update_fits us"
  shows "\<exists>i. apply_updates \<lparr>h_Put = MemTableInserter_Put heap ucmp, h_Delete = MemTableInserter_Delete heap ucmp\<rparr>
      \<lparr>ins_sequence = q, ins_mem = m\<rparr> us = Some i
    \<and> mt_holds ucmp (ins_mem i) (vs @ numbered q us) \<and> MemTable_AddAll heap ucmp m (numbered q us) = Some (ins_mem i)"
  using assms(1,4)
proof (induction us arbitrary: q m vs)
  case (Cons u us)
  have small: "u_small (numbered_update q u)"
    using Cons.prems(2) by (cases u) (simp_all add: update_fits_def u_small_def)
  obtain m1 where m1: "MemTable_Add heap ucmp m q (u_type (numbered_update q u)) (update_key u) (u_val (numbered_update q u)) = Some m1"
    "mt_holds ucmp m1 (vs @ [numbered_update q u])"
    using key_order.Add_holds [OF assms(2,3) Cons.prems(1) small] by auto
  with Cons.IH [of m1 "vs @ [numbered_update q u]" "q + 1"] Cons.prems(2) show ?case
    by (cases u) (auto simp: MemTableInserter_Put_def MemTableInserter_Delete_def)
qed auto

lemma InsertInto_rep:
  assumes "mt_holds ucmp m vs" and "key_order ucmp" and "heap_alloc heap" and "list_all update_fits us"
    and "length us < 2 ^ 31"
  shows "\<exists>m'. InsertInto heap ucmp (batch_rep seq us) m = Some (Status_OK, m') \<and> mt_holds ucmp m' (vs @ numbered seq us)"
proof -
  obtain i where "apply_updates \<lparr>h_Put = MemTableInserter_Put heap ucmp, h_Delete = MemTableInserter_Delete heap ucmp\<rparr>
      \<lparr>ins_sequence = seq, ins_mem = m\<rparr> us = Some i" "mt_holds ucmp (ins_mem i) (vs @ numbered seq us)"
    using apply_inserter [OF assms(1-4), of seq] by auto
  moreover have "list_all update_small us" using assms(4) by (simp add: list_all_iff update_fits_def)
  ultimately show ?thesis
    using assms(5) by (simp add: InsertInto_def Iterate_rep Sequence_batch_rep)
qed

lemma built_batch_rep: "WriteBatch_SetSequence (foldl WriteBatch_add WriteBatch_new us) seq = batch_rep seq us"
  by (simp add: batch_rep_new foldl_add_rep SetSequence_batch_rep)

lemma numbered_wf:
  assumes "list_all u_small (numbered seq us)" and "unat seq + length us \<le> 2 ^ 56"
  shows "list_all u_wf (numbered seq us)" and "distinct (map u_seq (numbered seq us))"
proof -
  have "u_seq v \<le> kMaxSequenceNumber" if "v \<in> set (numbered seq us)" for v
  proof -
    have "unat (u_seq v) \<in> set (map (unat \<circ> u_seq) (numbered seq us))" using that by auto
    then have "unat (u_seq v) < 2 ^ 56" using assms(2) numbered_seqs [OF assms(2)] by simp
    then show ?thesis by (simp add: kMaxSequenceNumber_def word_le_nat_alt)
  qed
  with assms(1) numbered_type [of seq us] show "list_all u_wf (numbered seq us)"
    by (simp add: list_all_iff u_wf_def)
  have "distinct (map (unat \<circ> u_seq) (numbered seq us))" by (simp add: numbered_seqs [OF assms(2)])
  then show "distinct (map u_seq (numbered seq us))" by (simp add: distinct_map inj_on_def)
qed

text \<open>Every lookup in the memtable answers with the newest of the given updates that it sees.\<close>

definition answers_newest :: "(bytes \<Rightarrow> bytes \<Rightarrow> int) \<Rightarrow> MemTable \<Rightarrow> mt_update list \<Rightarrow> bool" where
  "answers_newest ucmp m us \<longleftrightarrow>
     (\<forall>k s val st. length k + 8 < 2 ^ 32 \<and> s \<le> kMaxSequenceNumber \<longrightarrow>
        (\<exists>lk. LookupKey_new k s = Some lk
           \<and> MemTable_Get ucmp m lk val st = Some (get_result (newest us k s) val st)))"

lemma held_is_answered:
  assumes "key_order ucmp" and "\<And>a. ucmp a a = 0" and "mt_holds ucmp m us" and "list_all u_wf us"
    and "distinct (map u_seq us)"
  shows "answers_newest ucmp m us"
  unfolding answers_newest_def
  using key_order.Get_newest [OF assms] LookupKey_new_Some by blast

section \<open>Properties\<close>

text \<open>C2. A batch applied to a memtable is read back.  For every lawful user comparator and every batch of fewer
  than \<open>2 ^ 31\<close> updates whose keys and values fit 32-bit lengths, applied to a new memtable: \<open>InsertInto\<close> returns
  with status OK, and the loop over the memtable's iterator then yields exactly the updates of the batch,
  numbered consecutively from the sequence number of the batch, in the order of the internal keys.  If
  moreover the comparator returns 0 on equal keys, as \<open>BytewiseComparator\<close> does not, and the numbers
  stay below \<open>2 ^ 56\<close>, a \<open>Get\<close> at any sequence number at or above the last one of the batch returns what the
  last update of the key in the batch says.\<close>

theorem batch_applied_is_read_back:
  assumes "heap_alloc heap" and "key_order ucmp" and "list_all update_fits us" and "length us < 2 ^ 31"
  shows "\<exists>m0 m. MemTable_new heap = Some m0
    \<and> InsertInto heap ucmp (WriteBatch_SetSequence (foldl WriteBatch_add WriteBatch_new us) seq) m0 = Some (Status_OK, m)
    \<and> scan_yields ucmp m (numbered seq us)
    \<and> ((\<forall>a. ucmp a a = 0) \<and> unat seq + length us \<le> 2 ^ 56 \<longrightarrow>
        (\<forall>k s val st. length k + 8 < 2 ^ 32 \<and> unat seq + length us \<le> unat s + 1 \<and> s \<le> kMaxSequenceNumber \<longrightarrow>
          (\<exists>lk. LookupKey_new k s = Some lk
            \<and> MemTable_Get ucmp m lk val st = Some (lookup_result (last_update us k) val st))))"
proof -
  obtain m0 where m0: "MemTable_new heap = Some m0" "mt_holds ucmp m0 []"
    using MemTable_new_holds [OF assms(1)] by blast
  obtain m where m: "InsertInto heap ucmp (batch_rep seq us) m0 = Some (Status_OK, m)" "mt_holds ucmp m (numbered seq us)"
    using InsertInto_rep [OF m0(2) assms(2,1,3,4), of seq] by auto
  have "\<exists>lk. LookupKey_new k s = Some lk
      \<and> MemTable_Get ucmp m lk val st = Some (lookup_result (last_update us k) val st)"
    if "\<forall>a. ucmp a a = 0" "unat seq + length us \<le> 2 ^ 56" "length k + 8 < 2 ^ 32"
      "unat seq + length us \<le> unat s + 1" "s \<le> kMaxSequenceNumber" for k s val st
  proof -
    have "list_all u_small (numbered seq us)" using m(2) by (simp add: mt_holds_def)
    note wf = numbered_wf [OF this that(2)]
    have "answers_newest ucmp m (numbered seq us)" using held_is_answered [OF assms(2) _ m(2) wf] that(1) by simp
    then show ?thesis
      using that newest_numbered [OF that(2,4), of k val st] unfolding answers_newest_def by metis
  qed
  with scan_of_held [OF m(2)] m0(1) m(1) show ?thesis unfolding built_batch_rep by blast
qed

text \<open>The comparator of the library, and one that recognises equal keys.\<close>

theorem batch_applied_is_read_back_witness:
  "(\<exists>m0 m L i out. MemTable_new bump_heap = Some m0
    \<and> InsertInto bump_heap Bytewise_Compare (WriteBatch_SetSequence (foldl WriteBatch_add WriteBatch_new
        [Update_Put [7] [1], Update_Put [8] [2]]) 100) m0 = Some (Status_OK, m)
    \<and> mi_SeekToFirst (L, m, MemTable_NewIterator m) = Some i
    \<and> collect mi_Valid mi_Next mi_key mi_value i = Some out
    \<and> mset out = {#(ikey [7] (tag_of 100 kTypeValue), [1]), (ikey [8] (tag_of 101 kTypeValue), [2])#})
   \<and> (\<exists>m0 m lk. MemTable_new bump_heap = Some m0
    \<and> InsertInto bump_heap lex_compare (WriteBatch_SetSequence (foldl WriteBatch_add WriteBatch_new
        [Update_Put [7] [1], Update_Put [7] [2]]) 100) m0 = Some (Status_OK, m)
    \<and> LookupKey_new [7] 101 = Some lk
    \<and> MemTable_Get lex_compare m lk [] Status_OK = Some (True, [2], Status_OK))"
proof (rule conjI)
  let ?us = "[Update_Put [7] [1], Update_Put [8] [2]]"
  have "list_all update_fits ?us" "length ?us < 2 ^ 31" by (simp_all add: update_fits_def)
  from batch_applied_is_read_back [OF bump.heap_alloc_axioms bytewise.key_order_axioms this, of 100]
  show "\<exists>m0 m L i out. MemTable_new bump_heap = Some m0
    \<and> InsertInto bump_heap Bytewise_Compare (WriteBatch_SetSequence (foldl WriteBatch_add WriteBatch_new ?us) 100) m0 = Some (Status_OK, m)
    \<and> mi_SeekToFirst (L, m, MemTable_NewIterator m) = Some i
    \<and> collect mi_Valid mi_Next mi_key mi_value i = Some out
    \<and> mset out = {#(ikey [7] (tag_of 100 kTypeValue), [1]), (ikey [8] (tag_of 101 kTypeValue), [2])#}"
    unfolding scan_yields_def by (elim exE conjE, intro exI conjI) (assumption | simp add: u_ikey_def)+
next
  let ?us = "[Update_Put [7] [1], Update_Put [7] [2]]"
  have fits: "list_all update_fits ?us" "length ?us < 2 ^ 31" by (simp_all add: update_fits_def)
  have nums: "\<forall>a. lex_compare a a = 0" "unat (100 :: u64) + length ?us \<le> 2 ^ 56" "length [7 :: byte] + 8 < 2 ^ 32"
    "unat (100 :: u64) + length ?us \<le> unat (101 :: u64) + 1" "(101 :: u64) \<le> kMaxSequenceNumber"
    by (simp_all add: kMaxSequenceNumber_def lex_compare_def)
  have res: "lookup_result (last_update ?us [7]) [] Status_OK = (True, [2], Status_OK)"
    by (simp add: lookup_result_def last_update_def)
  obtain m0 m where m: "MemTable_new bump_heap = Some m0"
    "InsertInto bump_heap lex_compare (WriteBatch_SetSequence (foldl WriteBatch_add WriteBatch_new ?us) 100) m0 = Some (Status_OK, m)"
    and get: "(\<forall>a. lex_compare a a = 0) \<and> unat (100 :: u64) + length ?us \<le> 2 ^ 56 \<longrightarrow>
        (\<forall>k s val st. length k + 8 < 2 ^ 32 \<and> unat (100 :: u64) + length ?us \<le> unat s + 1 \<and> s \<le> kMaxSequenceNumber \<longrightarrow>
          (\<exists>lk. LookupKey_new k s = Some lk
            \<and> MemTable_Get lex_compare m lk val st = Some (lookup_result (last_update ?us k) val st)))"
    using batch_applied_is_read_back [OF bump.heap_alloc_axioms lex_compare_order fits, of 100] by blast
  from get [rule_format, OF conjI [OF nums(1,2)] conjI [OF nums(3) conjI [OF nums(4,5)]], of "[]" Status_OK] m
  show "\<exists>m0 m lk. MemTable_new bump_heap = Some m0
    \<and> InsertInto bump_heap lex_compare (WriteBatch_SetSequence (foldl WriteBatch_add WriteBatch_new ?us) 100) m0 = Some (Status_OK, m)
    \<and> LookupKey_new [7] 101 = Some lk
    \<and> MemTable_Get lex_compare m lk [] Status_OK = Some (True, [2], Status_OK)"
    unfolding res by blast
qed

end
