(* ===== verification/Recovery.thy ===== *)
theory Recovery
  imports Log_Roundtrip Batch_Insert
begin

text \<open>
  The write path and its recovery, across components: write batches (\<open>write_batch\<close>) are added to a log
  (\<open>log_writer\<close>) in a POSIX file (\<open>env_posix.cpp\<close>); after a crash the log is read (\<open>log_reader\<close>), each record is
  made the contents of a batch again (\<open>WriteBatchInternal::SetContents\<close>) and inserted into a memtable
  (\<open>InsertInto\<close>, \<open>data_structure/mem_table.cpp\<close>).  There is no definition for the code that makes these calls,
  which the repository does not have: the theorem is about every sequence of the calls in this order.
\<close>

section \<open>Replaying\<close>

text \<open>The batch of an update list and a start sequence number, and the numbered updates of several.\<close>

abbreviation built_batch :: "u64 \<Rightarrow> update list \<Rightarrow> WriteBatch" where
  "built_batch q us \<equiv> WriteBatch_SetSequence (foldl WriteBatch_add WriteBatch_new us) q"

abbreviation all_numbered :: "(u64 \<times> update list) list \<Rightarrow> mt_update list" where
  "all_numbered qus \<equiv> concat (map (\<lambda>(q, us). numbered q us) qus)"

text \<open>From one memtable to the next, every record of a log is parsed and inserted.\<close>

definition replayed ::
  "(region list \<Rightarrow> nat \<Rightarrow> nat) \<Rightarrow> (bytes \<Rightarrow> bytes \<Rightarrow> int) \<Rightarrow> bytes list \<Rightarrow> MemTable list \<Rightarrow> bool" where
  "replayed heap ucmp recs ms \<longleftrightarrow> length ms = Suc (length recs)
     \<and> (\<forall>i < length recs. \<exists>b. WriteBatch_SetContents WriteBatch_new (Slice_string (recs ! i)) = Some b
          \<and> InsertInto heap ucmp b (ms ! i) = Some (Status_OK, ms ! Suc i))"

lemma replayed_Cons:
  assumes "WriteBatch_SetContents WriteBatch_new (Slice_string r) = Some b"
    and "InsertInto heap ucmp b m = Some (Status_OK, ms ! 0)" and "replayed heap ucmp recs ms"
  shows "replayed heap ucmp (r # recs) (m # ms)"
  unfolding replayed_def
proof (intro conjI allI impI)
  show "length (m # ms) = Suc (length (r # recs))" using assms(3) by (simp add: replayed_def)
  fix i
  assume "i < length (r # recs)"
  then show "\<exists>b. WriteBatch_SetContents WriteBatch_new (Slice_string ((r # recs) ! i)) = Some b
      \<and> InsertInto heap ucmp b ((m # ms) ! i) = Some (Status_OK, (m # ms) ! Suc i)"
    using assms by (cases i) (auto simp: replayed_def)
qed

lemma replayedD:
  assumes "replayed heap ucmp (map fst recs) ms"
  shows "length ms = Suc (length recs)"
    and "\<forall>i < length recs. \<exists>b. WriteBatch_SetContents WriteBatch_new (Slice_string (fst (recs ! i))) = Some b
          \<and> InsertInto heap ucmp b (ms ! i) = Some (Status_OK, ms ! Suc i)"
  using assms by (simp_all add: replayed_def)

lemma SetContents_batch_rep:
  "WriteBatch_SetContents WriteBatch_new (Slice_string (batch_rep q us)) = Some (batch_rep q us)"
  using length_batch_rep [of q us] by (simp add: WriteBatch_SetContents_def)

lemma replay_holds:
  assumes "mt_holds ucmp m vs" and "key_order ucmp" and "heap_alloc heap"
    and "\<forall>(q, us) \<in> set qus. list_all update_fits us \<and> length us < 2 ^ 31"
  shows "\<exists>ms. replayed heap ucmp (map (\<lambda>(q, us). built_batch q us) qus) ms \<and> ms ! 0 = m
    \<and> mt_holds ucmp (ms ! length qus) (vs @ all_numbered qus)"
  using assms(1,4)
proof (induction qus arbitrary: m vs)
  case Nil
  then show ?case by (intro exI [of _ "[m]"]) (simp add: replayed_def)
next
  case (Cons qu qus)
  obtain q us where qu: "qu = (q, us)" by (cases qu)
  obtain m1 where m1: "InsertInto heap ucmp (batch_rep q us) m = Some (Status_OK, m1)"
    "mt_holds ucmp m1 (vs @ numbered q us)"
    using InsertInto_rep [OF Cons.prems(1) assms(2,3), of us q] Cons.prems(2) qu by auto
  obtain ms where ms: "replayed heap ucmp (map (\<lambda>(q, us). built_batch q us) qus) ms" "ms ! 0 = m1"
    "mt_holds ucmp (ms ! length qus) ((vs @ numbered q us) @ all_numbered qus)"
    using Cons.IH [OF m1(2)] Cons.prems(2) by auto
  have "replayed heap ucmp (built_batch q us # map (\<lambda>(q, us). built_batch q us) qus) (m # ms)"
    by (rule replayed_Cons [OF _ _ ms(1)]) (use m1(1) ms(2) in \<open>simp_all add: built_batch_rep SetContents_batch_rep\<close>)
  then show ?case using ms(3) qu by (intro exI [of _ "m # ms"]) simp
qed

text \<open>The numbered updates of batches are well-formed when their numbers are.\<close>

lemma all_numbered_wf:
  assumes "mt_holds ucmp m (all_numbered qus)" and "\<forall>u \<in> set (all_numbered qus). u_seq u \<le> kMaxSequenceNumber"
  shows "list_all u_wf (all_numbered qus)"
proof -
  have "u_type u = kTypeDeletion \<or> u_type u = kTypeValue" if "u \<in> set (all_numbered qus)" for u
    using that numbered_type by (fastforce simp: list_all_iff)
  with assms show ?thesis by (simp add: list_all_iff u_wf_def mt_holds_def)
qed

section \<open>Properties\<close>

text \<open>C1. Recovery after a crash.  On a kernel and a heap that work, for every lawful user comparator: write
  batches of fewer than \<open>2 ^ 31\<close> updates each, with keys and values that fit 32-bit lengths, are added to an
  empty log, and all are accepted.  When a reader later finds any prefix of the bytes, reading the log
  returns exactly the batches whose records are complete in the prefix, without a report of corruption, and
  all of them when no byte is lost.  Each record is accepted by \<open>SetContents\<close> and inserted with status
  OK, starting from a new memtable; the loop over the last memtable's iterator then yields exactly
  the updates of the complete batches with their sequence numbers, in the order of the internal keys: a batch
  is recovered as a whole or not at all.  If moreover the comparator returns 0 on equal keys, as
  \<open>BytewiseComparator\<close> does not, and the recovered sequence numbers are distinct and below \<open>2 ^ 56\<close>, a lookup
  answers with the newest of these updates that is visible at its sequence number.\<close>

theorem recovery_replays_complete_batches:
  assumes "kernel_write sys on_disk" and "kernel_read sys left" and "heap_alloc heap" and "key_order ucmp"
    and "writefile_inv fd dest" and "writefile_contents on_disk dest = []"
    and "\<forall>(q, us) \<in> set qus. list_all update_fits us \<and> length us < 2 ^ 31"
  shows "\<exists>w m0. AddRecords (PosixWritableFile_Append sys) (PosixWritableFile_Flush sys) (Writer_new dest)
        (map (\<lambda>(q, us). WriteBatch_Contents (built_batch q us)) qus) = Some (Status_OK, w)
    \<and> MemTable_new heap = Some m0
    \<and> (\<forall>f n. seqfile_left left f = take n (writefile_contents on_disk (w_dest w)) \<longrightarrow>
        (\<exists>recs r ms. read_log (\<lambda>f n. PosixSequentialFile_Read sys f n scratch) (PosixSequentialFile_Skip sys)
              (Reader_new f reporting chk 0) = Some (recs, r) \<and> r_reports r = []
          \<and> map fst recs = log_complete n 0 (map (\<lambda>(q, us). built_batch q us) qus)
          \<and> (length (writefile_contents on_disk (w_dest w)) \<le> n \<longrightarrow> length recs = length qus)
          \<and> length ms = Suc (length recs) \<and> ms ! 0 = m0
          \<and> (\<forall>i < length recs. \<exists>b. WriteBatch_SetContents WriteBatch_new (Slice_string (fst (recs ! i))) = Some b
              \<and> InsertInto heap ucmp b (ms ! i) = Some (Status_OK, ms ! Suc i))
          \<and> scan_yields ucmp (ms ! length recs) (all_numbered (take (length recs) qus))
          \<and> ((\<forall>a. ucmp a a = 0) \<and> distinct (map u_seq (all_numbered (take (length recs) qus)))
               \<and> (\<forall>u \<in> set (all_numbered (take (length recs) qus)). u_seq u \<le> kMaxSequenceNumber) \<longrightarrow>
              answers_newest ucmp (ms ! length recs) (all_numbered (take (length recs) qus)))))"
proof -
  let ?ds = "map (\<lambda>(q, us). built_batch q us) qus"
  let ?ss = "map (\<lambda>(q, us). WriteBatch_Contents (built_batch q us)) qus"
  have slices: "map slice_bytes ?ss = ?ds" by (simp add: WriteBatch_Contents_def case_prod_beta)
  obtain w where w: "AddRecords (PosixWritableFile_Append sys) (PosixWritableFile_Flush sys) (Writer_new dest)
      ?ss = Some (Status_OK, w)" "writefile_contents on_disk (w_dest w) = log_image 0 ?ds"
    using kernel_write.AddRecords_contents [OF assms(1) writer_at_new, of fd dest ?ss, unfolded slices]
      assms(5,6) by (auto simp: Writer_new_def)
  obtain m0 where m0: "MemTable_new heap = Some m0" "mt_holds ucmp m0 []"
    using MemTable_new_holds [OF assms(3)] by blast
  show ?thesis
    apply (rule exI [of _ w], rule exI [of _ m0], unfold w(2), intro conjI w(1) m0(1) allI impI)
    subgoal premises f for f n
    proof -
      define j where "j = length (log_complete n 0 ?ds)"
      define recs :: "(bytes \<times> u64) list" where "recs = zip (log_complete n 0 ?ds) (map of_nat (log_offsets 0 ?ds))"
      obtain r where r: "read_log (\<lambda>f n. PosixSequentialFile_Read sys f n scratch) (PosixSequentialFile_Skip sys)
          (Reader_new f reporting chk 0) = Some (recs, r)" "r_reports r = []"
        using kernel_read.log_complete_read [OF assms(2), of "Reader_new f reporting chk 0" n 0 ?ds]
          reader_at_new [of "seqfile_left left" f reporting chk] f by (auto simp: Reader_new_def recs_def)
      have c: "log_complete n 0 ?ds = map (\<lambda>(q, us). built_batch q us) (take j qus)"
        unfolding j_def by (subst log_complete_prefix) (simp only: take_map)
      have jl: "j \<le> length qus" using arg_cong [OF log_complete_prefix, of length n 0 ?ds] by (simp add: j_def)
      have recs: "map fst recs = log_complete n 0 ?ds" "length recs = j"
        using jl unfolding recs_def c by (simp_all add: length_log_offsets map_fst_zip_take)
      have full: "length (log_image 0 ?ds) \<le> n \<longrightarrow> length recs = length qus"
        unfolding recs(2) j_def by (simp add: log_complete_all)
      have "\<forall>(q, us) \<in> set (take j qus). list_all update_fits us \<and> length us < 2 ^ 31"
        using assms(7) by (auto dest: in_set_takeD)
      from replay_holds [OF m0(2) assms(4,3) this] obtain ms where
        ms: "replayed heap ucmp (map fst recs) ms" "ms ! 0 = m0"
        "mt_holds ucmp (ms ! length recs) (all_numbered (take (length recs) qus))"
        using recs jl unfolding c by auto
      have get: "answers_newest ucmp (ms ! length recs) (all_numbered (take (length recs) qus))"
        if "\<forall>a. ucmp a a = 0" "distinct (map u_seq (all_numbered (take (length recs) qus)))"
          "\<forall>u \<in> set (all_numbered (take (length recs) qus)). u_seq u \<le> kMaxSequenceNumber"
        using held_is_answered [OF assms(4) _ ms(3) all_numbered_wf [OF ms(3) that(3)] that(2)] that(1) by blast
      show ?thesis
        by (rule exI [of _ recs], rule exI [of _ r], rule exI [of _ ms])
          (intro conjI r recs(1) full replayedD [OF ms(1)] ms(2) scan_of_held [OF ms(3)] impI, elim conjE, rule get)
    qed
    done
qed

text \<open>Two batches over the comparator of the library, and their recovery when no byte is lost: the loop over the
  memtable yields the two updates.\<close>

theorem recovery_replays_complete_batches_witness:
  "\<exists>w m0. AddRecords (PosixWritableFile_Append mem_sys) (PosixWritableFile_Flush mem_sys)
        (Writer_new (PosixWritableFile_new (\<lambda>_. []) (str ''LOG'') 7 \<lparr>mf_data = [], mf_pos = 0\<rparr>))
        (map (\<lambda>(q, us). WriteBatch_Contents (built_batch q us))
          [(100, [Update_Put [7] [1]]), (101, [Update_Delete [7]])]) = Some (Status_OK, w)
    \<and> MemTable_new bump_heap = Some m0
    \<and> (\<forall>f. seqfile_left (\<lambda>fd m. drop (mf_pos m) (mf_data m)) f = writefile_contents (\<lambda>fd. mf_data) (w_dest w) \<longrightarrow>
        (\<exists>recs r ms. read_log (\<lambda>f n. PosixSequentialFile_Read mem_sys f n []) (PosixSequentialFile_Skip mem_sys)
              (Reader_new f True True 0) = Some (recs, r) \<and> r_reports r = [] \<and> length recs = 2 \<and> ms ! 0 = m0
          \<and> scan_yields Bytewise_Compare (ms ! 2)
              [\<lparr>u_seq = 100, u_type = kTypeValue, u_key = [7], u_val = [1]\<rparr>,
               \<lparr>u_seq = 101, u_type = kTypeDeletion, u_key = [7], u_val = []\<rparr>]))"
proof -
  let ?qus = "[(100 :: u64, [Update_Put [7] [1]]), (101, [Update_Delete [7]])]"
  let ?dest = "PosixWritableFile_new (\<lambda>_. []) (str ''LOG'') 7 \<lparr>mf_data = [], mf_pos = 0\<rparr>"
  have inv: "writefile_inv 7 ?dest" "writefile_contents (\<lambda>fd. mf_data) ?dest = []"
    by (simp_all add: writefile_inv_def writefile_contents_def PosixWritableFile_new_def)
  have fits: "\<forall>(q, us) \<in> set ?qus. list_all update_fits us \<and> length us < 2 ^ 31" by (simp add: update_fits_def)
  have two: "length ?qus = 2" "all_numbered (take 2 ?qus) =
      [\<lparr>u_seq = 100, u_type = kTypeValue, u_key = [7], u_val = [1]\<rparr>,
       \<lparr>u_seq = 101, u_type = kTypeDeletion, u_key = [7], u_val = []\<rparr>]"
    by simp_all
  note rule = recovery_replays_complete_batches [OF memk.kernel_write_axioms memr.kernel_read_axioms
      bump.heap_alloc_axioms bytewise.key_order_axioms inv fits, of "[]" True True]
  from rule obtain w m0 where w: "AddRecords (PosixWritableFile_Append mem_sys) (PosixWritableFile_Flush mem_sys)
        (Writer_new ?dest) (map (\<lambda>(q, us). WriteBatch_Contents (built_batch q us)) ?qus) = Some (Status_OK, w)"
    "MemTable_new bump_heap = Some m0"
    and all: "\<And>f n. seqfile_left (\<lambda>fd m. drop (mf_pos m) (mf_data m)) f = take n (writefile_contents (\<lambda>fd. mf_data) (w_dest w)) \<Longrightarrow>
        \<exists>recs r ms. read_log (\<lambda>f n. PosixSequentialFile_Read mem_sys f n []) (PosixSequentialFile_Skip mem_sys)
              (Reader_new f True True 0) = Some (recs, r) \<and> r_reports r = []
          \<and> (length (writefile_contents (\<lambda>fd. mf_data) (w_dest w)) \<le> n \<longrightarrow> length recs = length ?qus) \<and> ms ! 0 = m0
          \<and> scan_yields Bytewise_Compare (ms ! length recs) (all_numbered (take (length recs) ?qus))"
    by (elim exE conjE) (rule that, assumption, assumption, blast)
  let ?n = "length (writefile_contents (\<lambda>fd. mf_data) (w_dest w))"
  show ?thesis
  proof (intro exI [of _ w] exI [of _ m0] conjI w allI impI)
    fix f :: "memfile seqfile"
    assume "seqfile_left (\<lambda>fd m. drop (mf_pos m) (mf_data m)) f = writefile_contents (\<lambda>fd. mf_data) (w_dest w)"
    then show "\<exists>recs r ms. read_log (\<lambda>f n. PosixSequentialFile_Read mem_sys f n []) (PosixSequentialFile_Skip mem_sys)
              (Reader_new f True True 0) = Some (recs, r) \<and> r_reports r = [] \<and> length recs = 2 \<and> ms ! 0 = m0
          \<and> scan_yields Bytewise_Compare (ms ! 2)
              [\<lparr>u_seq = 100, u_type = kTypeValue, u_key = [7], u_val = [1]\<rparr>,
               \<lparr>u_seq = 101, u_type = kTypeDeletion, u_key = [7], u_val = []\<rparr>]"
      using all [of f ?n] unfolding two(2) [symmetric] take_all [OF order_refl] two(1) by auto
  qed
qed

end
