(* ===== verification/Skip_Concurrent.thy ===== *)
theory Skip_Concurrent
  imports Skip_List "HOL-Library.Sublist"
begin

text \<open>
  Readers of the skip list that run while one thread inserts (\<open>data_structure/skip_list.h\<close>): the
  memory orders of \<open>Node::Next\<close>, \<open>SetNext\<close>, \<open>NoBarrier_Next\<close>, \<open>NoBarrier_SetNext\<close> and of \<open>max_height_\<close>.

  \<open>Insert\<close> is a machine that makes one store to shared memory per step.  Since only one thread stores,
  the stores made so far are one sequence, and a point of time is a length of it.  A reader has a view,
  the number of stores that happened before its next load.  A load returns the value that the location
  has at any time from the reader's view to now, so that a reader may see a stale value, and different
  times for different locations; an acquire load that reads from a release store raises the view to
  that store, a load that reads from a relaxed store does not.  Sequential consistency is the special
  case of loads that always read the present value.

  A reader is in the state \<open>R_failed\<close> after a load of a pointer that was never stored, a load through a
  node or of a key whose construction did not happen before, or a failed assertion.
\<close>

section \<open>Definitions\<close>

text \<open>The list, and the entries of \<open>next_\<close> arrays that have not been stored since \<open>NewNode\<close>.\<close>

record 'k cmem =
  cm_list :: "'k SkipList"
  cm_raw :: "(nat \<times> nat) list"

datatype 'k store =
    St_rnd u32
  | St_max_height nat
  | St_new 'k nat
  | St_relaxed nat nat "nat option"
  | St_release nat nat "nat option"

definition store_next :: "nat \<Rightarrow> nat \<Rightarrow> nat option \<Rightarrow> 'k cmem \<Rightarrow> 'k cmem" where
  "store_next x n y m =
     (case Node_SetNext (cm_list m) x n y of
        None \<Rightarrow> m
      | Some s \<Rightarrow> m\<lparr>cm_list := s, cm_raw := filter (\<lambda>slot. slot \<noteq> (x, n)) (cm_raw m)\<rparr>)"

fun apply_store :: "'k cmem \<Rightarrow> 'k store \<Rightarrow> 'k cmem" where
  "apply_store m (St_rnd rnd) = m\<lparr>cm_list := (cm_list m)\<lparr>sl_rnd := rnd\<rparr>\<rparr>"
| "apply_store m (St_max_height h) = m\<lparr>cm_list := (cm_list m)\<lparr>sl_max_height := h\<rparr>\<rparr>"
| "apply_store m (St_new key h) =
     (let (x, s) = NewNode (cm_list m) key h in \<lparr>cm_list = s, cm_raw = map (Pair x) [0..<h] @ cm_raw m\<rparr>)"
| "apply_store m (St_relaxed x n y) = store_next x n y m"
| "apply_store m (St_release x n y) = store_next x n y m"

definition mem :: "'k cmem \<Rightarrow> 'k store list \<Rightarrow> 'k cmem" where
  "mem m es = foldl apply_store m es"

text \<open>
  \<open>Insert\<close>, store by store.  What the inserting thread loads it has stored itself, so its loads return
  the present value.  \<open>None\<close> is a failed assertion or an access outside a node.
\<close>

datatype 'k wpc =
    W_idle
  | W_raise "nat option list" nat 'k
  | W_new "nat option list" nat 'k
  | W_link "nat option list" nat nat nat
  | W_publish "nat option list" nat nat nat
  | W_failed

record 'k writer =
  w_keys :: "'k list"
  w_pc :: "'k wpc"

definition Node_NoBarrier_Next :: "'k SkipList \<Rightarrow> nat \<Rightarrow> nat \<Rightarrow> nat option option" where
  "Node_NoBarrier_Next s x n = Node_Next s x n"

definition writer_step :: "('k \<Rightarrow> 'k \<Rightarrow> int) \<Rightarrow> 'k SkipList \<Rightarrow> 'k writer \<Rightarrow> ('k store \<times> 'k writer) option" where
  "writer_step compare s w =
     (case w_pc w of
        W_idle \<Rightarrow>
          (case w_keys w of
             [] \<Rightarrow> None
           | key # ks \<Rightarrow>
               do {
                 (x, prev) \<leftarrow> FindGreaterOrEqual compare s key (Some (replicate kMaxHeight None));
                 if \<not> (x = None \<or> \<not> SkipList_Equal compare key (key_of s (the x))) then None
                 else
                   do {
                     (h, s) \<leftarrow> RandomHeight s;
                     Some (St_rnd (sl_rnd s),
                       \<lparr>w_keys = ks,
                        w_pc = (if h > GetMaxHeight s then W_raise (the prev) h key
                                else W_new (the prev) h key)\<rparr>)
                   }
               })
      | W_raise prev h key \<Rightarrow>
          Some (St_max_height h, w\<lparr>w_pc := W_new (raise_prev prev (GetMaxHeight s) h) h key\<rparr>)
      | W_new prev h key \<Rightarrow>
          Some (St_new key h, w\<lparr>w_pc := W_link prev (length (sl_nodes s)) h 0\<rparr>)
      | W_link prev x h i \<Rightarrow>
          do {
            p \<leftarrow> prev ! i;
            nxt \<leftarrow> Node_NoBarrier_Next s p i;
            _ \<leftarrow> Node_SetNext s x i nxt;
            Some (St_relaxed x i nxt, w\<lparr>w_pc := W_publish prev x h i\<rparr>)
          }
      | W_publish prev x h i \<Rightarrow>
          do {
            p \<leftarrow> prev ! i;
            _ \<leftarrow> Node_SetNext s p i (Some x);
            Some (St_release p i (Some x),
              w\<lparr>w_pc := (if i + 1 < h then W_link prev x h (i + 1) else W_idle)\<rparr>)
          }
      | W_failed \<Rightarrow> None)"

definition writer_done :: "'k writer \<Rightarrow> bool" where
  "writer_done w \<longleftrightarrow> w_keys w = [] \<and> w_pc w = W_idle"

text \<open>A load of \<open>x->next_[n]\<close> that reads the value at time \<open>p\<close>, and the reader's view after it.\<close>

fun stores_to :: "nat \<Rightarrow> nat \<Rightarrow> 'k store \<Rightarrow> bool" where
  "stores_to x n (St_relaxed y i _) \<longleftrightarrow> y = x \<and> i = n"
| "stores_to x n (St_release y i _) \<longleftrightarrow> y = x \<and> i = n"
| "stores_to x n _ \<longleftrightarrow> False"

fun is_release :: "'k store \<Rightarrow> bool" where
  "is_release (St_release _ _ _) \<longleftrightarrow> True"
| "is_release _ \<longleftrightarrow> False"

definition load_view :: "'k store list \<Rightarrow> nat \<Rightarrow> nat \<Rightarrow> nat \<Rightarrow> nat \<Rightarrow> nat" where
  "load_view es view p x n =
     (case find (\<lambda>q. stores_to x n (es ! q)) (rev [0..<p]) of
        Some q \<Rightarrow> if is_release (es ! q) then max view (Suc q) else view
      | None \<Rightarrow> view)"

definition acquire_Next ::
  "'k cmem \<Rightarrow> 'k store list \<Rightarrow> nat \<Rightarrow> nat \<Rightarrow> nat \<Rightarrow> nat \<Rightarrow> (nat option \<times> nat) option" where
  "acquire_Next m es view p x n =
     (if x < length (sl_nodes (cm_list (mem m (take view es))))
         \<and> (x, n) \<notin> set (cm_raw (mem m (take p es)))
      then do { y \<leftarrow> Node_Next (cm_list (mem m (take p es))) x n; Some (y, load_view es view p x n) }
      else None)"

text \<open>
  A reader seeks a target and then moves with \<open>Next\<close>: the node and level of \<open>FindGreaterOrEqual\<close>, or
  \<open>node_\<close> of the iterator; \<open>r_out\<close> has the nodes that the iterator has been at, \<open>r_begin\<close> the view at
  the start of the seek, and \<open>r_loads\<close> the number of loads since.
\<close>

datatype rpc = R_idle | R_begin | R_seek nat nat | R_at "nat option" | R_failed

record 'k reader =
  r_target :: 'k
  r_view :: nat
  r_pc :: rpc
  r_out :: "nat list"
  r_begin :: nat
  r_loads :: nat

definition reader_lands :: "nat option \<Rightarrow> nat \<Rightarrow> 'k reader \<Rightarrow> 'k reader" where
  "reader_lands y view r =
     r\<lparr>r_pc := R_at y, r_view := view, r_out := r_out r @ (case y of None \<Rightarrow> [] | Some n \<Rightarrow> [n])\<rparr>"

definition reader_step ::
  "('k \<Rightarrow> 'k \<Rightarrow> int) \<Rightarrow> 'k cmem \<Rightarrow> 'k store list \<Rightarrow> nat \<Rightarrow> 'k reader \<Rightarrow> 'k reader" where
  "reader_step compare m es p r =
     (let r = r\<lparr>r_loads := r_loads r + 1\<rparr> in
      case r_pc r of
        R_begin \<Rightarrow> r\<lparr>r_pc := R_seek 0 (GetMaxHeight (cm_list (mem m (take p es))) - 1)\<rparr>
      | R_seek x level \<Rightarrow>
          (case acquire_Next m es (r_view r) p x level of
             None \<Rightarrow> r\<lparr>r_pc := R_failed\<rparr>
           | Some (y, view) \<Rightarrow>
               let s = cm_list (mem m (take view es)) in
               if y \<noteq> None \<and> \<not> the y < length (sl_nodes s) then r\<lparr>r_pc := R_failed\<rparr>
               else if y \<noteq> None \<and> compare (key_of s (the y)) (r_target r) < 0
               then r\<lparr>r_pc := R_seek (the y) level, r_view := view\<rparr>
               else if level = 0 then reader_lands y view r
               else r\<lparr>r_pc := R_seek x (level - 1), r_view := view\<rparr>)
      | R_at (Some x) \<Rightarrow>
          (case acquire_Next m es (r_view r) p x 0 of
             None \<Rightarrow> r\<lparr>r_pc := R_failed\<rparr>
           | Some (y, view) \<Rightarrow> reader_lands y view r)
      | R_at None \<Rightarrow> r\<lparr>r_pc := R_failed\<rparr>
      | R_idle \<Rightarrow> r
      | R_failed \<Rightarrow> r)"

definition reader_loading :: "'k reader \<Rightarrow> bool" where
  "reader_loading r \<longleftrightarrow> (case r_pc r of R_begin \<Rightarrow> True | R_seek _ _ \<Rightarrow> True | R_at y \<Rightarrow> y \<noteq> None | _ \<Rightarrow> False)"

definition start_seek :: "'k \<Rightarrow> 'k reader \<Rightarrow> 'k reader" where
  "start_seek target r =
     r\<lparr>r_target := target, r_pc := R_begin, r_out := [], r_begin := r_view r, r_loads := 0\<rparr>"

text \<open>
  One writer and any number of readers.  A reader's view can also rise because of a mutex or another
  synchronisation outside the list.
\<close>

record 'k conc =
  c_stores :: "'k store list"
  c_writer :: "'k writer"
  c_readers :: "'k reader list"

definition conc_init :: "'k list \<Rightarrow> 'k reader list \<Rightarrow> 'k conc" where
  "conc_init ks rs = \<lparr>c_stores = [], c_writer = \<lparr>w_keys = ks, w_pc = W_idle\<rparr>, c_readers = rs\<rparr>"

definition new_reader :: "'k \<Rightarrow> 'k reader" where
  "new_reader zero =
     \<lparr>r_target = zero, r_view = 0, r_pc = R_idle, r_out = [], r_begin = 0, r_loads = 0\<rparr>"

inductive conc_step :: "('k \<Rightarrow> 'k \<Rightarrow> int) \<Rightarrow> 'k cmem \<Rightarrow> 'k conc \<Rightarrow> 'k conc \<Rightarrow> bool"
  for compare :: "'k \<Rightarrow> 'k \<Rightarrow> int" and m :: "'k cmem" where
  store: "writer_step compare (cm_list (mem m (c_stores c))) (c_writer c) = Some (e, w) \<Longrightarrow>
    conc_step compare m c (c\<lparr>c_stores := c_stores c @ [e], c_writer := w\<rparr>)"
| store_fails: "writer_step compare (cm_list (mem m (c_stores c))) (c_writer c) = None \<Longrightarrow>
    \<not> writer_done (c_writer c) \<Longrightarrow>
    conc_step compare m c (c\<lparr>c_writer := (c_writer c)\<lparr>w_pc := W_failed\<rparr>\<rparr>)"
| load: "j < length (c_readers c) \<Longrightarrow> reader_loading (c_readers c ! j) \<Longrightarrow>
    r_view (c_readers c ! j) \<le> p \<Longrightarrow> p \<le> length (c_stores c) \<Longrightarrow>
    conc_step compare m c (c\<lparr>c_readers := (c_readers c)[j := reader_step compare m (c_stores c) p (c_readers c ! j)]\<rparr>)"
| seek: "j < length (c_readers c) \<Longrightarrow> r_pc (c_readers c ! j) \<noteq> R_failed \<Longrightarrow>
    conc_step compare m c (c\<lparr>c_readers := (c_readers c)[j := start_seek target (c_readers c ! j)]\<rparr>)"
| synchronise: "j < length (c_readers c) \<Longrightarrow> r_view (c_readers c ! j) \<le> p \<Longrightarrow> p \<le> length (c_stores c) \<Longrightarrow>
    conc_step compare m c (c\<lparr>c_readers := (c_readers c)[j := (c_readers c ! j)\<lparr>r_view := p\<rparr>]\<rparr>)"

inductive conc_reach :: "('k \<Rightarrow> 'k \<Rightarrow> int) \<Rightarrow> 'k cmem \<Rightarrow> 'k conc \<Rightarrow> 'k conc \<Rightarrow> bool"
  for compare :: "'k \<Rightarrow> 'k \<Rightarrow> int" and m :: "'k cmem" and c0 :: "'k conc" where
  start: "conc_reach compare m c0 c0"
| step: "conc_reach compare m c0 c \<Longrightarrow> conc_step compare m c c' \<Longrightarrow> conc_reach compare m c0 c'"

text \<open>The keys on the bottom level, as a scan would find them at that moment.\<close>

definition list_keys :: "'k SkipList \<Rightarrow> 'k list option" where
  "list_keys s = do { it \<leftarrow> Iterator_SeekToFirst s; scan s it }"

section \<open>The stores of an insertion\<close>

inductive writer_runs :: "('k \<Rightarrow> 'k \<Rightarrow> int) \<Rightarrow> 'k cmem \<Rightarrow> 'k writer \<Rightarrow> 'k cmem \<Rightarrow> 'k writer \<Rightarrow> bool"
  for compare :: "'k \<Rightarrow> 'k \<Rightarrow> int" where
  halt: "writer_runs compare m w m w"
| more: "writer_step compare (cm_list m) w = Some (e, w') \<Longrightarrow> writer_runs compare (apply_store m e) w' m'' w'' \<Longrightarrow>
    writer_runs compare m w m'' w''"

lemma link_runs:
  "Insert_link (cm_list m) prev x h i = Some s' \<Longrightarrow> i < h \<Longrightarrow>
   \<exists>m'. writer_runs compare m \<lparr>w_keys = ks, w_pc = W_link prev x h i\<rparr> m' \<lparr>w_keys = ks, w_pc = W_idle\<rparr> \<and> cm_list m' = s'"
proof (induction "h - i" arbitrary: i m)
  case (Suc d)
  from Suc.prems obtain p nxt s1 s2 where step: "prev ! i = Some p" "Node_Next (cm_list m) p i = Some nxt"
    "Node_SetNext (cm_list m) x i nxt = Some s1" "Node_SetNext s1 p i (Some x) = Some s2"
    "Insert_link s2 prev x h (i + 1) = Some s'"
    by (subst (asm) Insert_link.simps) (auto split: bind_splits)
  let ?m1 = "apply_store m (St_relaxed x i nxt)"
  let ?m2 = "apply_store ?m1 (St_release p i (Some x))"
  let ?w = "\<lambda>pc. \<lparr>w_keys = ks, w_pc = pc\<rparr>"
  have m: "cm_list ?m1 = s1" "cm_list ?m2 = s2" using step(3,4) by (simp_all add: store_next_def)
  have w: "writer_step compare (cm_list m) (?w (W_link prev x h i)) = Some (St_relaxed x i nxt, ?w (W_publish prev x h i))"
    "writer_step compare (cm_list ?m1) (?w (W_publish prev x h i))
      = Some (St_release p i (Some x), ?w (if i + 1 < h then W_link prev x h (i + 1) else W_idle))"
    using step m(1) by (simp_all add: writer_step_def Node_NoBarrier_Next_def del: apply_store.simps)
  have "\<exists>m'. writer_runs compare ?m2 (?w (if i + 1 < h then W_link prev x h (i + 1) else W_idle)) m' (?w W_idle) \<and> cm_list m' = s'"
  proof (cases "i + 1 < h")
    case True
    then show ?thesis using Suc.hyps(1) [of "i + 1" ?m2] Suc.hyps(2) step(5) m(2) by simp
  next
    case False
    with step(5) have "s2 = s'" by (subst (asm) Insert_link.simps) simp
    with False m(2) show ?thesis by (auto intro: writer_runs.halt simp del: apply_store.simps)
  qed
  then show ?case using writer_runs.more [OF w(1)] writer_runs.more [OF w(2)] by blast
qed simp

text \<open>Run without readers, the machine makes of the list what \<open>Insert\<close> makes of it.\<close>

theorem writer_runs_insert:
  assumes "SkipList_Insert compare (cm_list m) key = Some s'"
  shows "\<exists>m'. writer_runs compare m \<lparr>w_keys = key # ks, w_pc = W_idle\<rparr> m' \<lparr>w_keys = ks, w_pc = W_idle\<rparr> \<and> cm_list m' = s'"
proof -
  let ?s = "cm_list m" and ?w = "\<lambda>pc. \<lparr>w_keys = ks, w_pc = pc\<rparr>"
  obtain x prev where fge: "FindGreaterOrEqual compare ?s key (Some (replicate kMaxHeight None)) = Some (x, prev)"
    using assms by (auto simp: SkipList_Insert_def split: bind_splits)
  obtain h rnd where h: "RandomHeight ?s = Some (h, ?s\<lparr>sl_rnd := rnd\<rparr>)" "0 < h" using RandomHeight_total by blast
  have ok: "x = None \<or> \<not> SkipList_Equal compare key (key_of ?s (the x))"
    using assms fge by (auto simp: SkipList_Insert_def split: if_splits)
  let ?hi = "sl_max_height ?s < h"
  let ?prev = "if ?hi then raise_prev (the prev) (sl_max_height ?s) h else the prev"
  let ?m1 = "apply_store m (St_rnd rnd)"
  let ?m2 = "if ?hi then apply_store ?m1 (St_max_height h) else ?m1"
  let ?m3 = "apply_store ?m2 (St_new key h)"
  have "Insert_link (cm_list ?m3) ?prev (length (sl_nodes ?s)) h 0 = Some s'"
    using assms fge ok h(1) by (auto simp: SkipList_Insert_def GetMaxHeight_def NewNode_def Let_def split: if_splits)
  from link_runs [OF this h(2)] obtain m' where m': "writer_runs compare ?m3 (?w (W_link ?prev (length (sl_nodes ?s)) h 0)) m' (?w W_idle)"
    "cm_list m' = s'" by blast
  have "writer_runs compare ?m2 (?w (W_new ?prev h key)) m' (?w W_idle)"
    by (rule writer_runs.more [OF _ m'(1)]) (simp add: writer_step_def)
  then have "writer_runs compare ?m1 (?w (if ?hi then W_raise (the prev) h key else W_new (the prev) h key)) m' (?w W_idle)"
    by (auto simp: writer_step_def GetMaxHeight_def intro: writer_runs.more)
  moreover have "writer_step compare ?s \<lparr>w_keys = key # ks, w_pc = W_idle\<rparr>
      = Some (St_rnd rnd, ?w (if ?hi then W_raise (the prev) h key else W_new (the prev) h key))"
    using fge ok h(1) by (auto simp: writer_step_def GetMaxHeight_def)
  ultimately have "writer_runs compare m \<lparr>w_keys = key # ks, w_pc = W_idle\<rparr> m' (?w W_idle)"
    by (rule writer_runs.more [rotated])
  with m'(2) show ?thesis by blast
qed

section \<open>The history of the list\<close>

text \<open>The invariant of the sequential list without its pointers, and the pointers when node \<open>x\<close> is
  linked on the levels below \<open>lk x\<close>.\<close>

definition shape_ok :: "('k \<Rightarrow> 'k \<Rightarrow> int) \<Rightarrow> 'k SkipList \<Rightarrow> nat list \<Rightarrow> bool" where
  "shape_ok compare s L \<longleftrightarrow>
     sl_nodes s \<noteq> [] \<and> distinct L \<and> set L = {0<..<length (sl_nodes s)} \<and> height s 0 = kMaxHeight
     \<and> (\<forall>x \<in> set L. 0 < height s x \<and> height s x \<le> sl_max_height s)
     \<and> 0 < sl_max_height s \<and> sl_max_height s \<le> kMaxHeight
     \<and> sorted_wrt (\<lambda>x y. \<not> compare (key_of s y) (key_of s x) < 0) L"

definition chains :: "'k SkipList \<Rightarrow> nat list \<Rightarrow> (nat \<Rightarrow> nat) \<Rightarrow> bool" where
  "chains s L lk \<longleftrightarrow> (\<forall>i < kMaxHeight. chain (succ_at s i) 0 (filter (\<lambda>x. i < lk x) L))"

lemma chains_cong: "(\<And>x. x \<in> set L \<Longrightarrow> lk x = lk' x) \<Longrightarrow> chains s L lk = chains s L lk'"
  unfolding chains_def by (simp cong: filter_cong)

lemma sl_inv_iff: "sl_inv compare s L \<longleftrightarrow> shape_ok compare s L \<and> chains s L (height s)"
  unfolding sl_inv_def shape_ok_def chains_def level_list_def by blast

fun publishes :: "nat \<Rightarrow> 'k store \<Rightarrow> bool" where
  "publishes x (St_release _ _ y) \<longleftrightarrow> y = Some x"
| "publishes x _ \<longleftrightarrow> False"

definition linked :: "'k SkipList \<Rightarrow> 'k store list \<Rightarrow> nat \<Rightarrow> nat" where
  "linked s es x = (if x < length (sl_nodes s) then height s x else length (filter (publishes x) es))"

lemma linked_mono: "t \<le> t' \<Longrightarrow> linked s (take t es) x \<le> linked s (take t' es) x"
proof -
  assume "t \<le> t'"
  then obtain ys where "take t' es = take t es @ ys" by (metis le_iff_add take_add)
  then show ?thesis by (simp add: linked_def)
qed

lemma linked_mono_all: "linked s (take t es) x \<le> linked s es x"
  using linked_mono [of t "max t (length es)" s es x] by simp

text \<open>What holds at a time in the past: the list \<open>s\<close> and its nodes \<open>L\<close> are those of the present.\<close>

definition snap :: "'k SkipList \<Rightarrow> nat list \<Rightarrow> 'k cmem \<Rightarrow> (nat \<Rightarrow> nat) \<Rightarrow> bool" where
  "snap s L m lk \<longleftrightarrow>
     0 < length (sl_nodes (cm_list m)) \<and> length (sl_nodes (cm_list m)) \<le> length (sl_nodes s)
     \<and> (\<forall>x < length (sl_nodes (cm_list m)). key_of (cm_list m) x = key_of s x \<and> height (cm_list m) x = height s x)
     \<and> 0 < sl_max_height (cm_list m) \<and> sl_max_height (cm_list m) \<le> kMaxHeight
     \<and> (\<forall>x. length (sl_nodes (cm_list m)) \<le> x \<longrightarrow> lk x = 0)
     \<and> (\<forall>x. lk x \<le> height s x \<or> lk x = 0) \<and> (\<forall>(x, i) \<in> set (cm_raw m). 0 < x \<and> lk x \<le> i)
     \<and> chains (cm_list m) L lk"

definition relaxed_unlinked :: "(nat \<Rightarrow> nat) \<Rightarrow> 'k store \<Rightarrow> bool" where
  "relaxed_unlinked lk e \<longleftrightarrow> (\<forall>x i y. e = St_relaxed x i y \<longrightarrow> 0 < x \<and> lk x \<le> i)"

definition hist_inv :: "('k \<Rightarrow> 'k \<Rightarrow> int) \<Rightarrow> 'k cmem \<Rightarrow> 'k store list \<Rightarrow> nat list \<Rightarrow> bool" where
  "hist_inv compare m es L \<longleftrightarrow>
     shape_ok compare (cm_list (mem m es)) L
     \<and> (\<forall>t \<le> length es. snap (cm_list (mem m es)) L (mem m (take t es)) (linked (cm_list m) (take t es)))
     \<and> (\<forall>t < length es. relaxed_unlinked (linked (cm_list m) (take t es)) (es ! t))"

lemma mem_snoc [simp]: "mem m (es @ [e]) = apply_store (mem m es) e"
  by (simp add: mem_def)

lemma hist_now: "hist_inv compare m es L \<Longrightarrow> snap (cm_list (mem m es)) L (mem m es) (linked (cm_list m) es)"
  unfolding hist_inv_def by (auto dest: spec [where x = "length es"])

lemma hist_base: "hist_inv compare m es L \<Longrightarrow> length (sl_nodes (cm_list m)) \<le> length (sl_nodes (cm_list (mem m es)))"
proof -
  assume "hist_inv compare m es L"
  then have "snap (cm_list (mem m es)) L (mem m (take 0 es)) (linked (cm_list m) (take 0 es))"
    unfolding hist_inv_def by blast
  then show ?thesis by (simp add: snap_def mem_def)
qed

text \<open>One more store, which may have added the node \<open>n\<close> to the list.\<close>

lemma hist_extend:
  fixes m es e
  defines "s \<equiv> cm_list (mem m es)" and "s' \<equiv> cm_list (mem m (es @ [e]))"
  assumes hist: "hist_inv compare m es L"
    and shape: "shape_ok compare s' L'" "length (sl_nodes s) \<le> length (sl_nodes s')"
      "\<And>x. x < length (sl_nodes s) \<Longrightarrow> key_of s' x = key_of s x \<and> height s' x = height s x"
    and L: "L = A @ B" "L' = A @ ns @ B" "set ns \<subseteq> {length (sl_nodes s)..}"
    and now: "snap s' L' (mem m (es @ [e])) (linked (cm_list m) (es @ [e]))"
    and relaxed: "relaxed_unlinked (linked (cm_list m) es) e"
  shows "hist_inv compare m (es @ [e]) L'"
  unfolding hist_inv_def
proof (intro conjI allI impI)
  show "shape_ok compare (cm_list (mem m (es @ [e]))) L'" using shape(1) unfolding s'_def .
next
  fix t assume "t \<le> length (es @ [e])"
  then consider "t = Suc (length es)" | "t \<le> length es" by fastforce
  then show "snap (cm_list (mem m (es @ [e]))) L' (mem m (take t (es @ [e]))) (linked (cm_list m) (take t (es @ [e])))"
  proof cases
    case 2
    let ?m = "mem m (take t es)" and ?lk = "linked (cm_list m) (take t es)"
    have old: "snap s L ?m ?lk" using hist 2 unfolding hist_inv_def s_def by blast
    then have zero: "?lk x = 0" if "length (sl_nodes s) \<le> x" for x
      using that unfolding snap_def by (meson le_trans)
    then have "filter (\<lambda>x. i < ?lk x) ns = []" for i using L(3) by (fastforce simp: filter_empty_conv)
    then have "chains (cm_list ?m) L' ?lk" using old L by (simp add: snap_def chains_def)
    moreover have "?lk x \<le> height s' x \<or> ?lk x = 0" for x
      using old shape(3) [of x] zero [of x] unfolding snap_def by (metis not_le)
    moreover have "key_of (cm_list ?m) x = key_of s' x \<and> height (cm_list ?m) x = height s' x"
      if "x < length (sl_nodes (cm_list ?m))" for x
      using old that shape(3) [of x] unfolding snap_def by (metis order.strict_trans2)
    ultimately have "snap s' L' ?m ?lk"
      using old shape(2) by (auto simp: snap_def)
    then show ?thesis using 2 by (simp add: s'_def)
  qed (use now in \<open>simp add: s'_def\<close>)
next
  fix t assume "t < length (es @ [e])"
  then show "relaxed_unlinked (linked (cm_list m) (take t (es @ [e]))) ((es @ [e]) ! t)"
    using hist relaxed by (cases "t = length es") (auto simp: hist_inv_def nth_append)
qed

section \<open>The inserting thread\<close>

definition full :: "'k SkipList \<Rightarrow> nat list \<Rightarrow> (nat \<Rightarrow> nat) \<Rightarrow> bool" where
  "full s L lk \<longleftrightarrow> (\<forall>x \<in> set L. lk x = height s x)"

definition prev_ok :: "('k \<Rightarrow> 'k \<Rightarrow> int) \<Rightarrow> 'k SkipList \<Rightarrow> nat list \<Rightarrow> 'k \<Rightarrow> nat option list \<Rightarrow> bool" where
  "prev_ok compare s L key prev \<longleftrightarrow> length prev = kMaxHeight
     \<and> (\<forall>j < sl_max_height s. prev ! j = Some (pred_at s L (\<lambda>x. compare (key_of s x) key < 0) j))"

text \<open>The node \<open>n\<close> between its predecessors and successors, linked on the levels below \<open>i\<close>.\<close>

definition linking :: "'k SkipList \<Rightarrow> nat list \<Rightarrow> (nat \<Rightarrow> nat) \<Rightarrow> nat option list \<Rightarrow> nat \<Rightarrow> nat \<Rightarrow> nat \<Rightarrow> bool" where
  "linking s L lk prev n h i \<longleftrightarrow> i < h \<and> h \<le> kMaxHeight \<and> height s n = h \<and> lk n = i
     \<and> (\<exists>A B. L = A @ n # B \<and> (\<forall>j < h. prev ! j = Some (last (0 # filter (\<lambda>x. j < height s x) A))))
     \<and> (\<forall>x \<in> set L. x \<noteq> n \<longrightarrow> lk x = height s x)"

fun winv :: "('k \<Rightarrow> 'k \<Rightarrow> int) \<Rightarrow> 'k cmem \<Rightarrow> nat list \<Rightarrow> (nat \<Rightarrow> nat) \<Rightarrow> 'k wpc \<Rightarrow> bool" where
  "winv compare m L lk W_idle \<longleftrightarrow> cm_raw m = [] \<and> full (cm_list m) L lk"
| "winv compare m L lk (W_raise prev h key) \<longleftrightarrow> cm_raw m = [] \<and> full (cm_list m) L lk
     \<and> sl_max_height (cm_list m) < h \<and> h \<le> kMaxHeight \<and> prev_ok compare (cm_list m) L key prev"
| "winv compare m L lk (W_new prev h key) \<longleftrightarrow> cm_raw m = [] \<and> full (cm_list m) L lk
     \<and> 0 < h \<and> h \<le> sl_max_height (cm_list m) \<and> prev_ok compare (cm_list m) L key prev"
| "winv compare m L lk (W_link prev n h i) \<longleftrightarrow> set (cm_raw m) = Pair n ` {i..<h}
     \<and> linking (cm_list m) L lk prev n h i"
| "winv compare m L lk (W_publish prev n h i) \<longleftrightarrow> set (cm_raw m) = Pair n ` {Suc i..<h}
     \<and> linking (cm_list m) L lk prev n h i
     \<and> succ_at (cm_list m) i n = succ_at (cm_list m) i (the (prev ! i))"
| "winv compare m L lk W_failed \<longleftrightarrow> False"

lemma linked_snoc:
  "linked s (es @ [e]) = (\<lambda>x. linked s es x + (if publishes x e \<and> length (sl_nodes s) \<le> x then 1 else 0))"
  by (auto simp: linked_def fun_eq_iff)

lemma linked_snoc_same: "(\<And>x. \<not> publishes x e) \<Longrightarrow> linked s (es @ [e]) = linked s es"
  by (simp add: linked_snoc)

text \<open>Stores that change neither nodes nor pointers.\<close>

lemma hist_same_nodes:
  fixes m es e
  defines "s \<equiv> cm_list (mem m es)" and "s' \<equiv> cm_list (apply_store (mem m es) e)"
  assumes hist: "hist_inv compare m es L" and e: "\<And>x. \<not> publishes x e" "\<And>lk. relaxed_unlinked lk e"
    and nodes: "sl_nodes s' = sl_nodes s" "sl_max_height s \<le> sl_max_height s'" "sl_max_height s' \<le> kMaxHeight"
      "cm_raw (apply_store (mem m es) e) = cm_raw (mem m es)"
  shows "hist_inv compare m (es @ [e]) L"
proof (rule hist_extend [OF hist, where A = L and B = "[]" and ns = "[]"])
  have same: "height s' x = height s x" "succ_at s' i x = succ_at s i x" for x i
    using nodes(1) by (simp_all add: height_def succ_at_def)
  have ch: "chains s' L lk = chains s L lk" for lk
    using same(2) by (simp add: chains_def fun_eq_iff cong: chain_cong)
  have "shape_ok compare s L" using hist by (simp add: hist_inv_def s_def)
  then show "shape_ok compare (cm_list (mem m (es @ [e]))) L"
    using nodes same unfolding shape_ok_def s'_def by (auto intro: le_trans)
  show "snap (cm_list (mem m (es @ [e]))) L (mem m (es @ [e])) (linked (cm_list m) (es @ [e]))"
    using hist_now [OF hist] nodes same ch unfolding linked_snoc_same [OF e(1)] snap_def s_def s'_def mem_snoc
    by auto
qed (use nodes(1) e(2) in \<open>auto simp: s_def s'_def height_def\<close>)

text \<open>The effect of storing a pointer.\<close>

lemma store_next_effect:
  assumes "i < kMaxHeight" and "x < length (sl_nodes (cm_list m))" and "i < height (cm_list m) x"
  shows "same_shape (cm_list m) (cm_list (store_next x i v m))"
    and "succ_at (cm_list (store_next x i v m)) j =
      (if j = i then (succ_at (cm_list m) i)(x := v) else succ_at (cm_list m) j)"
    and "cm_raw (store_next x i v m) = filter (\<lambda>slot. slot \<noteq> (x, i)) (cm_raw m)"
    and "\<exists>s'. Node_SetNext (cm_list m) x i v = Some s'"
  using Node_SetNext_Some [OF assms, of v] by (auto simp: store_next_def)

lemma same_shape_ok: "same_shape s s' \<Longrightarrow> shape_ok compare s L \<Longrightarrow> shape_ok compare s' L"
  unfolding shape_ok_def same_shape_def by auto

lemma hist_same_shape:
  fixes m es e
  defines "s \<equiv> cm_list (mem m es)" and "m' \<equiv> apply_store (mem m es) e"
  assumes hist: "hist_inv compare m es L" and sh: "same_shape s (cm_list m')"
    and raw: "\<forall>(x, i) \<in> set (cm_raw m'). 0 < x \<and> linked (cm_list m) (es @ [e]) x \<le> i"
    and lk: "\<forall>x. length (sl_nodes s) \<le> x \<longrightarrow> linked (cm_list m) (es @ [e]) x = 0"
      "\<forall>x. linked (cm_list m) (es @ [e]) x \<le> height s x \<or> linked (cm_list m) (es @ [e]) x = 0"
    and chains: "chains (cm_list m') L (linked (cm_list m) (es @ [e]))"
    and relaxed: "relaxed_unlinked (linked (cm_list m) es) e"
  shows "hist_inv compare m (es @ [e]) L"
proof (rule hist_extend [OF hist, where A = L and B = "[]" and ns = "[]"])
  show "shape_ok compare (cm_list (mem m (es @ [e]))) L"
    using hist same_shape_ok [OF sh] by (simp add: hist_inv_def s_def m'_def)
  show "snap (cm_list (mem m (es @ [e]))) L (mem m (es @ [e])) (linked (cm_list m) (es @ [e]))"
    using hist_now [OF hist] sh raw lk chains unfolding snap_def same_shape_def s_def m'_def mem_snoc
    by auto
qed (use sh relaxed in \<open>auto simp: s_def m'_def same_shape_def\<close>)

text \<open>The keys the writer still has to put into the list, and those that are in it.\<close>

fun pending :: "'k wpc \<Rightarrow> 'k list" where
  "pending (W_raise _ _ key) = [key]"
| "pending (W_new _ _ key) = [key]"
| "pending _ = []"

definition keys_inv :: "('k \<Rightarrow> 'k \<Rightarrow> int) \<Rightarrow> 'k list \<Rightarrow> 'k SkipList \<Rightarrow> nat list \<Rightarrow> 'k writer \<Rightarrow> bool" where
  "keys_inv compare all_keys s L w \<longleftrightarrow>
     mset (sl_keys s L) + mset (pending (w_pc w)) + mset (w_keys w) = mset all_keys
     \<and> sorted_wrt (\<lambda>a b. compare b a \<noteq> 0) (pending (w_pc w) @ w_keys w)
     \<and> (\<forall>a \<in> set (sl_keys s L). \<forall>k \<in> set (pending (w_pc w) @ w_keys w). compare k a \<noteq> 0)"

definition conc_inv :: "('k \<Rightarrow> 'k \<Rightarrow> int) \<Rightarrow> 'k list \<Rightarrow> 'k cmem \<Rightarrow> 'k store list \<Rightarrow> nat list \<Rightarrow> 'k writer \<Rightarrow> bool" where
  "conc_inv compare all_keys m es L w \<longleftrightarrow>
     hist_inv compare m es L \<and> winv compare (mem m es) L (linked (cm_list m) es) (w_pc w)
     \<and> keys_inv compare all_keys (cm_list (mem m es)) L w"

lemma full_sl_inv:
  assumes "hist_inv compare m es L" and "full (cm_list (mem m es)) L (linked (cm_list m) es)"
  shows "sl_inv compare (cm_list (mem m es)) L"
proof -
  have "chains (cm_list (mem m es)) L (linked (cm_list m) es)" using hist_now [OF assms(1)] by (simp add: snap_def)
  then have "chains (cm_list (mem m es)) L (height (cm_list (mem m es)))"
    using assms(2) by (subst chains_cong [where lk' = "linked (cm_list m) es"]) (auto simp: full_def)
  then show ?thesis using assms(1) by (simp add: sl_inv_iff hist_inv_def)
qed

lemma nodes_kept [simp]:
  "sl_keys (s\<lparr>sl_max_height := h\<rparr>) L = sl_keys s L" "sl_keys (s\<lparr>sl_rnd := rnd\<rparr>) L = sl_keys s L"
  "pred_at (s\<lparr>sl_max_height := h\<rparr>) L P j = pred_at s L P j" "pred_at (s\<lparr>sl_rnd := rnd\<rparr>) L P j = pred_at s L P j"
  "full (s\<lparr>sl_max_height := h\<rparr>) L lk = full s L lk" "full (s\<lparr>sl_rnd := rnd\<rparr>) L lk = full s L lk"
  by (simp_all add: sl_keys_def pred_at_def level_list_def height_def full_def)

lemma raise_step:
  assumes inv: "conc_inv compare ks m es L w" and pc: "w_pc w = W_raise prev h key"
  shows "\<exists>e w'. writer_step compare (cm_list (mem m es)) w = Some (e, w') \<and> conc_inv compare ks m (es @ [e]) L w'"
proof -
  let ?s = "cm_list (mem m es)" and ?e = "St_max_height h :: 'a store"
  let ?prev = "raise_prev prev (sl_max_height ?s) h"
  have hist: "hist_inv compare m es L" and w: "cm_raw (mem m es) = []" "full ?s L (linked (cm_list m) es)"
    "sl_max_height ?s < h" "h \<le> kMaxHeight" "prev_ok compare ?s L key prev" and k: "keys_inv compare ks ?s L w"
    using inv pc by (auto simp: conc_inv_def)
  note sl = full_sl_inv [OF hist w(2)]
  have "hist_inv compare m (es @ [?e]) L"
    by (rule hist_same_nodes [OF hist]) (use w in \<open>auto simp: relaxed_unlinked_def\<close>)
  moreover have "?prev ! j = Some (pred_at ?s L P j)" if "j < h" "P = (\<lambda>x. compare (key_of ?s x) key < 0)" for j P
    using that w(4,5) pred_above [OF sl, of j P] raise_prev_nth(2) [of j prev "sl_max_height ?s" h]
    by (auto simp: prev_ok_def)
  then have "prev_ok compare (?s\<lparr>sl_max_height := h\<rparr>) L key ?prev"
    using w(5) raise_prev_nth(1) [of prev] by (simp add: prev_ok_def)
  moreover have "linked (cm_list m) (es @ [?e]) = linked (cm_list m) es" by (simp add: linked_snoc_same)
  ultimately have "conc_inv compare ks m (es @ [?e]) L (w\<lparr>w_pc := W_new ?prev h key\<rparr>)"
    using w k pc by (simp add: conc_inv_def keys_inv_def)
  then show ?thesis by (auto simp: writer_step_def pc GetMaxHeight_def)
qed

context skip_order
begin

lemma insert_assertion:
  assumes "\<And>x. x \<in> set L \<Longrightarrow> compare key (key_of s x) \<noteq> 0"
  shows "first_opt (dropWhile P L) = None \<or> \<not> SkipList_Equal compare key (key_of s (the (first_opt (dropWhile P L))))"
proof (cases "dropWhile P L")
  case (Cons y ys)
  then have "y \<in> set L" by (metis list.set_intros(1) set_dropWhileD)
  with Cons assms show ?thesis by (simp add: SkipList_Equal_def)
qed (simp del: dropWhile_eq_Nil_conv)

lemma idle_step:
  assumes inv: "conc_inv compare ks m es L w" and pc: "w_pc w = W_idle" "w_keys w = key # rest"
  shows "\<exists>e w'. writer_step compare (cm_list (mem m es)) w = Some (e, w') \<and> conc_inv compare ks m (es @ [e]) L w'"
proof -
  let ?s = "cm_list (mem m es)"
  let ?P = "\<lambda>x. compare (key_of ?s x) key < 0"
  have hist: "hist_inv compare m es L" and w: "cm_raw (mem m es) = []" "full ?s L (linked (cm_list m) es)"
    and k: "keys_inv compare ks ?s L w"
    using inv pc by (auto simp: conc_inv_def)
  note sl = full_sl_inv [OF hist w(2)]
  obtain h rnd where h: "RandomHeight ?s = Some (h, ?s\<lparr>sl_rnd := rnd\<rparr>)" "0 < h" "h \<le> kMaxHeight"
    using RandomHeight_total by blast
  obtain a where fge: "FindGreaterOrEqual compare ?s key (Some (replicate kMaxHeight None))
      = Some (first_opt (dropWhile ?P L), Some a)"
    and a: "length a = kMaxHeight" "\<And>j. j < sl_max_height ?s \<Longrightarrow> a ! j = Some (pred_at ?s L ?P j)"
    using prev_array [OF sl, of key] by blast
  have fresh: "first_opt (dropWhile ?P L) = None
      \<or> \<not> SkipList_Equal compare key (key_of ?s (the (first_opt (dropWhile ?P L))))"
    by (rule insert_assertion) (use k pc in \<open>auto simp: keys_inv_def sl_keys_def\<close>)
  let ?e = "St_rnd rnd"
  let ?w = "\<lparr>w_keys = rest, w_pc = (if h > sl_max_height ?s then W_raise a h key else W_new a h key)\<rparr>"
  have "writer_step compare ?s w = Some (?e, ?w)"
    using fge fresh h(1) by (auto simp: writer_step_def pc GetMaxHeight_def)
  moreover have "hist_inv compare m (es @ [?e]) L"
    by (rule hist_same_nodes [OF hist]) (use sl in \<open>auto simp: relaxed_unlinked_def sl_inv_def\<close>)
  moreover have "linked (cm_list m) (es @ [?e]) = linked (cm_list m) es" by (simp add: linked_snoc_same)
  ultimately have "conc_inv compare ks m (es @ [?e]) L ?w"
    using w k pc h a by (auto simp: conc_inv_def keys_inv_def prev_ok_def)
  with \<open>writer_step compare ?s w = Some (?e, ?w)\<close> show ?thesis by blast
qed

lemma new_shape:
  fixes key
  assumes sl: "sl_inv compare s L" and nn: "NewNode s key h = (n, s')" and h: "0 < h" "h \<le> sl_max_height s"
  defines "P \<equiv> \<lambda>x. compare (key_of s x) key < 0"
  shows "shape_ok compare s' (takeWhile P L @ n # dropWhile P L)"
proof -
  note new = NewNode_simps [OF nn]
  have init: "initial P L" unfolding P_def by (rule initial_below [OF sl])
  have L: "set L = {0<..<n}" "distinct L" "0 < n" using sl new(1) by (auto simp: sl_inv_def)
  have sets: "set (takeWhile P L) \<union> set (dropWhile P L) = set L" by (metis set_append takeWhile_dropWhile_id)
  have keys: "key_of s' x = key_of s x" if "x \<in> set L" for x using that L new(6) by auto
  have "sorted_wrt (\<lambda>x y. \<not> compare (key_of s y) (key_of s x) < 0) (takeWhile P L @ dropWhile P L)"
    using sl by (simp add: sl_inv_def)
  moreover have "\<not> compare (key_of s' n) (key_of s x) < 0" if "P x" for x
    using that new(5) less_trans less_irrefl unfolding P_def by metis
  moreover have "\<not> compare (key_of s x) (key_of s' n) < 0" if "\<not> P x" for x
    using that new(5) unfolding P_def by simp
  ultimately have "sorted_wrt (\<lambda>x y. \<not> compare (key_of s' y) (key_of s' x) < 0) (takeWhile P L @ n # dropWhile P L)"
    using sets keys by (auto simp: sorted_wrt_append initial_takeWhile [OF init] initial_dropWhile [OF init]
        elim!: sorted_wrt_mono_rel [rotated])
  moreover have "set (takeWhile P L @ n # dropWhile P L) = {0<..<Suc n}" "distinct (takeWhile P L @ n # dropWhile P L)"
    using sets L distinct_append [of "takeWhile P L" "dropWhile P L"] by auto
  moreover have "0 < height s' x \<and> height s' x \<le> sl_max_height s'" if "x \<in> {0<..<Suc n}" for x
    using that sl L h new(3,4) new(6) [of x] by (cases "x = n") (auto simp: sl_inv_def)
  moreover have "height s' 0 = kMaxHeight" "0 < sl_max_height s'" "sl_max_height s' \<le> kMaxHeight"
    using sl L new(3) new(6) [of 0] by (auto simp: sl_inv_def)
  ultimately show ?thesis using new(2) by (auto simp: shape_ok_def)
qed

lemma new_linking:
  assumes sl: "sl_inv compare s L" and nn: "NewNode s key h = (n, s')" and full: "full s L lk"
    and h: "0 < h" "h \<le> sl_max_height s" and prev: "prev_ok compare s L key prev" and lk0: "lk n = 0"
  defines "P \<equiv> \<lambda>x. compare (key_of s x) key < 0"
  shows "linking s' (takeWhile P L @ n # dropWhile P L) lk prev n h 0"
proof -
  note new = NewNode_simps [OF nn]
  have init: "initial P L" unfolding P_def by (rule initial_below [OF sl])
  have L: "set L = {0<..<n}" and maxh: "sl_max_height s \<le> kMaxHeight" using sl new(1) by (simp_all add: sl_inv_def)
  have "prev ! j = Some (last (0 # filter (\<lambda>x. j < height s' x) (takeWhile P L)))" if "j < h" for j
  proof -
    have "filter (\<lambda>x. j < height s' x) (takeWhile P L) = takeWhile P (level_list s L j)"
      unfolding level_list_def level_list_split(1) [OF init, symmetric]
      using L new(6) by (intro filter_cong) (auto dest: set_takeWhileD)
    then show ?thesis using h(2) prev that by (simp add: prev_ok_def pred_at_def P_def)
  qed
  moreover have "lk x = height s' x" if "x \<in> set L" for x
    using that full L new(6) by (auto simp: full_def)
  ultimately show ?thesis
    using h maxh new(4) lk0 unfolding linking_def
    by (intro conjI exI [of _ "takeWhile P L"] exI [of _ "dropWhile P L"])
      (auto dest: set_takeWhileD set_dropWhileD)
qed

lemma new_keys:
  assumes nn: "NewNode s key h = (n, s')" and L: "set L = {0<..<n}" and k: "keys_inv compare ks s L w" and pc: "w_pc w = W_new prev h key"
  shows "keys_inv compare ks s' (takeWhile P L @ n # dropWhile P L) (w\<lparr>w_pc := W_link prev n h 0\<rparr>)"
proof -
  note new = NewNode_simps [OF nn]
  let ?L = "takeWhile P L @ n # dropWhile P L"
  have "map (key_of s') L = map (key_of s) L" using L new(1,6) by auto
  moreover have "mset ?L = add_mset n (mset L)"
    using mset_append [of "takeWhile P L" "dropWhile P L"] by simp
  ultimately have "mset (sl_keys s' ?L) = add_mset key (mset (sl_keys s L))"
    using new(5) unfolding sl_keys_def mset_map by (metis image_mset_add_mset mset_map)
  moreover from this have "set (sl_keys s' ?L) = insert key (set (sl_keys s L))"
    by (metis set_mset_add_mset_insert set_mset_mset)
  ultimately show ?thesis using k pc by (auto simp: keys_inv_def)
qed

lemma new_step:
  assumes inv: "conc_inv compare ks m es L w" and pc: "w_pc w = W_new prev h key"
  shows "\<exists>e w' L'. writer_step compare (cm_list (mem m es)) w = Some (e, w') \<and> conc_inv compare ks m (es @ [e]) L' w'
    \<and> subseq L L'"
proof -
  let ?s = "cm_list (mem m es)" and ?e = "St_new key h"
  define P where "P = (\<lambda>x. compare (key_of ?s x) key < 0)"
  have hist: "hist_inv compare m es L" and w: "cm_raw (mem m es) = []" "full ?s L (linked (cm_list m) es)"
    "0 < h" "h \<le> sl_max_height ?s" "prev_ok compare ?s L key prev" and k: "keys_inv compare ks ?s L w"
    using inv pc by (auto simp: conc_inv_def)
  note sl = full_sl_inv [OF hist w(2)]
  obtain n s' where nn: "NewNode ?s key h = (n, s')" by fastforce
  note new = NewNode_simps [OF nn]
  let ?L = "takeWhile P L @ n # dropWhile P L" and ?lk = "linked (cm_list m) es"
  have L: "set L = {0<..<n}" using sl new(1) by (simp add: sl_inv_def)
  have mem: "mem m (es @ [?e]) = \<lparr>cm_list = s', cm_raw = map (Pair n) [0..<h]\<rparr>" by (simp add: nn w(1))
  have lk: "linked (cm_list m) (es @ [?e]) = ?lk" by (simp add: linked_snoc_same)
  have now: "snap ?s L (mem m es) ?lk" by (rule hist_now [OF hist])
  then have lk0: "?lk x = 0" if "n \<le> x" for x using that new(1) by (simp add: snap_def)
  have "chain (succ_at s' i) 0 (filter (\<lambda>x. i < ?lk x) L)" if "i < kMaxHeight" for i
  proof -
    have "chain (succ_at s' i) 0 (filter (\<lambda>x. i < ?lk x) L) = chain (succ_at ?s i) 0 (filter (\<lambda>x. i < ?lk x) L)"
      using new(6) L sl new(1) by (intro chain_cong) (auto simp: sl_inv_def)
    then show ?thesis using now that by (simp add: snap_def chains_def)
  qed
  moreover have "filter (\<lambda>x. i < ?lk x) ?L = filter (\<lambda>x. i < ?lk x) L" for i
    using lk0 [of n] filter_append [of "\<lambda>x. i < ?lk x" "takeWhile P L" "dropWhile P L"] by simp
  ultimately have "chains s' ?L ?lk" by (simp add: chains_def)
  moreover have "?lk x \<le> height s' x \<or> ?lk x = 0" for x
    using now lk0 [of x] new(6) [of x] unfolding snap_def by (metis not_le)
  ultimately have snap: "snap s' ?L (mem m (es @ [?e])) (linked (cm_list m) (es @ [?e]))"
    using lk0 new(1-3) now unfolding mem lk by (auto simp: snap_def)
  have "hist_inv compare m (es @ [?e]) ?L"
  proof (rule hist_extend [OF hist, where A = "takeWhile P L" and B = "dropWhile P L" and ns = "[n]"])
    show "shape_ok compare (cm_list (mem m (es @ [?e]))) ?L"
      using new_shape [OF sl nn w(3,4)] unfolding P_def mem by simp
    show "snap (cm_list (mem m (es @ [?e]))) ?L (mem m (es @ [?e])) (linked (cm_list m) (es @ [?e]))"
      using snap by (simp only: mem cmem.simps)
  qed (use new(1,2,6) mem in \<open>auto simp: relaxed_unlinked_def simp del: mem_snoc\<close>)
  moreover have "linking s' ?L ?lk prev n h 0"
    using new_linking [OF sl nn w(2-5) lk0] unfolding P_def by simp
  moreover have "keys_inv compare ks s' ?L (w\<lparr>w_pc := W_link prev n h 0\<rparr>)" by (rule new_keys [OF nn L k pc])
  ultimately have "conc_inv compare ks m (es @ [?e]) ?L (w\<lparr>w_pc := W_link prev n h 0\<rparr>)"
    using lk by (auto simp: conc_inv_def mem simp del: mem_snoc)
  moreover have "subseq (takeWhile P L @ dropWhile P L) ?L" by (intro list_emb_append_mono) auto
  ultimately show ?thesis using new(1) by (auto simp: writer_step_def pc)
qed

end

text \<open>The predecessor on level \<open>i\<close> of the node that is being linked, and the node itself.\<close>

lemma linking_pred:
  assumes hist: "hist_inv compare m es L" and lk: "linking (cm_list (mem m es)) L (linked (cm_list m) es) prev n h i"
  obtains A B p where "L = A @ n # B" "prev ! i = Some p" "p = last (0 # filter (\<lambda>x. i < linked (cm_list m) es x) A)"
    "p \<noteq> n" "p < length (sl_nodes (cm_list (mem m es)))" "i < height (cm_list (mem m es)) p" "i < kMaxHeight"
    "0 < n" "n < length (sl_nodes (cm_list (mem m es)))" "length (sl_nodes (cm_list m)) \<le> n" "distinct L"
proof -
  let ?s = "cm_list (mem m es)" and ?lk = "linked (cm_list m) es"
  have sh: "distinct L" "set L = {0<..<length (sl_nodes ?s)}" "height ?s 0 = kMaxHeight" "sl_nodes ?s \<noteq> []"
    using hist by (auto simp: hist_inv_def shape_ok_def)
  obtain A B where AB: "L = A @ n # B" "\<And>j. j < h \<Longrightarrow> prev ! j = Some (last (0 # filter (\<lambda>x. j < height ?s x) A))"
    using lk by (auto simp: linking_def)
  have lkA: "?lk x = height ?s x" if "x \<in> set A" for x
    using that lk sh(1) AB(1) by (auto simp: linking_def)
  then have f: "filter (\<lambda>x. i < height ?s x) A = filter (\<lambda>x. i < ?lk x) A" by (auto intro: filter_cong)
  define p where "p = last (0 # filter (\<lambda>x. i < ?lk x) A)"
  have i: "i < h" "h \<le> kMaxHeight" "height ?s n = h" "?lk n = i" using lk by (auto simp: linking_def)
  have p: "p = 0 \<or> p \<in> set A \<and> i < ?lk p"
    unfolding p_def using last_in_set [of "filter (\<lambda>x. i < ?lk x) A"] by auto
  have n: "0 < n" "n < length (sl_nodes ?s)" using sh(2) AB(1) by auto
  have "length (sl_nodes (cm_list m)) \<le> n"
  proof (rule ccontr)
    assume "\<not> length (sl_nodes (cm_list m)) \<le> n"
    moreover from this have "?lk n = height (cm_list m) n" by (simp add: linked_def)
    moreover have "snap ?s L (mem m (take 0 es)) (linked (cm_list m) (take 0 es))"
      using hist unfolding hist_inv_def by blast
    ultimately have "?lk n = height ?s n" by (simp add: snap_def mem_def)
    with i show False by simp
  qed
  moreover have "p \<noteq> n" "p < length (sl_nodes ?s)" "i < height ?s p"
    using p n sh AB(1) lkA i by auto
  moreover have "prev ! i = Some p" using AB(2) [OF i(1)] f by (simp add: p_def)
  ultimately show thesis using that AB(1) i n sh(1) p_def by auto
qed

lemma linking_same_shape:
  "same_shape s s' \<Longrightarrow> linking s' L lk prev n h i = linking s L lk prev n h i"
  by (simp add: linking_def same_shape_def)

lemma keys_inv_same_shape:
  "same_shape s s' \<Longrightarrow> pending (w_pc w) = pending (w_pc w') \<Longrightarrow> w_keys w = w_keys w' \<Longrightarrow>
   keys_inv compare ks s' L w' = keys_inv compare ks s L w"
  by (simp add: keys_inv_def same_shape_def sl_keys_def)

lemma link_step:
  assumes inv: "conc_inv compare ks m es L w" and pc: "w_pc w = W_link prev n h i"
  shows "\<exists>e w'. writer_step compare (cm_list (mem m es)) w = Some (e, w') \<and> conc_inv compare ks m (es @ [e]) L w'"
proof -
  let ?s = "cm_list (mem m es)" and ?lk = "linked (cm_list m) es"
  have hist: "hist_inv compare m es L" and raw: "set (cm_raw (mem m es)) = Pair n ` {i..<h}"
    and lk: "linking ?s L ?lk prev n h i" and k: "keys_inv compare ks ?s L w"
    using inv pc by (auto simp: conc_inv_def)
  obtain A B p where p: "L = A @ n # B" "prev ! i = Some p" "p \<noteq> n" "p < length (sl_nodes ?s)"
    "i < height ?s p" "i < kMaxHeight" "0 < n" "n < length (sl_nodes ?s)" and dist: "distinct L"
    by (rule linking_pred [OF hist lk])
  have i: "i < height ?s n" "?lk n = i" using lk by (auto simp: linking_def)
  let ?e = "St_relaxed n i (succ_at ?s i p)" and ?w = "w\<lparr>w_pc := W_publish prev n h i\<rparr>"
  let ?m = "store_next n i (succ_at ?s i p) (mem m es)"
  note eff = store_next_effect [OF p(6,8) i(1), of "succ_at ?s i p"]
  have lk': "linked (cm_list m) (es @ [?e]) = ?lk" by (simp add: linked_snoc_same)
  have now: "snap ?s L (mem m es) ?lk" by (rule hist_now [OF hist])
  have "chain (succ_at (cm_list ?m) j) 0 (filter (\<lambda>x. j < ?lk x) L)" if "j < kMaxHeight" for j
  proof -
    have "chain (succ_at (cm_list ?m) j) 0 (filter (\<lambda>x. j < ?lk x) L) = chain (succ_at ?s j) 0 (filter (\<lambda>x. j < ?lk x) L)"
      using eff(2) i(2) p(7) by (intro chain_cong) auto
    then show ?thesis using now that by (simp add: snap_def chains_def)
  qed
  then have "hist_inv compare m (es @ [?e]) L"
    using eff(1,3) now i(2) p(7) by (intro hist_same_shape [OF hist])
      (auto simp: lk' snap_def chains_def relaxed_unlinked_def)
  moreover have "set (cm_raw ?m) = Pair n ` {Suc i..<h}" unfolding eff(3) using raw by (auto simp: Suc_le_eq)
  moreover have "succ_at (cm_list ?m) i n = succ_at (cm_list ?m) i (the (prev ! i))"
    using eff(2) p(2,3) by simp
  moreover have "linking (cm_list ?m) L ?lk prev n h i" "keys_inv compare ks (cm_list ?m) L ?w"
    using lk k linking_same_shape [OF eff(1)] keys_inv_same_shape [OF eff(1), of w ?w] pc by simp_all
  ultimately have "conc_inv compare ks m (es @ [?e]) L ?w" using lk' by (simp add: conc_inv_def)
  moreover have "writer_step compare ?s w = Some (?e, ?w)"
    using eff(4) p(2,4-6) by (auto simp: writer_step_def pc Node_NoBarrier_Next_def Node_Next_def succ_at_def height_def)
  ultimately show ?thesis by blast
qed

lemma publish_chains:
  assumes "chains s L lk" and "L = A @ n # B" and "distinct L" and "0 \<notin> set L" and "lk n = i" and "i < kMaxHeight"
    and "p = last (0 # filter (\<lambda>x. i < lk x) A)" and "succ_at s i n = succ_at s i p"
    and "\<And>j. succ_at s' j = (if j = i then (succ_at s i)(p := Some n) else succ_at s j)"
  shows "chains s' L (lk(n := Suc i))"
  unfolding chains_def
proof (intro allI impI)
  fix j assume j: "j < kMaxHeight"
  have other: "filter (\<lambda>x. j < (lk(n := Suc i)) x) A = filter (\<lambda>x. j < lk x) A"
    "filter (\<lambda>x. j < (lk(n := Suc i)) x) B = filter (\<lambda>x. j < lk x) B" for j
    using assms(2,3) by (auto intro: filter_cong)
  show "chain (succ_at s' j) 0 (filter (\<lambda>x. j < (lk(n := Suc i)) x) L)"
  proof (cases "j = i")
    case True
    let ?A = "filter (\<lambda>x. i < lk x) A" and ?B = "filter (\<lambda>x. i < lk x) B"
    have "chain (succ_at s i) 0 (?A @ ?B)" using assms(1,2,5,6) by (auto simp: chains_def)
    then have "chain ((succ_at s i)(n := succ_at s i p, p := Some n)) 0 (?A @ n # ?B)"
      unfolding assms(7) by (rule chain_insert) (use assms(2-4) in auto)
    moreover have "(succ_at s i)(n := succ_at s i p) = succ_at s i" using assms(8) by (auto simp: fun_eq_iff)
    ultimately show ?thesis using True assms(2,9) other [of i] by simp
  next
    case False
    then have "filter (\<lambda>x. j < (lk(n := Suc i)) x) L = filter (\<lambda>x. j < lk x) L"
      using assms(2,5) other [of j] by auto
    then show ?thesis using assms(1,9) False j by (auto simp: chains_def)
  qed
qed

lemma publish_step:
  assumes inv: "conc_inv compare ks m es L w" and pc: "w_pc w = W_publish prev n h i"
  shows "\<exists>e w'. writer_step compare (cm_list (mem m es)) w = Some (e, w') \<and> conc_inv compare ks m (es @ [e]) L w'"
proof -
  let ?s = "cm_list (mem m es)" and ?lk = "linked (cm_list m) es"
  have hist: "hist_inv compare m es L" and raw: "set (cm_raw (mem m es)) = Pair n ` {Suc i..<h}"
    and lk: "linking ?s L ?lk prev n h i" and k: "keys_inv compare ks ?s L w"
    and succ: "succ_at ?s i n = succ_at ?s i (the (prev ! i))"
    using inv pc by (auto simp: conc_inv_def)
  obtain A B p where p: "L = A @ n # B" "prev ! i = Some p" "p = last (0 # filter (\<lambda>x. i < ?lk x) A)"
    "p \<noteq> n" "p < length (sl_nodes ?s)" "i < height ?s p" "i < kMaxHeight" "0 < n" "n < length (sl_nodes ?s)"
    "length (sl_nodes (cm_list m)) \<le> n" "distinct L"
    by (rule linking_pred [OF hist lk])
  have i: "i < h" "height ?s n = h" "?lk n = i" using lk by (auto simp: linking_def)
  let ?e = "St_release p i (Some n)" and ?m = "store_next p i (Some n) (mem m es)"
  let ?w = "w\<lparr>w_pc := (if i + 1 < h then W_link prev n h (i + 1) else W_idle)\<rparr>"
  note eff = store_next_effect [OF p(7,5,6), of "Some n"]
  have lk': "linked (cm_list m) (es @ [?e]) = ?lk(n := Suc i)"
    using p(10) i(3) by (auto simp: linked_snoc fun_eq_iff)
  have now: "snap ?s L (mem m es) ?lk" by (rule hist_now [OF hist])
  have raw': "set (cm_raw ?m) = Pair n ` {Suc i..<h}" unfolding eff(3) using raw p(4) by auto
  have "chains (cm_list ?m) L (?lk(n := Suc i))"
  proof (rule publish_chains [OF _ p(1,11) _ i(3) p(7,3)])
    show "chains ?s L ?lk" using now by (simp add: snap_def)
    show "0 \<notin> set L" using hist by (simp add: hist_inv_def shape_ok_def)
    show "succ_at ?s i n = succ_at ?s i p" using succ p(2) by simp
  qed (rule eff(2))
  then have "hist_inv compare m (es @ [?e]) L"
  proof (intro hist_same_shape [OF hist])
    show "\<forall>x. length (sl_nodes ?s) \<le> x \<longrightarrow> linked (cm_list m) (es @ [?e]) x = 0"
      "\<forall>x. linked (cm_list m) (es @ [?e]) x \<le> height ?s x \<or> linked (cm_list m) (es @ [?e]) x = 0"
      using now p(9) i by (auto simp: lk' snap_def)
  qed (use eff(1) raw' p(8) lk' in \<open>auto simp: relaxed_unlinked_def\<close>)
  moreover have "winv compare ?m L (?lk(n := Suc i)) (w_pc ?w)"
  proof (cases "i + 1 < h")
    case True
    with lk have "linking ?s L (?lk(n := Suc i)) prev n h (Suc i)" by (auto simp: linking_def)
    with True raw' show ?thesis using linking_same_shape [OF eff(1)] by simp
  next
    case False
    with i have "Suc i = h" by simp
    with lk i(2) raw' eff(1) show ?thesis by (auto simp: linking_def full_def same_shape_def)
  qed
  moreover have "keys_inv compare ks (cm_list ?m) L ?w"
    using k keys_inv_same_shape [OF eff(1), of w ?w] pc by simp
  ultimately have "conc_inv compare ks m (es @ [?e]) L ?w" using lk' by (simp add: conc_inv_def)
  moreover have "writer_step compare ?s w = Some (?e, ?w)"
    using eff(4) p(2) by (auto simp: writer_step_def pc)
  ultimately show ?thesis by blast
qed

text \<open>The writer always has a next store until it is done.\<close>

context skip_order
begin

lemma writer_progress:
  assumes inv: "conc_inv compare ks m es L w" and "\<not> writer_done w"
  shows "\<exists>e w' L'. writer_step compare (cm_list (mem m es)) w = Some (e, w') \<and> conc_inv compare ks m (es @ [e]) L' w'
    \<and> subseq L L'"
proof (cases "w_pc w")
  case W_idle
  with assms(2) obtain key rest where "w_keys w = key # rest" by (cases "w_keys w") (auto simp: writer_done_def)
  with idle_step [OF inv W_idle] show ?thesis by blast
next
  case W_failed
  with inv show ?thesis by (simp add: conc_inv_def)
qed (use raise_step [OF inv] new_step [OF inv] link_step [OF inv] publish_step [OF inv] in blast)+

end

end
