(* ===== verification/Skip_Readers.thy ===== *)
theory Skip_Readers
  imports Skip_Concurrent
begin

text \<open>
  What readers observe while a writer inserts: a seek and a scan never fail, visit every node that was in
  the list when they began and no node that is not in it when they end, in the order of the list, and
  make a bounded number of loads.
\<close>

section \<open>Loads\<close>

lemma find_last_Some:
  "find Q (rev [0..<p]) = Some q \<Longrightarrow> q < p \<and> Q q \<and> (\<forall>r. q < r \<longrightarrow> r < p \<longrightarrow> \<not> Q r)"
  by (induction p) (auto split: if_splits simp: less_Suc_eq)

lemma find_last_None: "find Q (rev [0..<p]) = None \<Longrightarrow> r < p \<Longrightarrow> \<not> Q r"
  by (induction p) (auto split: if_splits simp: less_Suc_eq)

lemma Node_SetNext_other:
  assumes "Node_SetNext s y j v = Some s'" and "(y, j) \<noteq> (x, i)"
  shows "length (sl_nodes s') = length (sl_nodes s)" and "succ_at s' i x = succ_at s i x"
  using assms by (auto simp: Node_SetNext_def succ_at_def nth_list_update split: if_splits)

lemma apply_store_other:
  assumes "\<not> stores_to x i e" and "x < length (sl_nodes (cm_list m))"
  shows "x < length (sl_nodes (cm_list (apply_store m e)))
    \<and> succ_at (cm_list (apply_store m e)) i x = succ_at (cm_list m) i x"
  using assms
  by (cases e) (auto simp: store_next_def succ_at_def [of "sl_rnd_update _ _"] succ_at_def [of "sl_max_height_update _ _"]
      NewNode_def nth_append Node_SetNext_other succ_at_def [of "sl_nodes_update _ _"] succ_at_def [of "cm_list m"]
      split: option.split dest: Node_SetNext_other)

text \<open>A pointer keeps its value while nothing is stored to it.\<close>

lemma unstored_same:
  assumes "v \<le> p" and "p \<le> length es" and "\<And>q. v \<le> q \<Longrightarrow> q < p \<Longrightarrow> \<not> stores_to x i (es ! q)"
    and "x < length (sl_nodes (cm_list (mem m (take v es))))"
  shows "x < length (sl_nodes (cm_list (mem m (take p es))))
    \<and> succ_at (cm_list (mem m (take p es))) i x = succ_at (cm_list (mem m (take v es))) i x"
  using assms
proof (induction p rule: dec_induct)
  case (step q)
  have "take (Suc q) es = take q es @ [es ! q]" using step.prems(1) by (simp add: take_Suc_conv_app_nth)
  then show ?case
    using step apply_store_other [of x i "es ! q" "mem m (take q es)"] by simp
qed simp

lemma snap_at:
  assumes "hist_inv compare m es L" and "t \<le> length es"
  shows "snap (cm_list (mem m es)) L (mem m (take t es)) (linked (cm_list m) (take t es))"
  using assms by (simp add: hist_inv_def)

lemma linked_node:
  assumes hist: "hist_inv compare m es L" and "t \<le> length es" and "x = 0 \<or> i < linked (cm_list m) (take t es) x"
    and "i < kMaxHeight"
  shows "x < length (sl_nodes (cm_list (mem m (take t es))))" and "i < height (cm_list (mem m (take t es))) x"
    and "x \<noteq> 0 \<Longrightarrow> x \<in> set L" and "(x, i) \<notin> set (cm_raw (mem m (take t es)))"
proof -
  let ?s = "cm_list (mem m es)" and ?t = "cm_list (mem m (take t es))"
  have sh: "height ?s 0 = kMaxHeight" "set L = {0<..<length (sl_nodes ?s)}"
    using hist by (auto simp: hist_inv_def shape_ok_def)
  have sn: "0 < length (sl_nodes ?t)" "length (sl_nodes ?t) \<le> length (sl_nodes ?s)"
    "\<And>x. x < length (sl_nodes ?t) \<Longrightarrow> height ?t x = height ?s x"
    "\<And>x. length (sl_nodes ?t) \<le> x \<Longrightarrow> linked (cm_list m) (take t es) x = 0"
    "\<And>x. linked (cm_list m) (take t es) x \<le> height ?s x \<or> linked (cm_list m) (take t es) x = 0"
    "\<And>x i. (x, i) \<in> set (cm_raw (mem m (take t es))) \<Longrightarrow> 0 < x \<and> linked (cm_list m) (take t es) x \<le> i"
    using snap_at [OF hist assms(2)] by (auto simp: snap_def)
  show x: "x < length (sl_nodes ?t)" using assms(3) sn(1) sn(4) [of x] by (metis gr_implies_not_zero not_le)
  show "i < height ?t x" using assms(3,4) sn(3) [OF x] sn(5) [of x] sh(1) by auto
  show "x \<noteq> 0 \<Longrightarrow> x \<in> set L" using x sn(2) sh(2) by simp
  show "(x, i) \<notin> set (cm_raw (mem m (take t es)))" using sn(6) [of x i] assms(3) by auto
qed

lemma linked_split:
  assumes hist: "hist_inv compare m es L" and "t \<le> length es" and "x = 0 \<or> i < linked (cm_list m) (take t es) x"
    and i: "i < kMaxHeight"
  obtains X Y where "0 # filter (\<lambda>z. i < linked (cm_list m) (take t es) z) L = X @ x # Y"
    "succ_at (cm_list (mem m (take t es))) i x = first_opt Y"
proof -
  let ?F = "filter (\<lambda>z. i < linked (cm_list m) (take t es) z) L"
  have "x \<in> set (0 # ?F)" using linked_node(3) [OF assms] assms(3) by auto
  then obtain X Y where F: "0 # ?F = X @ x # Y" using split_list by metis
  moreover have "chain (succ_at (cm_list (mem m (take t es))) i) 0 ?F"
    using snap_at [OF hist assms(2)] i by (simp add: snap_def chains_def)
  ultimately show thesis using that chain_first [OF chain_mid] by blast
qed

text \<open>
  A reader at a node that is linked on a level loads without failing, finds the successor at the time it
  reads from, and afterwards its view includes the linking of the node it has found.
\<close>

lemma load_view_bounds:
  assumes hist: "hist_inv compare m es L" and v: "v \<le> p" "p \<le> length es" and x: "x = 0 \<or> i < linked (cm_list m) (take v es) x"
  shows "v \<le> load_view es v p x i" and "load_view es v p x i \<le> p"
    and "load_view es v p x i \<le> q \<Longrightarrow> q < p \<Longrightarrow> \<not> stores_to x i (es ! q)"
proof -
  let ?f = "find (\<lambda>q. stores_to x i (es ! q)) (rev [0..<p])"
  have "v \<le> load_view es v p x i \<and> load_view es v p x i \<le> p
    \<and> (\<forall>q. load_view es v p x i \<le> q \<longrightarrow> q < p \<longrightarrow> \<not> stores_to x i (es ! q))"
  proof (cases ?f)
    case None
    then show ?thesis using v find_last_None [OF None] by (simp add: load_view_def)
  next
    case (Some q)
    note q = find_last_Some [OF Some]
    show ?thesis
    proof (cases "is_release (es ! q)")
      case True
      then show ?thesis using Some v q by (auto simp: load_view_def)
    next
      case False
      with q obtain y where e: "es ! q = St_relaxed x i y" by (cases "es ! q") auto
      have "q < length es" using q v by simp
      then have "relaxed_unlinked (linked (cm_list m) (take q es)) (es ! q)" using hist by (simp add: hist_inv_def)
      with e have "0 < x" "linked (cm_list m) (take q es) x \<le> i" by (auto simp: relaxed_unlinked_def)
      then have "\<not> v \<le> q" using x linked_mono [of v q "cm_list m" es x] by auto
      then show ?thesis using Some False v q by (auto simp: load_view_def)
    qed
  qed
  then show "v \<le> load_view es v p x i" "load_view es v p x i \<le> p"
    "load_view es v p x i \<le> q \<Longrightarrow> q < p \<Longrightarrow> \<not> stores_to x i (es ! q)" by blast+
qed

lemma acquire_Next_linked:
  assumes hist: "hist_inv compare m es L" and p: "v \<le> p" "p \<le> length es"
    and x: "x = 0 \<or> i < linked (cm_list m) (take v es) x" and i: "i < kMaxHeight"
  obtains X Y v' where "acquire_Next m es v p x i = Some (first_opt Y, v')" "v \<le> v'" "v' \<le> p"
    "0 # filter (\<lambda>z. i < linked (cm_list m) (take p es) z) L = X @ x # Y"
    "\<And>n. first_opt Y = Some n \<Longrightarrow> i < linked (cm_list m) (take v' es) n"
proof -
  define v' where "v' = load_view es v p x i"
  note v' = load_view_bounds [OF hist p x, folded v'_def]
  have xt: "x = 0 \<or> i < linked (cm_list m) (take t es) x" if "v \<le> t" for t
    using x linked_mono [OF that, of "cm_list m" es x] by auto
  note ip = linked_node [OF hist p(2) xt [OF p(1)] i]
  obtain X Y where XY: "0 # filter (\<lambda>z. i < linked (cm_list m) (take p es) z) L = X @ x # Y"
    "succ_at (cm_list (mem m (take p es))) i x = first_opt Y"
    by (rule linked_split [OF hist p(2) xt [OF p(1)] i])
  have le: "v \<le> length es" "v' \<le> length es" using p v' by auto
  have "acquire_Next m es v p x i = Some (first_opt Y, v')"
    using linked_node(1) [OF hist le(1) x i] ip i XY(2)
    by (simp add: acquire_Next_def Node_Next_def succ_at_def height_def v'_def)
  moreover have "i < linked (cm_list m) (take v' es) n" if n: "first_opt Y = Some n" for n
  proof -
    have "succ_at (cm_list (mem m (take p es))) i x = succ_at (cm_list (mem m (take v' es))) i x"
      using unstored_same [OF v'(2) p(2), of x i m] v'(3) linked_node(1) [OF hist le(2) xt [OF v'(1)] i] by blast
    moreover obtain X' Y' where "0 # filter (\<lambda>z. i < linked (cm_list m) (take v' es) z) L = X' @ x # Y'"
      "succ_at (cm_list (mem m (take v' es))) i x = first_opt Y'"
      by (rule linked_split [OF hist le(2) xt [OF v'(1)] i])
    ultimately have "n \<in> set (tl (0 # filter (\<lambda>z. i < linked (cm_list m) (take v' es) z) L))"
      using n XY(2) by (cases X'; cases Y') auto
    then show ?thesis by simp
  qed
  ultimately show thesis using that v'(1,2) XY(1) by blast
qed

section \<open>The order of the list\<close>

lemma subseq_set: "subseq xs ys \<Longrightarrow> x \<in> set xs \<Longrightarrow> x \<in> set ys"
  by (induction rule: list_emb.induct) auto

lemma subseq_pair_set: "subseq [x, y] L \<Longrightarrow> x \<in> set L \<and> y \<in> set L"
  using subseq_set [of "[x, y]" L] by simp

lemma subseq_pair:
  assumes "distinct (X @ n # Y)"
  shows "subseq [n, z] (X @ n # Y) \<longleftrightarrow> z \<in> set Y"
  using assms by (induction X) (auto simp: subseq_singleton_left)

lemma subseq_snoc_distinct:
  assumes "subseq (xs @ [n]) (A @ n # B)" and "distinct (A @ n # B)"
  shows "subseq xs A"
proof -
  obtain u v where uv: "xs @ [n] = u @ v" "subseq u A" "subseq v (n # B)"
    using assms(1) by (auto simp: subseq_append_iff)
  have "n \<notin> set A" "n \<notin> set B" using assms(2) by auto
  moreover have "v = [] \<Longrightarrow> n \<in> set A" using uv(1) subseq_set [OF uv(2), of n] by auto
  ultimately obtain w where v: "v = w @ [n]" "xs = u @ w" using uv(1) by (cases v rule: rev_cases) auto
  have "w = []"
  proof (cases w)
    case (Cons a w')
    then have "subseq (w' @ [n]) B \<or> subseq (a # w' @ [n]) B" using uv(3) v by (auto split: if_splits)
    then have "n \<in> set B" using subseq_set [of _ B n] by auto
    with \<open>n \<notin> set B\<close> show ?thesis by simp
  qed simp
  with v uv(2) show ?thesis by simp
qed

lemma subseq_extend:
  assumes "subseq (xs @ [n]) L" and "subseq [n, z] L" and "distinct L"
  shows "subseq (xs @ [n, z]) L"
proof -
  obtain A B where L: "L = A @ n # B" using subseq_pair_set [OF assms(2)] split_list by metis
  have "subseq xs A" using assms(1,3) unfolding L by (rule subseq_snoc_distinct)
  moreover have "subseq [n, z] (n # B)" using assms(2,3) subseq_pair [of A n B z] by (simp add: L subseq_singleton_left)
  ultimately show ?thesis unfolding L by (rule list_emb_append_mono)
qed

lemma sorted_wrt_subseq: "subseq xs ys \<Longrightarrow> sorted_wrt R ys \<Longrightarrow> sorted_wrt R xs"
  by (induction rule: list_emb.induct) (auto dest: subseq_set)

lemma initial_pair: "initial P L \<Longrightarrow> subseq [x, n] L \<Longrightarrow> P n \<Longrightarrow> P x"
  unfolding initial_def by (drule (1) sorted_wrt_subseq) simp

text \<open>The number of nodes up to \<open>x\<close>; the head comes before all of them.\<close>

definition rank :: "nat list \<Rightarrow> nat \<Rightarrow> nat" where
  "rank L x = (if x = 0 then 0 else Suc (card {y. subseq [y, x] L}))"

lemma before_finite [simp]: "finite {y. subseq [y, x] L}"
  by (rule finite_subset [of _ "set L"]) (auto dest: subseq_pair_set)

lemma rank_mono: "subseq L L' \<Longrightarrow> rank L x \<le> rank L' x"
  by (auto simp: rank_def intro!: card_mono intro: subseq_order.trans)

lemma rank_less:
  assumes "distinct L" and "subseq [x, n] L" and "0 \<notin> set L"
  shows "rank L x < rank L n"
proof -
  have "n \<in> set L" "x \<in> set L" using subseq_pair_set [OF assms(2)] by simp_all
  then have nz: "n \<noteq> 0" "x \<noteq> 0" using assms(3) by metis+
  have "{y. subseq [y, x] L} \<subset> {y. subseq [y, n] L}"
  proof
    show "{y. subseq [y, x] L} \<subseteq> {y. subseq [y, n] L}"
    proof (clarify)
      fix y assume "subseq [y, x] L"
      then have "subseq [y, x, n] L" using subseq_extend [of "[y]" x L n] assms by simp
      then show "subseq [y, n] L" by (rule subseq_order.trans [rotated]) simp
    qed
    obtain X Y where L: "L = X @ x # Y" using \<open>x \<in> set L\<close> split_list by metis
    have "\<not> subseq [x, x] L" using assms(1) subseq_pair [of X x Y x] by (simp add: L)
    then show "{y. subseq [y, x] L} \<noteq> {y. subseq [y, n] L}" using assms(2) by blast
  qed
  then show ?thesis using nz by (simp add: rank_def psubset_card_mono)
qed

lemma rank_head_less: "n \<noteq> 0 \<Longrightarrow> rank L 0 < rank L n"
  by (simp add: rank_def)

lemma rank_le_length:
  assumes "distinct L" and "x = 0 \<or> x \<in> set L"
  shows "rank L x \<le> length L"
proof (cases "x = 0")
  case False
  with assms obtain X Y where L: "L = X @ x # Y" using split_list by metis
  have "\<not> subseq [x, x] L" using assms(1) subseq_pair [of X x Y x] by (simp add: L)
  then have "{y. subseq [y, x] L} \<subseteq> set L - {x}" by (auto dest: subseq_pair_set)
  then have "card {y. subseq [y, x] L} \<le> card (set L - {x})" by (intro card_mono) auto
  also have "\<dots> < card (set L)" using L by (intro card_Diff1_less) auto
  also have "\<dots> \<le> length L" by (rule card_length)
  finally show ?thesis using False by (simp add: rank_def)
qed (simp add: rank_def)

section \<open>The readers\<close>

definition below :: "('k \<Rightarrow> 'k \<Rightarrow> int) \<Rightarrow> 'k SkipList \<Rightarrow> 'k \<Rightarrow> nat \<Rightarrow> bool" where
  "below compare s target x \<longleftrightarrow> compare (key_of s x) target < 0"

text \<open>
  At a position \<open>y\<close>, the nodes visited are in the list, in order and not below the target, and every
  node not below the target that was in the list at time \<open>b\<close> has been visited or comes after \<open>y\<close>.
\<close>

definition visited ::
  "('k \<Rightarrow> 'k \<Rightarrow> int) \<Rightarrow> 'k cmem \<Rightarrow> 'k store list \<Rightarrow> nat list \<Rightarrow> 'k \<Rightarrow> nat \<Rightarrow> nat \<Rightarrow> nat list \<Rightarrow> nat option \<Rightarrow> bool" where
  "visited compare m es L target b v out y \<longleftrightarrow>
     subseq out L
     \<and> (\<forall>z \<in> set out. 0 < linked (cm_list m) (take v es) z \<and> \<not> below compare (cm_list (mem m es)) target z)
     \<and> (\<forall>z \<in> set L. 0 < linked (cm_list m) (take b es) z \<longrightarrow> \<not> below compare (cm_list (mem m es)) target z \<longrightarrow>
          z \<in> set out \<or> (\<exists>n. y = Some n \<and> subseq [n, z] L))
     \<and> (\<forall>n. y = Some n \<longrightarrow> out \<noteq> [] \<and> last out = n)"

definition rinv :: "('k \<Rightarrow> 'k \<Rightarrow> int) \<Rightarrow> 'k cmem \<Rightarrow> 'k store list \<Rightarrow> nat list \<Rightarrow> 'k reader \<Rightarrow> bool" where
  "rinv compare m es L r \<longleftrightarrow> r_begin r \<le> r_view r \<and> r_view r \<le> length es
     \<and> (case r_pc r of
          R_idle \<Rightarrow> r_loads r = 0
        | R_failed \<Rightarrow> False
        | R_begin \<Rightarrow> r_out r = [] \<and> r_loads r = 0
        | R_seek x l \<Rightarrow> r_out r = [] \<and> l < kMaxHeight \<and> r_loads r + l \<le> kMaxHeight + rank L x
            \<and> (x = 0 \<or> l < linked (cm_list m) (take (r_view r) es) x \<and> below compare (cm_list (mem m es)) (r_target r) x)
        | R_at y \<Rightarrow> visited compare m es L (r_target r) (r_begin r) (r_view r) (r_out r) y
            \<and> r_loads r \<le> kMaxHeight + (case y of None \<Rightarrow> Suc (length L) | Some n \<Rightarrow> rank L n))"

lemma linked_positive:
  assumes "hist_inv compare m es L" and "t \<le> length es" and "z \<noteq> 0" and "0 < linked (cm_list m) (take t es) z"
  shows "z \<in> set L" and "z < length (sl_nodes (cm_list (mem m es)))"
  using linked_node(3) [OF assms(1,2), of z 0] assms by (auto simp: kMaxHeight_def hist_inv_def shape_ok_def)

text \<open>The invariant of a reader is kept by a store.\<close>

lemma rinv_store:
  assumes hist: "hist_inv compare m es L" and hist': "hist_inv compare m (es @ [e]) L'" and sub: "subseq L L'"
    and r: "rinv compare m es L r"
  shows "rinv compare m (es @ [e]) L' r"
proof -
  let ?s = "cm_list (mem m es)" and ?s' = "cm_list (mem m (es @ [e]))"
  have take: "take t (es @ [e]) = take t es" if "t \<le> length es" for t using that by simp
  have "key_of ?s x = key_of ?s' x" if "x < length (sl_nodes ?s)" for x
    using snap_at [OF hist', of "length es"] that by (simp add: snap_def)
  then have same: "below compare ?s' target z = below compare ?s target z"
    if "z = 0 \<or> 0 < linked (cm_list m) (take t es) z" "t \<le> length es" for z t target
    using linked_node(1) [OF hist that(2), of z 0] snap_at [OF hist, of "length es"] that linked_positive(2) [OF hist that(2)]
    by (cases "z = 0") (auto simp: below_def snap_def)
  have bv: "r_begin r \<le> r_view r" "r_view r \<le> length es" "r_begin r \<le> length es"
    using r by (auto simp: rinv_def)
  have vis: "visited compare m (es @ [e]) L' target (r_begin r) (r_view r) out y"
    if v: "visited compare m es L target (r_begin r) (r_view r) out y" for target out y
    unfolding visited_def take [OF bv(2)] take [OF bv(3)]
  proof (intro conjI ballI impI)
    show "subseq out L'" using v sub by (auto simp: visited_def intro: subseq_order.trans)
    show "0 < linked (cm_list m) (take (r_view r) es) z" if "z \<in> set out" for z
      using v that by (simp add: visited_def)
    then show "\<not> below compare ?s' target z" if "z \<in> set out" for z
      using v that same [OF _ bv(2)] by (simp add: visited_def)
    fix z assume z: "z \<in> set L'" "0 < linked (cm_list m) (take (r_begin r) es) z" "\<not> below compare ?s' target z"
    have "z \<noteq> 0" using hist' z(1) by (auto simp: hist_inv_def shape_ok_def)
    then have "z \<in> set L" using linked_positive(1) [OF hist bv(3)] z(2) by blast
    then have "z \<in> set out \<or> (\<exists>n. y = Some n \<and> subseq [n, z] L)"
      using v z(2,3) same [OF _ bv(3)] by (simp add: visited_def)
    then show "z \<in> set out \<or> (\<exists>n. y = Some n \<and> subseq [n, z] L')"
      using sub by (auto intro: subseq_order.trans)
  qed (use v in \<open>auto simp: visited_def\<close>)
  have len: "length L \<le> length L'" by (rule list_emb_length [OF sub])
  show ?thesis
  proof (cases "r_pc r")
    case (R_seek x l)
    then show ?thesis
      using r rank_mono [OF sub, of x] take [OF bv(2)] same [OF _ bv(2), of x] by (auto simp: rinv_def)
  next
    case (R_at y)
    then show ?thesis
      using r vis len rank_mono [OF sub] by (auto simp: rinv_def split: option.splits intro: le_trans)
  qed (use r in \<open>auto simp: rinv_def\<close>)
qed

text \<open>The successor \<open>n\<close> of \<open>x\<close> on a level, with the nodes of the level in the order of the list.\<close>

lemma level_next:
  assumes L: "distinct L" "0 \<notin> set L" and F: "0 # filter Q L = X @ x # Y" and n: "first_opt Y = Some n"
  shows "n \<in> set L \<and> rank L x < rank L n \<and> (x \<noteq> 0 \<longrightarrow> subseq [x, n] L)"
proof -
  obtain Y' where Y: "Y = n # Y'" using n by (cases Y) auto
  show ?thesis
  proof (cases X)
    case Nil
    with F Y have x: "x = 0" "filter Q L = n # Y'" by auto
    then have "n \<in> set (filter Q L)" by simp
    then have "n \<in> set L" by simp
    moreover from this have "n \<noteq> 0" using L(2) by metis
    ultimately show ?thesis using x(1) rank_head_less by simp
  next
    case (Cons a X')
    with F Y have x: "filter Q L = X' @ x # n # Y'" by simp
    have "subseq [x, n] (filter Q L)" unfolding x by (intro subseq_drop_many) simp
    then have "subseq [x, n] L" using subseq_filter_left by (rule subseq_order.trans)
    then show ?thesis using rank_less [OF L(1) _ L(2)] subseq_pair_set [of x n L] by simp
  qed
qed

lemma level_before:
  assumes L: "distinct L" "0 \<notin> set L" and F: "0 # filter Q L = X @ x # Y" and z: "z \<in> set (filter Q L)" "z \<notin> set Y"
  shows "x \<noteq> 0 \<and> (z = x \<or> subseq [z, x] L \<and> \<not> subseq [x, z] L)"
proof (cases X)
  case Nil
  with F z show ?thesis by auto
next
  case (Cons a X')
  with F have x: "filter Q L = X' @ x # Y" by simp
  then have "x \<in> set (filter Q L)" by simp
  then have "x \<in> set L" by simp
  then have "x \<noteq> 0" using L(2) by metis
  moreover have "subseq [z, x] L" "\<not> subseq [x, z] L" if "z \<noteq> x"
  proof -
    have "z \<in> set X'" using z x that by auto
    then have "subseq [z, x] (filter Q L)" unfolding x using list_emb_append_mono [of "(=)" "[z]" X' "[x]" "x # Y"]
      by (simp add: subseq_singleton_left)
    then show "subseq [z, x] L" using subseq_filter_left by (rule subseq_order.trans)
    show "\<not> subseq [x, z] L"
    proof
      assume "subseq [x, z] L"
      then have "subseq (filter Q [x, z]) (filter Q L)" by (rule subseq_filter)
      moreover have "filter Q [x, z] = [x, z]" using z(1) \<open>x \<in> set (filter Q L)\<close> by simp
      ultimately have "subseq [x, z] (X' @ x # Y)" using x by simp
      then show False using subseq_pair [of X' x Y z] distinct_filter [OF L(1), of Q] z(2) by (simp add: x)
    qed
  qed
  ultimately show ?thesis by blast
qed

lemma level_behind:
  assumes L: "distinct L" "0 \<notin> set L" and F: "0 # filter Q L = X @ x # Y" and z: "z \<in> set Y"
  shows "\<exists>n. first_opt Y = Some n \<and> (z = n \<or> subseq [n, z] L)"
proof -
  obtain n Y' where Y: "Y = n # Y'" using z by (cases Y) auto
  have "z = n \<or> subseq [n, z] (filter Q L)"
  proof (cases "z = n")
    case False
    then have "z \<in> set Y'" using z Y by simp
    then have "subseq [n, z] Y" unfolding Y by (simp add: subseq_singleton_left)
    moreover have "subseq Y (filter Q L)" using F by (cases X) (auto intro: subseq_drop_many)
    ultimately show ?thesis by (blast intro: subseq_order.trans)
  qed simp
  then show ?thesis using Y subseq_filter_left [of Q L] by (auto intro: subseq_order.trans)
qed

lemmas level_order = level_next level_before level_behind

context skip_order
begin

lemma initial_shape:
  assumes "shape_ok compare s L"
  shows "initial (below compare s target) L"
proof -
  have "sorted_wrt (\<lambda>x y. \<not> compare (key_of s y) (key_of s x) < 0) L" using assms by (simp add: shape_ok_def)
  then show ?thesis
    unfolding initial_def below_def by (rule sorted_wrt_mono_rel [rotated]) (use not_less_trans in blast)
qed

lemma visited_first:
  assumes hist: "hist_inv compare m es L" and t: "b \<le> p" "p \<le> length es"
    and F: "0 # filter (\<lambda>z. 0 < linked (cm_list m) (take p es) z) L = X @ x # Y"
    and x: "x = 0 \<or> below compare (cm_list (mem m es)) target x"
    and n: "\<And>n. first_opt Y = Some n \<Longrightarrow> 0 < linked (cm_list m) (take v es) n \<and> \<not> below compare (cm_list (mem m es)) target n"
  shows "visited compare m es L target b v (case first_opt Y of None \<Rightarrow> [] | Some n \<Rightarrow> [n]) (first_opt Y)"
proof -
  let ?B = "below compare (cm_list (mem m es)) target"
  have L: "distinct L" "0 \<notin> set L" and init: "initial ?B L"
    using hist initial_shape by (auto simp: hist_inv_def shape_ok_def)
  note ord = level_order [OF L F]
  have "z \<in> set Y" if "z \<in> set L" "0 < linked (cm_list m) (take b es) z" "\<not> ?B z" for z
  proof (rule ccontr)
    assume "z \<notin> set Y"
    moreover have "0 < linked (cm_list m) (take p es) z" using that(2) linked_mono [OF t(1), of "cm_list m" es z] by simp
    ultimately have "x \<noteq> 0 \<and> (z = x \<or> subseq [z, x] L)" using ord(2) [of z] that(1) by auto
    then show False using x that(3) initial_pair [OF init, of z x] by auto
  qed
  then show ?thesis
    using n ord(1,3) by (fastforce simp: visited_def subseq_singleton_left split: option.split)
qed

lemma visited_next:
  assumes hist: "hist_inv compare m es L" and t: "b \<le> p" "v \<le> v'"
    and F: "0 # filter (\<lambda>z. 0 < linked (cm_list m) (take p es) z) L = X @ x # Y" and x: "x \<noteq> 0"
    and vis: "visited compare m es L target b v out (Some x)"
    and n: "\<And>n. first_opt Y = Some n \<Longrightarrow> 0 < linked (cm_list m) (take v' es) n"
  shows "visited compare m es L target b v' (out @ (case first_opt Y of None \<Rightarrow> [] | Some n \<Rightarrow> [n])) (first_opt Y)"
proof -
  let ?B = "below compare (cm_list (mem m es)) target"
  let ?out = "out @ (case first_opt Y of None \<Rightarrow> [] | Some n \<Rightarrow> [n])"
  have L: "distinct L" "0 \<notin> set L" and init: "initial ?B L"
    using hist initial_shape by (auto simp: hist_inv_def shape_ok_def)
  note ord = level_order [OF L F]
  have out: "out = butlast out @ [x]" "subseq out L" using vis by (auto simp: visited_def)
  have "subseq ?out L"
  proof (cases "first_opt Y")
    case (Some n)
    then have "subseq [x, n] L" using ord(1) x by blast
    then have "subseq (butlast out @ [x, n]) L" using subseq_extend [of "butlast out" x L n] out L(1) by simp
    then show ?thesis using Some out(1) by (metis append.assoc append_Cons append_Nil option.simps(5))
  qed (use out in simp)
  moreover have "0 < linked (cm_list m) (take v' es) z \<and> \<not> ?B z" if "z \<in> set ?out" for z
  proof (cases "z \<in> set out")
    case True
    then show ?thesis using vis linked_mono [OF t(2), of "cm_list m" es z] by (auto simp: visited_def)
  next
    case False
    with that have z: "first_opt Y = Some z" by (auto split: option.splits)
    have "\<not> ?B x" using vis by (auto simp: visited_def)
    then show ?thesis using n [OF z] ord(1) [OF z] x initial_pair [OF init] by blast
  qed
  moreover have "z \<in> set ?out \<or> (\<exists>n. first_opt Y = Some n \<and> subseq [n, z] L)"
    if z: "z \<in> set L" "0 < linked (cm_list m) (take b es) z" "\<not> ?B z" for z
  proof (cases "z \<in> set Y")
    case True
    then show ?thesis using ord(3) by fastforce
  next
    case False
    moreover have "0 < linked (cm_list m) (take p es) z" using z(2) linked_mono [OF t(1), of "cm_list m" es z] by simp
    ultimately have "z = x \<or> \<not> subseq [x, z] L" using ord(2) [of z] z(1) by auto
    moreover have "x \<in> set out" using out(1) by (metis in_set_conv_decomp)
    ultimately show ?thesis using vis z by (auto simp: visited_def)
  qed
  ultimately show ?thesis unfolding visited_def by (auto split: option.split)
qed

lemma linked_key:
  assumes hist: "hist_inv compare m es L" and "i < linked (cm_list m) (take t es) n" and "t \<le> length es" and "i < kMaxHeight"
  shows "n < length (sl_nodes (cm_list (mem m (take t es))))
    \<and> key_of (cm_list (mem m (take t es))) n = key_of (cm_list (mem m es)) n"
  using linked_node(1) [OF hist assms(3) _ assms(4), of n] assms(2) snap_at [OF hist assms(3)] by (auto simp: snap_def)

text \<open>The invariant of a reader is kept by its own loads: on the way down, and in the scan.\<close>

lemma rinv_load_seek:
  assumes hist: "hist_inv compare m es L" and r: "rinv compare m es L r"
    and p: "r_view r \<le> p" "p \<le> length es" and R_seek: "r_pc r = R_seek x l"
  shows "rinv compare m es L (reader_step compare m es p r)"
proof -
  let ?s = "cm_list (mem m es)" and ?lk = "\<lambda>t. linked (cm_list m) (take t es)"
  have L: "distinct L" "0 \<notin> set L" using hist by (auto simp: hist_inv_def shape_ok_def)
  have b: "r_begin r \<le> r_view r" "r_view r \<le> length es" "r_begin r \<le> p" using r p by (auto simp: rinv_def)
  from r R_seek have x: "l < kMaxHeight" "x = 0 \<or> l < ?lk (r_view r) x" "x = 0 \<or> below compare ?s (r_target r) x"
    and out: "r_out r = []" and loads: "r_loads r + l \<le> kMaxHeight + rank L x"
    by (auto simp: rinv_def)
  obtain X Y v where Y: "acquire_Next m es (r_view r) p x l = Some (first_opt Y, v)" "r_view r \<le> v" "v \<le> p"
    "0 # filter (\<lambda>z. l < ?lk p z) L = X @ x # Y" "\<And>n. first_opt Y = Some n \<Longrightarrow> l < ?lk v n"
    by (rule acquire_Next_linked [OF hist p x(2,1)]) blast
  have v: "v \<le> length es" "r_begin r \<le> v" using Y(3) p b Y(2) by auto
  have n: "n < length (sl_nodes (cm_list (mem m (take v es)))) \<and> key_of (cm_list (mem m (take v es))) n = key_of ?s n
    \<and> rank L x < rank L n" if "first_opt Y = Some n" for n
    using linked_key [OF hist Y(5) [OF that] v(1) x(1)] level_order(1) [OF L Y(4) that] by simp
  consider (right) n where "first_opt Y = Some n" "below compare ?s (r_target r) n"
    | (land) "l = 0" "\<And>n. first_opt Y = Some n \<Longrightarrow> \<not> below compare ?s (r_target r) n"
    | (down) "l \<noteq> 0" "\<And>n. first_opt Y = Some n \<Longrightarrow> \<not> below compare ?s (r_target r) n"
    by (cases "first_opt Y") auto
  then show ?thesis
  proof cases
    case right
    then have "reader_step compare m es p r = r\<lparr>r_loads := r_loads r + 1, r_pc := R_seek n l, r_view := v\<rparr>"
      using R_seek Y(1) n by (simp add: reader_step_def below_def)
    then show ?thesis using right v out loads x(1) Y(5) n [OF right(1)] by (simp add: rinv_def)
  next
    case land
    then have "reader_step compare m es p r = reader_lands (first_opt Y) v (r\<lparr>r_loads := r_loads r + 1\<rparr>)"
      using R_seek Y(1) n by (cases "first_opt Y") (auto simp: reader_step_def below_def Let_def)
    moreover have "visited compare m es L (r_target r) (r_begin r) v
        (case first_opt Y of None \<Rightarrow> [] | Some n \<Rightarrow> [n]) (first_opt Y)"
      using visited_first [OF hist b(3) p(2) _ x(3), of X Y v] Y(4,5) land by simp
    moreover have "rank L x \<le> length L"
      using linked_node(3) [OF hist b(2) x(2,1)] by (intro rank_le_length [OF L(1)]) auto
    ultimately show ?thesis
      using v out loads land(1) n by (fastforce simp: rinv_def reader_lands_def split: option.split)
  next
    case down
    then have "reader_step compare m es p r = r\<lparr>r_loads := r_loads r + 1, r_pc := R_seek x (l - 1), r_view := v\<rparr>"
      using R_seek Y(1) n by (cases "first_opt Y") (auto simp: reader_step_def below_def Let_def)
    then show ?thesis
      using down v out loads x linked_mono [OF Y(2), of "cm_list m" es x] by (auto simp: rinv_def)
  qed
qed

lemma rinv_load_scan:
  assumes hist: "hist_inv compare m es L" and r: "rinv compare m es L r"
    and p: "r_view r \<le> p" "p \<le> length es" and R_at: "r_pc r = R_at (Some x)"
  shows "rinv compare m es L (reader_step compare m es p r)"
proof -
  let ?s = "cm_list (mem m es)" and ?lk = "\<lambda>t. linked (cm_list m) (take t es)"
  have L: "distinct L" "0 \<notin> set L" using hist by (auto simp: hist_inv_def shape_ok_def)
  have b: "r_begin r \<le> r_view r" "r_view r \<le> length es" "r_begin r \<le> p" using r p by (auto simp: rinv_def)
  have k0: "0 < kMaxHeight" by (simp add: kMaxHeight_def)
  from R_at r have vis: "visited compare m es L (r_target r) (r_begin r) (r_view r) (r_out r) (Some x)"
    and loads: "r_loads r \<le> kMaxHeight + rank L x" by (auto simp: rinv_def)
  have xo: "x \<in> set (r_out r)" using vis by (auto simp: visited_def)
  then have xL: "x \<in> set L" "0 < ?lk (r_view r) x" using vis by (auto simp: visited_def dest: subseq_set)
  have x0: "x \<noteq> 0" using xL(1) L(2) by metis
  obtain X Y v where Y: "acquire_Next m es (r_view r) p x 0 = Some (first_opt Y, v)" "r_view r \<le> v" "v \<le> p"
    "0 # filter (\<lambda>z. 0 < ?lk p z) L = X @ x # Y" "\<And>n. first_opt Y = Some n \<Longrightarrow> 0 < ?lk v n"
    by (rule acquire_Next_linked [OF hist p disjI2 [OF xL(2)] k0]) blast
  have "reader_step compare m es p r = reader_lands (first_opt Y) v (r\<lparr>r_loads := r_loads r + 1\<rparr>)"
    using R_at Y(1) by (simp add: reader_step_def)
  moreover note visited_next [OF hist b(3) Y(2,4) x0 vis Y(5)]
  moreover have "rank L x \<le> length L" using rank_le_length [OF L(1)] xL(1) by blast
  ultimately show ?thesis
    using b(1) p Y(2,3) loads level_order(1) [OF L Y(4)]
    by (fastforce simp: rinv_def reader_lands_def split: option.split)
qed

lemma rinv_load:
  assumes hist: "hist_inv compare m es L" and r: "rinv compare m es L r" and "reader_loading r"
    and p: "r_view r \<le> p" "p \<le> length es"
  shows "rinv compare m es L (reader_step compare m es p r)"
proof (cases "r_pc r")
  case R_begin
  have "0 < sl_max_height (cm_list (mem m (take p es)))" "sl_max_height (cm_list (mem m (take p es))) \<le> kMaxHeight"
    using snap_at [OF hist p(2)] by (auto simp: snap_def)
  then show ?thesis using r p R_begin by (auto simp: rinv_def reader_step_def GetMaxHeight_def)
next
  case (R_seek x l)
  then show ?thesis by (rule rinv_load_seek [OF hist r p])
next
  case (R_at y)
  with assms(3) obtain x where "y = Some x" by (auto simp: reader_loading_def)
  with R_at show ?thesis using rinv_load_scan [OF hist r p] by simp
qed (use assms(3) in \<open>auto simp: reader_loading_def\<close>)

end

lemma rinv_synchronise:
  assumes "rinv compare m es L r" and "r_view r \<le> p" and "p \<le> length es"
  shows "rinv compare m es L (r\<lparr>r_view := p\<rparr>)"
proof -
  have "linked (cm_list m) (take (r_view r) es) x \<le> linked (cm_list m) (take p es) x" for x
    by (rule linked_mono [OF assms(2)])
  then have "i < linked (cm_list m) (take (r_view r) es) x \<Longrightarrow> i < linked (cm_list m) (take p es) x" for x i
    by (meson order.strict_trans2)
  with assms show ?thesis by (auto simp: rinv_def visited_def split: rpc.splits)
qed

lemma rinv_start_seek: "rinv compare m es L r \<Longrightarrow> rinv compare m es L (start_seek target r)"
  by (simp add: rinv_def start_seek_def)

section \<open>Reachable states\<close>

definition cinv :: "('k \<Rightarrow> 'k \<Rightarrow> int) \<Rightarrow> 'k list \<Rightarrow> 'k cmem \<Rightarrow> 'k conc \<Rightarrow> nat list \<Rightarrow> bool" where
  "cinv compare all_keys m c L \<longleftrightarrow>
     conc_inv compare all_keys m (c_stores c) L (c_writer c) \<and> (\<forall>r \<in> set (c_readers c). rinv compare m (c_stores c) L r)"

lemma conc_inv_hist: "conc_inv compare all_keys m es L w \<Longrightarrow> hist_inv compare m es L"
  by (simp add: conc_inv_def)

lemma cinv_reader:
  assumes "cinv compare ks m c L" and "j < length (c_readers c)"
    and "rinv compare m (c_stores c) L (c_readers c ! j) \<Longrightarrow> rinv compare m (c_stores c) L r"
  shows "cinv compare ks m (c\<lparr>c_readers := (c_readers c)[j := r]\<rparr>) L"
  using assms by (auto simp: cinv_def dest: set_update_subset_insert [THEN subsetD])

context skip_order
begin

lemma cinv_step:
  assumes "conc_step compare m c c'" and "cinv compare ks m c L"
  shows "\<exists>L'. cinv compare ks m c' L'"
  using assms
proof (induction rule: conc_step.induct)
  case (store c e w)
  then have inv: "conc_inv compare ks m (c_stores c) L (c_writer c)" by (simp add: cinv_def)
  have "\<not> writer_done (c_writer c)" using store(1) by (auto simp: writer_step_def writer_done_def)
  from writer_progress [OF inv this] store(1) obtain L' where
    L': "conc_inv compare ks m (c_stores c @ [e]) L' w" "subseq L L'" by auto
  then show ?case
    using store(2) rinv_store [OF conc_inv_hist [OF inv] conc_inv_hist [OF L'(1)] L'(2)]
    by (auto simp: cinv_def simp del: mem_snoc)
next
  case (store_fails c)
  then show ?case using writer_progress [of ks m "c_stores c" L "c_writer c"] by (auto simp: cinv_def)
next
  case (load j c p)
  then have "hist_inv compare m (c_stores c) L" by (simp add: cinv_def conc_inv_def)
  with load show ?case by (blast intro: cinv_reader rinv_load)
next
  case (seek j c target)
  then show ?case by (blast intro: cinv_reader rinv_start_seek)
next
  case (synchronise j c p)
  then show ?case by (blast intro: cinv_reader rinv_synchronise)
qed

lemma cinv_reach:
  assumes "conc_reach compare m c0 c" and "cinv compare ks m c0 L"
  shows "\<exists>L'. cinv compare ks m c L'"
  using assms by (induction rule: conc_reach.induct) (blast intro: cinv_step)+

end

lemma cinv_init:
  assumes "sl_inv compare s L" and "sorted_wrt (\<lambda>a b. compare b a \<noteq> 0) ks"
    and "\<forall>a \<in> set (sl_keys s L). \<forall>k \<in> set ks. compare k a \<noteq> 0"
  shows "cinv compare (sl_keys s L @ ks) \<lparr>cm_list = s, cm_raw = []\<rparr> (conc_init ks (replicate j (new_reader zero))) L"
proof -
  let ?m = "\<lparr>cm_list = s, cm_raw = []\<rparr> :: 'a cmem"
  have L: "set L = {0<..<length (sl_nodes s)}" using assms(1) by (simp add: sl_inv_def)
  then have lk: "linked s [] x = height s x" if "x \<in> set L" for x using that by (simp add: linked_def)
  then have "chains s L (linked s [])"
    using assms(1) by (subst chains_cong [where lk' = "height s"]) (auto simp: sl_inv_iff)
  then have "hist_inv compare ?m [] L"
    using assms(1) by (auto simp: hist_inv_def sl_inv_iff shape_ok_def snap_def mem_def linked_def)
  moreover have "winv compare ?m L (linked s []) W_idle" using lk by (simp add: full_def)
  moreover have "keys_inv compare (sl_keys s L @ ks) s L \<lparr>w_keys = ks, w_pc = W_idle\<rparr>"
    using assms(2,3) by (simp add: keys_inv_def)
  ultimately show ?thesis by (auto simp: cinv_def conc_init_def conc_inv_def rinv_def new_reader_def mem_def)
qed

section \<open>The list as its keys\<close>

lemma scan_chain:
  assumes "chain (succ_at s 0) x ys" and "\<And>y. y \<in> set ys \<Longrightarrow> y < length (sl_nodes s) \<and> 0 < height s y"
  shows "scan s (first_opt ys) = Some (map (key_of s) ys)"
  using assms
proof (induction ys arbitrary: x)
  case Nil
  show ?case by (subst scan.simps) (simp add: Iterator_Valid_def)
next
  case (Cons y ys)
  have "succ_at s 0 y = first_opt ys" using Cons.prems(1) by (intro chain_first) simp
  then have "Iterator_Next s (Some y) = Some (first_opt ys)"
    using Cons.prems(2) [of y]
    by (simp add: Iterator_Next_def Iterator_Valid_def Node_Next_def kMaxHeight_def height_def succ_at_def)
  with Cons show ?case
    by (subst scan.simps) (auto simp: Iterator_Valid_def Iterator_key_def)
qed

lemma list_keys_at:
  assumes hist: "hist_inv compare m es L" and t: "t \<le> length es"
  shows "list_keys (cm_list (mem m (take t es)))
    = Some (map (key_of (cm_list (mem m es))) (filter (\<lambda>z. 0 < linked (cm_list m) (take t es) z) L))"
proof -
  let ?s = "cm_list (mem m (take t es))" and ?F = "filter (\<lambda>z. 0 < linked (cm_list m) (take t es) z) L"
  have k0: "0 < kMaxHeight" by (simp add: kMaxHeight_def)
  have c: "chain (succ_at ?s 0) 0 ?F" using snap_at [OF hist t] k0 by (simp add: snap_def chains_def)
  have F: "z < length (sl_nodes ?s) \<and> 0 < height ?s z \<and> key_of ?s z = key_of (cm_list (mem m es)) z" if "z \<in> set ?F" for z
    using linked_node(1,2) [OF hist t _ k0, of z] snap_at [OF hist t] that by (auto simp: snap_def)
  have "Iterator_SeekToFirst ?s = Some (first_opt ?F)"
    using linked_node(1,2) [OF hist t _ k0, of 0] chain_first [OF c] k0
    by (simp add: Iterator_SeekToFirst_def Node_Next_def height_def succ_at_def)
  moreover have "map (key_of ?s) ?F = map (key_of (cm_list (mem m es))) ?F" using F by (intro map_cong) auto
  ultimately show ?thesis using scan_chain [OF c] F by (simp add: list_keys_def)
qed

lemma subseq_as_filter: "subseq xs L \<Longrightarrow> distinct L \<Longrightarrow> xs = filter (\<lambda>z. z \<in> set xs) L"
proof (induction rule: list_emb.induct)
  case (list_emb_Cons xs ys y)
  then have "y \<notin> set xs" using subseq_set [of xs ys y] by auto
  with list_emb_Cons show ?case by simp
next
  case (list_emb_Cons2 x y xs ys)
  then have "x \<notin> set ys" by simp
  then have "filter (\<lambda>z. z = x \<or> z \<in> set xs) ys = filter (\<lambda>z. z \<in> set xs) ys" by (intro filter_cong) auto
  moreover have "xs = filter (\<lambda>z. z \<in> set xs) ys" using list_emb_Cons2 by simp
  ultimately show ?case using list_emb_Cons2(1) by simp
qed simp

lemma subseq_between:
  assumes "subseq xs L" and "distinct L"
  shows "\<forall>z \<in> set L. Q z \<longrightarrow> z \<in> set xs \<Longrightarrow> subseq (filter Q L) xs" and "\<forall>z \<in> set xs. Q z \<Longrightarrow> subseq xs (filter Q L)"
proof -
  assume "\<forall>z \<in> set L. Q z \<longrightarrow> z \<in> set xs"
  then have "filter Q L = filter Q (filter (\<lambda>z. z \<in> set xs) L)" by (auto intro: filter_cong)
  also have "\<dots> = filter Q xs" using subseq_as_filter [OF assms] by simp
  finally show "subseq (filter Q L) xs" by simp
next
  assume "\<forall>z \<in> set xs. Q z"
  then have "filter Q xs = xs" by (simp add: filter_id_conv)
  then show "subseq xs (filter Q L)" using subseq_filter [OF assms(1), of Q] by simp
qed

lemma rinv_loads:
  assumes hist: "hist_inv compare m es L" and r: "rinv compare m es L r"
  shows "r_loads r \<le> kMaxHeight + length (sl_nodes (cm_list (mem m es)))"
proof -
  have L: "distinct L" "set L = {0<..<length (sl_nodes (cm_list (mem m es)))}" "0 < length (sl_nodes (cm_list (mem m es)))"
    using hist by (auto simp: hist_inv_def shape_ok_def)
  have len: "Suc (length L) = length (sl_nodes (cm_list (mem m es)))"
    using L(3) distinct_card [OF L(1)] unfolding L(2) by (cases "length (sl_nodes (cm_list (mem m es)))") simp_all
  have v: "r_view r \<le> length es" using r by (simp add: rinv_def)
  have rank: "rank L x \<le> length L" if "x = 0 \<or> 0 < linked (cm_list m) (take (r_view r) es) x" for x
    using that linked_positive(1) [OF hist v, of x] by (intro rank_le_length [OF L(1)]) auto
  have "r_loads r \<le> kMaxHeight + Suc (length L)"
  proof (cases "r_pc r")
    case (R_seek x l)
    then show ?thesis using r rank [of x] by (auto simp: rinv_def)
  next
    case (R_at y)
    show ?thesis
    proof (cases y)
      case (Some n)
      then have "n \<in> set (r_out r)" using r R_at by (auto simp: rinv_def visited_def)
      then have "rank L n \<le> length L" using r R_at by (intro rank) (auto simp: rinv_def visited_def)
      then show ?thesis using r R_at Some by (auto simp: rinv_def)
    qed (use r R_at in \<open>auto simp: rinv_def\<close>)
  qed (use r in \<open>auto simp: rinv_def\<close>)
  then show ?thesis using len by simp
qed

lemma keys_not_below:
  "filter (\<lambda>k. \<not> compare k target < 0) (map (key_of s) (filter Q L))
    = map (key_of s) (filter (\<lambda>z. Q z \<and> \<not> below compare s target z) L)"
  by (simp add: filter_map comp_def below_def conj_commute)

text \<open>What a reader has visited at the end, between the list at its start and the list now.\<close>

lemma visited_between:
  assumes hist: "hist_inv compare m es L" and r: "rinv compare m es L r" and "r_pc r = R_at None"
  defines "s \<equiv> cm_list (mem m es)"
  shows "subseq (filter (\<lambda>k. \<not> compare k (r_target r) < 0)
      (map (key_of s) (filter (\<lambda>z. 0 < linked (cm_list m) (take (r_begin r) es) z) L))) (sl_keys s (r_out r))"
    and "subseq (sl_keys s (r_out r)) (filter (\<lambda>k. \<not> compare k (r_target r) < 0)
      (map (key_of s) (filter (\<lambda>z. 0 < linked (cm_list m) es z) L)))"
proof -
  have L: "distinct L" using hist by (simp add: hist_inv_def shape_ok_def)
  have vis: "visited compare m es L (r_target r) (r_begin r) (r_view r) (r_out r) None"
    using r assms(3) by (simp add: rinv_def)
  have "0 < linked (cm_list m) es z" if "z \<in> set (r_out r)" for z
    using vis that linked_mono_all [of "cm_list m" "r_view r" es z] by (fastforce simp: visited_def)
  then show "subseq (sl_keys s (r_out r)) (filter (\<lambda>k. \<not> compare k (r_target r) < 0)
      (map (key_of s) (filter (\<lambda>z. 0 < linked (cm_list m) es z) L)))"
    unfolding keys_not_below sl_keys_def using vis L
    by (intro subseq_map subseq_between) (auto simp: visited_def s_def)
  show "subseq (filter (\<lambda>k. \<not> compare k (r_target r) < 0)
      (map (key_of s) (filter (\<lambda>z. 0 < linked (cm_list m) (take (r_begin r) es) z) L))) (sl_keys s (r_out r))"
    unfolding keys_not_below sl_keys_def using vis L
    by (intro subseq_map subseq_between) (auto simp: visited_def s_def)
qed

section \<open>Properties\<close>

text \<open>C5. Readers and one writer share the skip list without locks.  Start with a list that satisfies the
  invariant, let one thread insert keys no two of which compare equal while any number of readers seek and
  scan, with the stores and loads interleaved in any order and the loads returning any value that the
  acquire, release and relaxed orders of the code allow.  Then neither the writer nor a reader ever fails
  an assertion, reads an uninitialised pointer, or races with the construction of a node.  A reader that
  has come to the end has visited a sequence of keys between two snapshots: every key not below its target
  that was in the list in its view at the start, and only keys not below the target that are in the list
  now, in ascending order.  A seek and scan take at most as many loads as there are levels and nodes.
  When the writer is done, the list has all the keys.\<close>

theorem readers_see_a_consistent_list:
  fixes s :: "'k SkipList" and zero :: 'k
  defines "m \<equiv> \<lparr>cm_list = s, cm_raw = []\<rparr>"
  assumes "skip_order compare" and "sl_inv compare s L" and "sorted_wrt (\<lambda>a b. compare b a \<noteq> 0) ks"
    and "\<forall>a \<in> set (sl_keys s L). \<forall>k \<in> set ks. compare k a \<noteq> 0"
    and "conc_reach compare m (conc_init ks (replicate j (new_reader zero))) c"
  shows "w_pc (c_writer c) \<noteq> W_failed
   \<and> (\<exists>now. list_keys (cm_list (mem m (c_stores c))) = Some now
        \<and> (writer_done (c_writer c) \<longrightarrow> mset now = mset (sl_keys s L) + mset ks)
        \<and> (\<forall>r \<in> set (c_readers c). r_pc r \<noteq> R_failed
             \<and> r_loads r \<le> kMaxHeight + length (sl_nodes (cm_list (mem m (c_stores c))))
             \<and> (\<exists>old. list_keys (cm_list (mem m (take (r_begin r) (c_stores c)))) = Some old
                  \<and> (r_pc r = R_at None \<longrightarrow>
                       subseq (filter (\<lambda>k. \<not> compare k (r_target r) < 0) old) (sl_keys (cm_list (mem m (c_stores c))) (r_out r))
                       \<and> subseq (sl_keys (cm_list (mem m (c_stores c))) (r_out r))
                           (filter (\<lambda>k. \<not> compare k (r_target r) < 0) now)))))"
proof -
  let ?es = "c_stores c"
  let ?s = "cm_list (mem m ?es)"
  obtain L' where inv: "cinv compare (sl_keys s L @ ks) m c L'"
    using skip_order.cinv_reach [OF assms(2,6)] cinv_init [OF assms(3-5)] unfolding m_def by blast
  then have ci: "conc_inv compare (sl_keys s L @ ks) m ?es L' (c_writer c)" by (simp add: cinv_def)
  note hist = conc_inv_hist [OF ci]
  note keys = list_keys_at [OF hist]
  define now where "now = map (key_of ?s) (filter (\<lambda>z. 0 < linked (cm_list m) ?es z) L')"
  have now: "list_keys ?s = Some now" using keys [of "length ?es"] by (simp add: now_def)
  have nf: "w_pc (c_writer c) \<noteq> W_failed" using ci by (auto simp: conc_inv_def)
  have fin: "mset now = mset (sl_keys s L) + mset ks" if "writer_done (c_writer c)"
  proof -
    have "full ?s L' (linked (cm_list m) ?es)" "keys_inv compare (sl_keys s L @ ks) ?s L' (c_writer c)"
      using ci that by (auto simp: conc_inv_def writer_done_def)
    moreover from this have "filter (\<lambda>z. 0 < linked (cm_list m) ?es z) L' = L'"
      using hist by (auto simp: full_def hist_inv_def shape_ok_def filter_id_conv)
    ultimately show ?thesis using that by (simp add: now_def keys_inv_def writer_done_def sl_keys_def)
  qed
  have r: "rinv compare m ?es L' r" if "r \<in> set (c_readers c)" for r using inv that by (simp add: cinv_def)
  then have "r_pc r \<noteq> R_failed" "r_begin r \<le> length ?es" if "r \<in> set (c_readers c)" for r
    using r [OF that] by (auto simp: rinv_def)
  then show ?thesis
    using nf now fin rinv_loads [OF hist r] visited_between [OF hist r, folded now_def] keys by blast
qed

text \<open>Runs in which the writer, or a reader that loads present values, takes every step.\<close>

fun run_writer :: "nat \<Rightarrow> ('k \<Rightarrow> 'k \<Rightarrow> int) \<Rightarrow> 'k cmem \<Rightarrow> 'k conc \<Rightarrow> 'k conc" where
  "run_writer 0 compare m c = c"
| "run_writer (Suc n) compare m c =
     (case writer_step compare (cm_list (mem m (c_stores c))) (c_writer c) of
        None \<Rightarrow> c
      | Some (e, w) \<Rightarrow> run_writer n compare m (c\<lparr>c_stores := c_stores c @ [e], c_writer := w\<rparr>))"

fun run_reader :: "nat \<Rightarrow> ('k \<Rightarrow> 'k \<Rightarrow> int) \<Rightarrow> 'k cmem \<Rightarrow> 'k conc \<Rightarrow> 'k conc" where
  "run_reader 0 compare m c = c"
| "run_reader (Suc n) compare m c =
     (if 0 < length (c_readers c) \<and> reader_loading (c_readers c ! 0) \<and> r_view (c_readers c ! 0) \<le> length (c_stores c)
      then run_reader n compare m
        (c\<lparr>c_readers := (c_readers c)[0 := reader_step compare m (c_stores c) (length (c_stores c)) (c_readers c ! 0)]\<rparr>)
      else c)"

lemma run_writer_reach: "conc_reach compare m c0 c \<Longrightarrow> conc_reach compare m c0 (run_writer n compare m c)"
  by (induction n arbitrary: c) (auto split: option.split intro: conc_reach.step conc_step.store)

lemma run_reader_reach: "conc_reach compare m c0 c \<Longrightarrow> conc_reach compare m c0 (run_reader n compare m c)"
proof (induction n arbitrary: c)
  case (Suc n)
  then show ?case using conc_reach.step [OF Suc.prems conc_step.load, of 0 "length (c_stores c)"] by simp
qed simp

text \<open>A reader that starts from 3 while 5, 2 and 9 are inserted.\<close>

definition example_mem :: "int cmem" where
  "example_mem = \<lparr>cm_list = SkipList_new 0, cm_raw = []\<rparr>"

definition example_start :: "int conc" where
  "example_start = run_writer 12 int_compare example_mem (conc_init [5, 2, 9] (replicate 1 (new_reader 0)))"

definition example_end :: "int conc" where
  "example_end =
     (let c = example_start; r = c_readers c ! 0;
          c = c\<lparr>c_readers := (c_readers c)[0 := r\<lparr>r_view := length (c_stores c)\<rparr>]\<rparr>;
          c = c\<lparr>c_readers := (c_readers c)[0 := start_seek 3 (c_readers c ! 0)]\<rparr>
      in run_reader 20 int_compare example_mem (run_writer 20 int_compare example_mem c))"

lemma example_reach: "conc_reach int_compare example_mem (conc_init [5, 2, 9] (replicate 1 (new_reader 0))) example_end"
proof -
  have "0 < length (c_readers example_start)" "r_view (c_readers example_start ! 0) \<le> length (c_stores example_start)"
    by code_simp+
  note sync = conc_reach.step [OF _ conc_step.synchronise [OF this order_refl]]
  show ?thesis
    unfolding example_end_def Let_def
    by (intro run_reader_reach run_writer_reach conc_reach.step [OF sync conc_step.seek])
      (simp_all add: example_start_def run_writer_reach conc_reach.start, code_simp+)
qed

lemma example_values:
  "r_pc (c_readers example_end ! 0) = R_at None" "writer_done (c_writer example_end)"
  "r_target (c_readers example_end ! 0) = 3" "c_readers example_end \<noteq> []"
  "sl_keys (cm_list (mem example_mem (c_stores example_end))) (r_out (c_readers example_end ! 0)) = [5, 9]"
  by code_simp+

theorem readers_see_a_consistent_list_witness:
  "\<exists>old now. list_keys (cm_list (mem example_mem (take (r_begin (c_readers example_end ! 0)) (c_stores example_end)))) = Some old
    \<and> list_keys (cm_list (mem example_mem (c_stores example_end))) = Some now \<and> mset now = {# 5, 2, 9 #}
    \<and> subseq (filter (\<lambda>k. \<not> int_compare k 3 < 0) old) [5, 9] \<and> subseq [5, 9] (filter (\<lambda>k. \<not> int_compare k 3 < 0) now)"
proof -
  have keys: "sorted_wrt (\<lambda>a b. int_compare b a \<noteq> 0) [5, 2, 9]"
    "\<forall>a \<in> set (sl_keys (SkipList_new 0) []). \<forall>k \<in> set [5, 2, 9]. int_compare k a \<noteq> 0"
    by (simp_all add: int_compare_def sl_keys_def)
  have "c_readers example_end ! 0 \<in> set (c_readers example_end)" using example_values(4) by simp
  then show ?thesis
    using readers_see_a_consistent_list [OF int_compare_order SkipList_new_inv keys
        example_reach [unfolded example_mem_def]] example_values
    unfolding example_mem_def by (auto simp: sl_keys_def [of _ "[]"])
qed

end
