(* ===== verification/Hash.thy ===== *)
theory Hash
  imports Coding
begin

text \<open>
  The hash function of the cache and the Bloom filter (\<open>util/hash.h\<close>, \<open>util/hash.cpp\<close>), on the
  \<open>n\<close> bytes it is given.
\<close>

definition hash_m :: u32 where
  "hash_m = 0xC6A4A793"

definition hash_r :: nat where
  "hash_r = 24"

text \<open>The loop over four bytes at a time: what is left of the data, and the hash so far.\<close>

function Hash_loop :: "bytes \<Rightarrow> u32 \<Rightarrow> bytes \<times> u32" where
  "Hash_loop data h =
     (if 4 \<le> length data then
        let w = ucast (DecodeFixed32 data) :: u32;
            h = h + w;
            h = h * hash_m;
            h = h XOR drop_bit 16 h in
        Hash_loop (drop 4 data) h
      else (data, h))"
  by pat_completeness auto

termination
  by (relation "measure (\<lambda>(data, h). length data)") auto

declare Hash_loop.simps [simp del]

text \<open>The switch on the number of remaining bytes, with its fall-throughs.\<close>

definition Hash_tail :: "bytes \<Rightarrow> u32 \<Rightarrow> u32" where
  "Hash_tail data h =
     (let n = length data;
          h = (if n = 3 then h + push_bit 16 (ucast (data ! 2)) else h);
          h = (if n = 3 \<or> n = 2 then h + push_bit 8 (ucast (data ! 1)) else h) in
      if n = 3 \<or> n = 2 \<or> n = 1 then
        let h = h + ucast (data ! 0);
            h = h * hash_m in
        h XOR drop_bit hash_r h
      else h)"

text \<open>\<open>seed ^ (n * m)\<close> is computed on 64 bits and then cut to 32.\<close>

definition Hash :: "bytes \<Rightarrow> u32 \<Rightarrow> u32" where
  "Hash data seed =
     (let h = ucast (ucast seed XOR (of_nat (length data) * ucast hash_m) :: u64) :: u32;
          (data, h) = Hash_loop data h in
      Hash_tail data h)"

lemma Hash_loop_rest: "fst (Hash_loop data h) = drop (4 * (length data div 4)) data"
proof (induction data h rule: Hash_loop.induct)
  case (1 data h)
  show ?case
  proof (cases "4 \<le> length data")
    case True
    have "length data div 4 = Suc ((length data - 4) div 4)" using True by (simp add: le_div_geq)
    then show ?thesis
      using 1 True by (subst Hash_loop.simps) (simp add: Let_def add.commute)
  next
    case False
    then show ?thesis by (subst Hash_loop.simps) simp
  qed
qed

text \<open>At most three bytes are left for the tail, so that every byte is hashed.\<close>

lemma Hash_loop_rest_length: "length (fst (Hash_loop data h)) = length data mod 4"
  by (simp add: Hash_loop_rest minus_mult_div_eq_mod)

end
