(* ===== verification/Bloom.thy ===== *)
theory Bloom
  imports Hash
begin

text \<open>
  The Bloom filter (\<open>filter_policy/filter_policy.h\<close>, \<open>filter_policy/bloom_filter_policy.cpp\<close>): the
  interface \<open>FilterPolicy\<close> as a locale and \<open>BloomFilterPolicy\<close> as its interpretation.
\<close>

section \<open>Definitions\<close>

record BloomFilterPolicy =
  bp_bits_per_key :: nat
  bp_k :: nat

text \<open>
  \<open>bits_per_key * 0.69\<close> in double precision, rounded down: for \<open>bits_per_key\<close> below 100 no product with
  69 is a multiple of 100, so the rounding of the product cannot reach the next integer; from 44 on
  the result is clamped to 30.  A negative number of bits, which the code converts with undefined
  behaviour, is not modelled.
\<close>

definition BloomFilterPolicy_new :: "nat \<Rightarrow> BloomFilterPolicy" where
  "BloomFilterPolicy_new bits_per_key =
     (let k = bits_per_key * 69 div 100;
          k = (if k < 1 then 1 else k);
          k = (if k > 30 then 30 else k) in
      \<lparr>bp_bits_per_key = bits_per_key, bp_k = k\<rparr>)"

definition NewBloomFilterPolicy :: "nat \<Rightarrow> BloomFilterPolicy" where
  "NewBloomFilterPolicy bits_per_key = BloomFilterPolicy_new bits_per_key"

definition BloomFilterPolicy_Name :: bytes where
  "BloomFilterPolicy_Name = str ''leveldb.BuiltinBloomFilter2''"

definition BloomHash :: "bytes \<Rightarrow> u32" where
  "BloomHash key = Hash key 0xbc9f1d34"

definition bloom_delta :: "u32 \<Rightarrow> u32" where
  "bloom_delta h = (drop_bit 17 h OR push_bit 15 h)"

text \<open>\<open>array[bitpos / 8] |= (1 << (bitpos % 8))\<close> and the test of that bit.\<close>

definition set_array_bit :: "bytes \<Rightarrow> nat \<Rightarrow> bytes" where
  "set_array_bit array bitpos =
     array[bitpos div 8 := (array ! (bitpos div 8)) OR push_bit (bitpos mod 8) 1]"

definition array_bit :: "bytes \<Rightarrow> nat \<Rightarrow> bool" where
  "array_bit array bitpos \<longleftrightarrow> (array ! (bitpos div 8)) AND push_bit (bitpos mod 8) 1 \<noteq> 0"

text \<open>The inner loop of \<open>CreateFilter\<close>: \<open>j\<close> more probes.\<close>

primrec set_probes :: "nat \<Rightarrow> nat \<Rightarrow> u32 \<Rightarrow> u32 \<Rightarrow> bytes \<Rightarrow> bytes" where
  "set_probes 0 bits h delta array = array"
| "set_probes (Suc j) bits h delta array =
     set_probes j bits (h + delta) delta (set_array_bit array (unat h mod bits))"

primrec set_keys :: "bytes list \<Rightarrow> nat \<Rightarrow> nat \<Rightarrow> bytes \<Rightarrow> bytes" where
  "set_keys [] k bits array = array"
| "set_keys (key # keys) k bits array =
     (let h = BloomHash key in set_keys keys k bits (set_probes k bits h (bloom_delta h) array))"

definition CreateFilter :: "BloomFilterPolicy \<Rightarrow> bytes list \<Rightarrow> bytes \<Rightarrow> bytes" where
  "CreateFilter p keys dst =
     (let bits = (length keys * bp_bits_per_key p) mod 2 ^ 64;
          bits = (if bits < 64 then 64 else bits);
          nbytes = (bits + 7) mod 2 ^ 64 div 8;
          bits = nbytes * 8 in
      dst @ set_keys keys (bp_k p) bits (replicate nbytes 0) @ [of_nat (bp_k p)])"

text \<open>The loop of \<open>KeyMayMatch\<close>.\<close>

primrec test_probes :: "nat \<Rightarrow> nat \<Rightarrow> u32 \<Rightarrow> u32 \<Rightarrow> bytes \<Rightarrow> bool" where
  "test_probes 0 bits h delta array = True"
| "test_probes (Suc j) bits h delta array =
     (if \<not> array_bit array (unat h mod bits) then False
      else test_probes j bits (h + delta) delta array)"

definition KeyMayMatch :: "bytes \<Rightarrow> bytes \<Rightarrow> bool" where
  "KeyMayMatch key bloom_filter =
     (let len = length bloom_filter in
      if len < 2 then False
      else
        let bits = (len - 1) * 8;
            k = unat (bloom_filter ! (len - 1)) in
        if k > 30 then True
        else
          let h = BloomHash key in
          test_probes k bits h (bloom_delta h) bloom_filter)"

section \<open>The contract of a filter policy\<close>

text \<open>
  \<open>CreateFilter\<close> appends a filter to the string it is given, and \<open>KeyMayMatch\<close> accepts every key the
  filter was made of.
\<close>

locale filter_policy =
  fixes Create :: "bytes list \<Rightarrow> bytes \<Rightarrow> bytes"
    and MayMatch :: "bytes \<Rightarrow> bytes \<Rightarrow> bool"
    and small :: "bytes list \<Rightarrow> bool"
  assumes appends: "take (length dst) (Create keys dst) = dst"
    and no_false_negative: "small keys \<Longrightarrow> key \<in> set keys \<Longrightarrow> MayMatch key (drop (length dst) (Create keys dst))"
begin

text \<open>A key that is refused was not among the keys.\<close>

lemma refused_is_absent: "small keys \<Longrightarrow> \<not> MayMatch key (drop (length dst) (Create keys dst)) \<Longrightarrow> key \<notin> set keys"
  using no_false_negative by blast

end

section \<open>Bits of the array\<close>

lemma array_bit_iff: "array_bit a p \<longleftrightarrow> bit (a ! (p div 8)) (p mod 8)"
proof -
  have "a ! (p div 8) AND push_bit (p mod 8) 1 = (if bit (a ! (p div 8)) (p mod 8) then push_bit (p mod 8) 1 else 0)"
    by (rule bit_word_eqI) (auto simp: bit_simps)
  moreover have "push_bit (p mod 8) (1 :: byte) \<noteq> 0"
  proof
    assume "push_bit (p mod 8) (1 :: byte) = 0"
    then have "bit (push_bit (p mod 8) (1 :: byte)) (p mod 8) = bit (0 :: byte) (p mod 8)" by simp
    then show False by (simp add: bit_simps)
  qed
  ultimately show ?thesis by (simp add: array_bit_def)
qed

lemma length_set_array_bit [simp]: "length (set_array_bit a p) = length a"
  by (simp add: set_array_bit_def)

lemma set_array_bit_set: "p div 8 < length a \<Longrightarrow> array_bit (set_array_bit a p) p"
  by (simp add: array_bit_iff set_array_bit_def bit_simps)

lemma set_array_bit_mono: "array_bit a q \<Longrightarrow> array_bit (set_array_bit a p) q"
  by (cases "p div 8 < length a")
    (auto simp: array_bit_iff set_array_bit_def nth_list_update bit_simps list_update_beyond)

lemma length_set_probes [simp]: "length (set_probes j bits h d a) = length a"
  by (induction j arbitrary: h a) simp_all

lemma set_probes_mono: "array_bit a q \<Longrightarrow> array_bit (set_probes j bits h d a) q"
  by (induction j arbitrary: h a) (simp_all add: set_array_bit_mono)

lemma length_set_keys [simp]: "length (set_keys keys k bits a) = length a"
  by (induction keys arbitrary: a) (simp_all add: Let_def)

lemma set_keys_mono: "array_bit a q \<Longrightarrow> array_bit (set_keys keys k bits a) q"
  by (induction keys arbitrary: a) (simp_all add: Let_def set_probes_mono)

lemma test_probes_mono:
  "(\<And>q. array_bit a q \<Longrightarrow> array_bit b q) \<Longrightarrow> test_probes j bits h d a \<Longrightarrow> test_probes j bits h d b"
  by (induction j arbitrary: h) (auto split: if_splits)

lemma probe_in_range: "0 < bits \<Longrightarrow> bits = 8 * length a \<Longrightarrow> n mod bits div 8 < length a"
proof -
  assume "0 < bits" and bits: "bits = 8 * length a"
  then have "n mod bits < length a * 8" using mod_less_divisor [of bits n] by linarith
  then show ?thesis by (rule less_mult_imp_div_less)
qed

text \<open>After its probes have been set, a key passes the test.\<close>

lemma test_set_probes:
  "0 < bits \<Longrightarrow> bits = 8 * length a \<Longrightarrow> test_probes j bits h d (set_probes j bits h d a)"
proof (induction j arbitrary: h a)
  case (Suc j)
  have "unat h mod bits div 8 < length a" using Suc.prems by (rule probe_in_range)
  then have "array_bit (set_probes j bits (h + d) d (set_array_bit a (unat h mod bits))) (unat h mod bits)"
    by (intro set_probes_mono set_array_bit_set)
  with Suc.prems Suc.IH [of "set_array_bit a (unat h mod bits)" "h + d"] show ?case by simp
qed simp

lemma test_set_keys:
  assumes "0 < bits" "bits = 8 * length a" "key \<in> set keys"
  shows "test_probes k bits (BloomHash key) (bloom_delta (BloomHash key)) (set_keys keys k bits a)"
  using assms(2,3)
proof (induction keys arbitrary: a)
  case (Cons x keys)
  show ?case
  proof (cases "x = key")
    case True
    have "test_probes k bits (BloomHash key) (bloom_delta (BloomHash key))
        (set_probes k bits (BloomHash key) (bloom_delta (BloomHash key)) a)"
      using assms(1) Cons.prems(1) by (rule test_set_probes)
    then show ?thesis
      using True by (auto simp: Let_def intro: test_probes_mono [rotated] set_keys_mono)
  next
    case False
    with Cons.prems Cons.IH [of "set_probes k bits (BloomHash x) (bloom_delta (BloomHash x)) a"] show ?thesis
      by (simp add: Let_def)
  qed
qed simp

text \<open>The byte behind the array does not matter for probes inside it.\<close>

lemma test_probes_append:
  "0 < bits \<Longrightarrow> bits = 8 * length a \<Longrightarrow> test_probes j bits h d (a @ r) = test_probes j bits h d a"
proof (induction j arbitrary: h)
  case (Suc j)
  have "unat h mod bits div 8 < length a" using Suc.prems by (rule probe_in_range)
  then have "array_bit (a @ r) (unat h mod bits) = array_bit a (unat h mod bits)"
    by (simp add: array_bit_def nth_append)
  with Suc show ?case by simp
qed simp

section \<open>The Bloom filter meets the contract\<close>

text \<open>Sizes for which the number of bits does not wrap around: always so for the code's 32-bit
  arguments.\<close>

definition bloom_small :: "BloomFilterPolicy \<Rightarrow> bytes list \<Rightarrow> bool" where
  "bloom_small p keys \<longleftrightarrow> length keys * bp_bits_per_key p < 2 ^ 62"

definition policy_ok :: "BloomFilterPolicy \<Rightarrow> bool" where
  "policy_ok p \<longleftrightarrow> 1 \<le> bp_k p \<and> bp_k p \<le> 30"

lemma BloomFilterPolicy_new_ok: "policy_ok (BloomFilterPolicy_new b)"
  by (simp add: policy_ok_def BloomFilterPolicy_new_def Let_def)

lemma CreateFilter_split:
  obtains nbytes where "CreateFilter p keys dst =
      dst @ set_keys keys (bp_k p) (nbytes * 8) (replicate nbytes 0) @ [of_nat (bp_k p)]"
    "bloom_small p keys \<Longrightarrow> 8 \<le> nbytes \<and> nbytes = max 8 ((length keys * bp_bits_per_key p + 7) div 8)"
proof -
  define bits where "bits = (length keys * bp_bits_per_key p) mod 2 ^ 64"
  define n where "n = ((if bits < 64 then 64 else bits) + 7) mod 2 ^ 64 div 8"
  have "CreateFilter p keys dst =
      dst @ set_keys keys (bp_k p) (n * 8) (replicate n 0) @ [of_nat (bp_k p)]"
    by (simp add: CreateFilter_def Let_def n_def bits_def)
  moreover have "n = max 8 ((length keys * bp_bits_per_key p + 7) div 8)" if "bloom_small p keys"
  proof -
    have "bits = length keys * bp_bits_per_key p" using that by (simp add: bits_def bloom_small_def)
    moreover have "bits < 2 ^ 62" using that calculation by (simp add: bloom_small_def)
    ultimately show ?thesis unfolding n_def by (simp add: max_def) linarith
  qed
  ultimately show thesis using that by (metis max.cobounded1)
qed

lemma KeyMayMatch_created:
  assumes "policy_ok p" and "bloom_small p keys" and "key \<in> set keys"
  shows "KeyMayMatch key (drop (length dst) (CreateFilter p keys dst))"
proof -
  obtain n where n: "CreateFilter p keys dst =
      dst @ set_keys keys (bp_k p) (n * 8) (replicate n 0) @ [of_nat (bp_k p)]" "8 \<le> n"
    using CreateFilter_split [of p keys dst] assms(2) by metis
  let ?a = "set_keys keys (bp_k p) (n * 8) (replicate n 0)"
  have k: "unat (of_nat (bp_k p) :: byte) = bp_k p"
    using assms(1) by (simp add: policy_ok_def unat_of_nat)
  have "test_probes (bp_k p) (n * 8) (BloomHash key) (bloom_delta (BloomHash key)) (?a @ [of_nat (bp_k p)])"
    using n(2) assms(3) test_set_keys [of "n * 8" "replicate n 0" key keys] test_probes_append [of "n * 8" ?a]
    by simp
  then show ?thesis
    using n k assms(1) by (simp add: KeyMayMatch_def Let_def nth_append policy_ok_def)
qed

interpretation bloom: filter_policy
  "CreateFilter (BloomFilterPolicy_new b)" KeyMayMatch "bloom_small (BloomFilterPolicy_new b)" for b
proof
  fix dst keys
  show "take (length dst) (CreateFilter (BloomFilterPolicy_new b) keys dst) = dst"
    using CreateFilter_split [of "BloomFilterPolicy_new b" keys dst] by (metis append_eq_conv_conj)
next
  fix keys key dst
  assume "bloom_small (BloomFilterPolicy_new b) keys" "key \<in> set keys"
  then show "KeyMayMatch key (drop (length dst) (CreateFilter (BloomFilterPolicy_new b) keys dst))"
    by (rule KeyMayMatch_created [OF BloomFilterPolicy_new_ok])
qed

section \<open>Properties\<close>

text \<open>C34. The Bloom filter has no false negatives: whatever the number of bits per key and for any
  list of keys (of a size that does not overflow 62 bits of filter), the filter that \<open>CreateFilter\<close>
  appends to a string accepts each of the keys, and the string in front of it is untouched.  A key
  that is refused is not among the keys.\<close>

theorem bloom_no_false_negatives:
  fixes dst :: bytes
  assumes "length keys * bits_per_key < 2 ^ 62"
  defines "f \<equiv> drop (length dst) (CreateFilter (BloomFilterPolicy_new bits_per_key) keys dst)"
  shows "take (length dst) (CreateFilter (BloomFilterPolicy_new bits_per_key) keys dst) = dst
    \<and> list_all (\<lambda>key. KeyMayMatch key f) keys
    \<and> (\<not> KeyMayMatch key f \<longrightarrow> key \<notin> set keys)"
proof -
  have small: "bloom_small (BloomFilterPolicy_new bits_per_key) keys"
    using assms(1) by (simp add: bloom_small_def BloomFilterPolicy_new_def Let_def)
  show ?thesis
    using bloom.appends bloom.no_false_negative [OF small] bloom.refused_is_absent [OF small]
    unfolding f_def by (simp add: list_all_iff)
qed

theorem bloom_no_false_negatives_witness:
  "list_all (\<lambda>key. KeyMayMatch key (CreateFilter (BloomFilterPolicy_new 10) [[1, 2], [3], []] [])) [[1, 2], [3], []]"
  using bloom_no_false_negatives [of "[[1, 2], [3], []]" 10 "[]"] by simp

end
