(* ===== verification/Crc32c.thy ===== *)
theory Crc32c
  imports Crc_Tables "HOL-Library.Monad_Syntax"
begin

text \<open>
  The checksum of \<open>util/crc32c.h\<close> and \<open>util/crc32c.cpp\<close>: \<open>Extend\<close> with its four interleaved strides,
  and the masking of stored checksums.  \<open>HAVE_CRC32C\<close> is defined when the build finds the library crc32c: its
  function \<open>crc32c::Extend\<close> is the parameter \<open>lib\<close>, and \<open>None\<close> a build without it.

  A pointer is its address together with the bytes readable from it; \<open>None\<close> is a read behind the last
  readable byte.
\<close>

section \<open>Definitions\<close>

definition kMaskDelta :: u32 where
  "kMaskDelta = 0xA282EAD8"

definition Mask :: "u32 \<Rightarrow> u32" where
  "Mask crc = (drop_bit 15 crc OR push_bit 17 crc) + kMaskDelta"

definition Unmask :: "u32 \<Rightarrow> u32" where
  "Unmask masked_crc =
     (let rot = masked_crc - kMaskDelta in drop_bit 17 rot OR push_bit 15 rot)"

definition kCrc32Xor :: u32 where
  "kCrc32Xor = 0xFFFFFFFF"

definition ReadUint32LE :: "mem \<Rightarrow> u32" where
  "ReadUint32LE buffer = ucast (DecodeFixed32 buffer)"

text \<open>\<open>RoundUp<N>\<close>.\<close>

definition RoundUp :: "u64 \<Rightarrow> u64 \<Rightarrow> u64" where
  "RoundUp N pointer = (pointer + (N - 1)) AND NOT (N - 1)"

type_synonym crc_library = "(u32 \<Rightarrow> mem \<Rightarrow> u64 \<Rightarrow> u32) option"

definition AccelerateCrc32C :: "crc_library \<Rightarrow> u32 \<Rightarrow> mem \<Rightarrow> u64 \<Rightarrow> u32" where
  "AccelerateCrc32C lib crc data n = (case lib of Some extend \<Rightarrow> extend crc data n | None \<Rightarrow> 0)"

definition CanAccelerateCrc32C :: "crc_library \<Rightarrow> bool" where
  "CanAccelerateCrc32C lib \<longleftrightarrow> AccelerateCrc32C lib 0 (str ''TestCRCBuffer'' @ [0]) 13 = 0xDCBC59FA"

text \<open>\<open>STEP1\<close> on the byte \<open>b\<close>, \<open>STEP4\<close> on the word at \<open>p\<close>, \<open>STEP4W\<close> with its result \<open>l\<close>.\<close>

definition STEP1 :: "u32 \<Rightarrow> byte \<Rightarrow> u32" where
  "STEP1 l b =
     (let c = (l AND 0xFF) XOR ucast b in kByteExtensionTable ! unat c XOR drop_bit 8 l)"

definition STEP4 :: "mem \<Rightarrow> u32 \<Rightarrow> u32" where
  "STEP4 p crc =
     ReadUint32LE p XOR kStrideExtensionTable3 ! unat (crc AND 0xFF)
       XOR kStrideExtensionTable2 ! unat (drop_bit 8 crc AND 0xFF)
       XOR kStrideExtensionTable1 ! unat (drop_bit 16 crc AND 0xFF)
       XOR kStrideExtensionTable0 ! unat (drop_bit 24 crc)"

primrec STEP4W_loop :: "nat \<Rightarrow> u32 \<Rightarrow> u32" where
  "STEP4W_loop 0 w = w"
| "STEP4W_loop (Suc i) w =
     STEP4W_loop i (drop_bit 8 w XOR kByteExtensionTable ! unat (w AND 0xFF))"

definition STEP4W :: "u32 \<Rightarrow> u32 \<Rightarrow> u32" where
  "STEP4W l w = STEP4W_loop 4 (w XOR l)"

type_synonym strides = "u32 \<times> u32 \<times> u32 \<times> u32"

fun STEP16 :: "mem \<Rightarrow> strides \<Rightarrow> strides" where
  "STEP16 p (crc0, crc1, crc2, crc3) =
     (STEP4 p crc0, STEP4 (drop 4 p) crc1, STEP4 (drop 8 p) crc2, STEP4 (drop 12 p) crc3)"

text \<open>\<open>while (p != x) STEP1\<close>.\<close>

fun bytes_until :: "u64 \<Rightarrow> u64 \<Rightarrow> mem \<Rightarrow> u32 \<Rightarrow> (mem \<times> u32) option" where
  "bytes_until p x [] l = (if p = x then Some ([], l) else None)"
| "bytes_until p x (b # m) l =
     (if p = x then Some (b # m, l) else bytes_until (p + 1) x m (STEP1 l b))"

text \<open>\<open>while ((e - p) >= 16) STEP16\<close>: pointers are subtracted as signed numbers.\<close>

function swath_loop :: "u64 \<Rightarrow> u64 \<Rightarrow> mem \<Rightarrow> strides \<Rightarrow> (u64 \<times> mem \<times> strides) option" where
  "swath_loop e p m crc =
     (if sint (e - p) \<ge> 16 then
        if length m < 16 then None
        else swath_loop e (p + 16) (drop 16 m) (STEP16 m crc)
      else Some (p, m, crc))"
  by pat_completeness auto

termination
  by (relation "measure (\<lambda>(e, p, m, crc). length m)") auto

text \<open>\<open>while ((e - p) >= 4)\<close>: one word, and the strides change places.\<close>

function word_loop :: "u64 \<Rightarrow> u64 \<Rightarrow> mem \<Rightarrow> strides \<Rightarrow> (u64 \<times> mem \<times> strides) option" where
  "word_loop e p m (crc0, crc1, crc2, crc3) =
     (if sint (e - p) \<ge> 4 then
        if length m < 4 then None
        else word_loop e (p + 4) (drop 4 m) (crc1, crc2, crc3, STEP4 m crc0)
      else Some (p, m, (crc0, crc1, crc2, crc3)))"
  by pat_completeness auto

termination
  by (relation "measure (\<lambda>(e, p, m, crc). length m)") auto

declare swath_loop.simps [simp del] word_loop.simps [simp del]

fun combine_strides :: "strides \<Rightarrow> u32" where
  "combine_strides (crc0, crc1, crc2, crc3) =
     (let l = 0;
          l = STEP4W l crc0;
          l = STEP4W l crc1;
          l = STEP4W l crc2 in
      STEP4W l crc3)"

definition load_strides :: "mem \<Rightarrow> u32 \<Rightarrow> strides" where
  "load_strides m l =
     (ReadUint32LE m XOR l, ReadUint32LE (drop 4 m), ReadUint32LE (drop 8 m), ReadUint32LE (drop 12 m))"

text \<open>The block for at least 16 bytes.\<close>

definition Extend_strides :: "u64 \<Rightarrow> u64 \<Rightarrow> mem \<Rightarrow> u32 \<Rightarrow> (u64 \<times> mem \<times> u32) option" where
  "Extend_strides e p m l =
     (if sint (e - p) \<ge> 16 then
        if length m < 16 then None
        else do {
          (p, m, crc) \<leftarrow> swath_loop e (p + 16) (drop 16 m) (load_strides m l);
          (p, m, crc) \<leftarrow> word_loop e p m crc;
          Some (p, m, combine_strides crc)
        }
      else Some (p, m, l))"

definition Extend_align :: "u64 \<Rightarrow> u64 \<Rightarrow> mem \<Rightarrow> u32 \<Rightarrow> (u64 \<times> mem \<times> u32) option" where
  "Extend_align e p m l =
     (let x = RoundUp 4 p in
      if x \<le> e then do { (m, l) \<leftarrow> bytes_until p x m l; Some (x, m, l) }
      else Some (p, m, l))"

text \<open>\<open>Extend(init_crc, data, n)\<close> for bytes \<open>data\<close> at the address \<open>addr\<close>.\<close>

definition Extend :: "crc_library \<Rightarrow> u64 \<Rightarrow> u32 \<Rightarrow> mem \<Rightarrow> u64 \<Rightarrow> u32 option" where
  "Extend lib addr init_crc data n =
     (if CanAccelerateCrc32C lib then Some (AccelerateCrc32C lib init_crc data n)
      else
        let p = addr;
            e = p + n;
            l = init_crc XOR kCrc32Xor in
        do {
          (p, m, l) \<leftarrow> Extend_align e p data l;
          (p, m, l) \<leftarrow> Extend_strides e p m l;
          (m, l) \<leftarrow> bytes_until p e m l;
          Some (l XOR kCrc32Xor)
        })"

definition crc32c_Value :: "crc_library \<Rightarrow> u64 \<Rightarrow> mem \<Rightarrow> u64 \<Rightarrow> u32 option" where
  "crc32c_Value lib addr data n = Extend lib addr 0 data n"

section \<open>The specification: one bit at a time\<close>

definition crc_byte :: "u32 \<Rightarrow> byte \<Rightarrow> u32" where
  "crc_byte l b = crc_steps 8 (l XOR ucast b)"

definition crc_bytes :: "u32 \<Rightarrow> bytes \<Rightarrow> u32" where
  "crc_bytes l bs = foldl crc_byte l bs"

definition crc32c :: "u32 \<Rightarrow> bytes \<Rightarrow> u32" where
  "crc32c init bs = crc_bytes (init XOR 0xFFFFFFFF) bs XOR 0xFFFFFFFF"

section \<open>The steps of the code on the shift register\<close>

lemma and_0xFF: "w AND 0xFF = take_bit 8 w"
  for w :: u32
  by (simp add: take_bit_eq_mask mask_eq_exp_minus_1)

lemma take_bit_8_small: "unat (take_bit 8 w) < 256"
  for w :: u32
  using take_bit_nat_less_exp [of 8 "unat w"] by (simp add: unsigned_take_bit_eq del: take_bit_nat_less_exp)

lemma crc_steps_8_shifted: "take_bit 24 w = w \<Longrightarrow> crc_steps 8 (x XOR push_bit 8 w) = crc_steps 8 x XOR w"
proof -
  assume w: "take_bit 24 w = w"
  have "crc_steps 8 (push_bit 8 w) = drop_bit 8 (push_bit 8 w)"
    by (rule crc_steps_high) (simp add: bit_eq_iff bit_simps)
  also have "\<dots> = take_bit 24 w"
    by (rule bit_word_eqI) (auto simp: bit_simps)
  finally show ?thesis using w by (simp add: crc_steps_xor)
qed

text \<open>A step by table lookup is eight steps of the register.\<close>

lemma byte_table_step: "kByteExtensionTable ! unat (w AND 0xFF) XOR drop_bit 8 w = crc_steps 8 w"
proof -
  have "w = take_bit 8 w XOR push_bit 8 (drop_bit 8 w)"
    by (rule bit_word_eqI) (auto simp: bit_simps)
  moreover have "take_bit 24 (drop_bit 8 w) = drop_bit 8 w"
    by (rule bit_word_eqI) (auto simp: bit_simps dest: bit_imp_le_length)
  ultimately have "crc_steps 8 w = crc_steps 8 (take_bit 8 w) XOR drop_bit 8 w"
    by (metis crc_steps_8_shifted)
  then show ?thesis by (simp add: and_0xFF extension_table_nth take_bit_8_small)
qed

lemma STEP1_crc: "STEP1 l b = crc_byte l b"
proof -
  have "(l AND 0xFF) XOR ucast b = (l XOR ucast b) AND 0xFF"
    unfolding and_0xFF by (rule bit_word_eqI) (auto simp: bit_simps)
  moreover have "drop_bit 8 l = drop_bit 8 (l XOR ucast b)"
    by (rule bit_word_eqI) (auto simp: bit_simps)
  ultimately show ?thesis
    using byte_table_step [of "l XOR ucast b"] by (simp add: STEP1_def crc_byte_def)
qed

lemma STEP4W_loop_crc: "STEP4W_loop i w = crc_steps (8 * i) w"
proof (induction i arbitrary: w)
  case (Suc i)
  have "STEP4W_loop (Suc i) w = crc_steps (8 * i) (crc_steps 8 w)"
    using Suc byte_table_step [of w] by (simp add: xor.commute)
  then show ?case using crc_steps_add [of "8 * i" 8 w] by (simp add: add.commute)
qed simp

lemma STEP4W_crc: "STEP4W l w = crc_steps 32 (l XOR w)"
  by (simp add: STEP4W_def STEP4W_loop_crc xor.commute)

lemma STEP4_crc: "STEP4 p crc = ReadUint32LE p XOR crc_steps 128 crc"
proof -
  let ?b = "\<lambda>n. take_bit 8 (drop_bit n crc)"
  have "crc = ?b 0 XOR push_bit 8 (?b 8) XOR push_bit 16 (?b 16) XOR push_bit 24 (?b 24)"
  proof (rule bit_word_eqI)
    fix n :: nat
    assume "n < LENGTH(32)"
    then have "n < 32" by simp
    then show "bit crc n = bit (?b 0 XOR push_bit 8 (?b 8) XOR push_bit 16 (?b 16) XOR push_bit 24 (?b 24)) n"
      using byte_lanes32 [of n] by (auto simp: bit_simps)
  qed
  then have "crc_steps 128 crc = crc_steps 128 (?b 0) XOR crc_steps 128 (push_bit 8 (?b 8))
      XOR crc_steps 128 (push_bit 16 (?b 16)) XOR crc_steps 128 (push_bit 24 (?b 24))"
    by (metis crc_steps_xor)
  moreover have "drop_bit 24 crc = ?b 24"
    by (rule bit_word_eqI) (auto simp: bit_simps dest: bit_imp_le_length)
  moreover have "unat (drop_bit 24 crc) < 256"
    using take_bit_8_small [of "drop_bit 24 crc"] calculation(2) by simp
  ultimately show ?thesis
    by (simp add: STEP4_def and_0xFF extension_table_nth take_bit_8_small xor.assoc)
qed

section \<open>Words of four bytes\<close>

lemma crc_bytes_Nil [simp]: "crc_bytes l [] = l"
  and crc_bytes_Cons [simp]: "crc_bytes l (b # bs) = crc_bytes (crc_byte l b) bs"
  and crc_bytes_append: "crc_bytes l (as @ bs) = crc_bytes (crc_bytes l as) bs"
  by (simp_all add: crc_bytes_def)

lemma crc_steps_byte_word:
  "take_bit 24 w = w \<Longrightarrow> crc_steps (n + 8) (l XOR (ucast b XOR push_bit 8 w)) = crc_steps n (crc_byte l b XOR w)"
  using crc_steps_8_shifted [of w "l XOR ucast b"]
  by (simp add: crc_steps_add crc_byte_def xor.assoc)

lemma ReadUint32LE_bytes:
  "ReadUint32LE (b0 # b1 # b2 # b3 # r) =
     ucast b0 XOR push_bit 8 (ucast b1 XOR push_bit 8 (ucast b2 XOR push_bit 8 (ucast b3)))"
  (is "?l = ?r")
proof (rule bit_word_eqI)
  fix n :: nat
  assume "n < LENGTH(32)"
  then have "n < 32" by simp
  from byte_lanes32 [OF this] show "bit ?l n = bit ?r n"
    unfolding ReadUint32LE_def DecodeFixed32_def
    by (elim disjE) (auto simp: bit_simps less_diff_conv2 dest: bit_imp_le_length)
qed

lemma crc_bytes_word: "crc_bytes l [b0, b1, b2, b3] = crc_steps 32 (l XOR ReadUint32LE (b0 # b1 # b2 # b3 # r))"
proof -
  have small: "take_bit 24 (ucast b) = (ucast b :: u32)" for b :: byte
    by (rule bit_word_eqI) (auto simp: bit_simps dest: bit_imp_le_length)
  have small2: "take_bit 24 (ucast b XOR push_bit 8 (ucast c)) = (ucast b XOR push_bit 8 (ucast c) :: u32)" for b c :: byte
    by (rule bit_word_eqI) (auto simp: bit_simps dest: bit_imp_le_length)
  have small3: "take_bit 24 (ucast b XOR push_bit 8 (ucast c XOR push_bit 8 (ucast d)))
      = (ucast b XOR push_bit 8 (ucast c XOR push_bit 8 (ucast d)) :: u32)" for b c d :: byte
    by (rule bit_word_eqI) (auto simp: bit_simps dest: bit_imp_le_length)
  have "crc_steps 32 (l XOR ReadUint32LE (b0 # b1 # b2 # b3 # r))
      = crc_steps 24 (crc_byte l b0 XOR (ucast b1 XOR push_bit 8 (ucast b2 XOR push_bit 8 (ucast b3))))"
    using crc_steps_byte_word [OF small3, of 24 l b0 b1 b2 b3] by (simp add: ReadUint32LE_bytes)
  also have "\<dots> = crc_steps 16 (crc_byte (crc_byte l b0) b1 XOR (ucast b2 XOR push_bit 8 (ucast b3)))"
    using crc_steps_byte_word [OF small2, of 16 "crc_byte l b0" b1 b2 b3] by simp
  also have "\<dots> = crc_steps 8 (crc_byte (crc_byte (crc_byte l b0) b1) b2 XOR ucast b3)"
    using crc_steps_byte_word [OF small, of 8 "crc_byte (crc_byte l b0) b1" b2 b3] by simp
  finally show ?thesis by (simp add: crc_byte_def)
qed

lemma crc_bytes_take4:
  assumes "4 \<le> length m"
  shows "crc_bytes l (take 4 m) = crc_steps 32 (l XOR ReadUint32LE m)"
proof -
  obtain b0 b1 b2 b3 r where "m = b0 # b1 # b2 # b3 # r"
    using assms by (auto simp: numeral_eq_Suc Suc_le_length_iff)
  then show ?thesis using crc_bytes_word [of l b0 b1 b2 b3 r] by simp
qed

section \<open>The four strides\<close>

lemma combine_strides_crc:
  "combine_strides (c0, c1, c2, c3) =
     crc_steps 128 c0 XOR crc_steps 96 c1 XOR crc_steps 64 c2 XOR crc_steps 32 c3"
  using crc_steps_add [of 32 96 c0] crc_steps_add [of 32 64 c0] crc_steps_add [of 32 32 c0]
    crc_steps_add [of 32 64 c1] crc_steps_add [of 32 32 c1] crc_steps_add [of 32 32 c2]
  by (simp add: STEP4W_crc crc_steps_xor xor.assoc)

text \<open>The next word enters the oldest stride; the strides then combine to the register that has read
  the word.\<close>

lemma combine_next_word:
  assumes "4 \<le> length m"
  shows "combine_strides (c1, c2, c3, STEP4 m c0) = crc_bytes (combine_strides (c0, c1, c2, c3)) (take 4 m)"
  using crc_steps_add [of 32 128 c0] crc_steps_add [of 32 96 c1] crc_steps_add [of 32 64 c2]
    crc_steps_add [of 32 32 c3]
  by (simp add: crc_bytes_take4 [OF assms] combine_strides_crc STEP4_crc crc_steps_xor ac_simps
      del: combine_strides.simps)

lemma crc_bytes_take_add: "crc_bytes (crc_bytes l (take i m)) (take j (drop i m)) = crc_bytes l (take (i + j) m)"
  by (simp add: take_add crc_bytes_append)

lemma combine_STEP16:
  assumes "16 \<le> length m"
  shows "combine_strides (STEP16 m crc) = crc_bytes (combine_strides crc) (take 16 m)"
proof -
  obtain c0 c1 c2 c3 where crc: "crc = (c0, c1, c2, c3)" by (cases crc) auto
  have "combine_strides (STEP16 m crc) = crc_bytes (crc_bytes (crc_bytes (crc_bytes
      (combine_strides crc) (take 4 m)) (take 4 (drop 4 m))) (take 4 (drop 8 m))) (take 4 (drop 12 m))"
    using assms combine_next_word [of m c1 c2 c3 c0] combine_next_word [of "drop 4 m" c2 c3 _ c1]
      combine_next_word [of "drop 8 m" c3 _ _ c2] combine_next_word [of "drop 12 m" _ _ _ c3]
    by (simp add: crc del: combine_strides.simps)
  then show ?thesis
    using crc_bytes_take_add [of _ 4 m 4] crc_bytes_take_add [of _ 8 m 4] crc_bytes_take_add [of _ 12 m 4]
    by simp
qed

lemma combine_load:
  assumes "16 \<le> length m"
  shows "combine_strides (load_strides m l) = crc_bytes l (take 16 m)"
proof -
  have "combine_strides (load_strides m l) =
      crc_steps 32 (crc_steps 32 (crc_steps 32 (crc_steps 32 (l XOR ReadUint32LE m)
        XOR ReadUint32LE (drop 4 m)) XOR ReadUint32LE (drop 8 m)) XOR ReadUint32LE (drop 12 m))"
    by (simp add: load_strides_def STEP4W_crc xor.commute)
  also have "\<dots> = crc_bytes (crc_bytes (crc_bytes (crc_bytes l (take 4 m)) (take 4 (drop 4 m)))
      (take 4 (drop 8 m))) (take 4 (drop 12 m))"
    using assms by (simp add: crc_bytes_take4)
  finally show ?thesis
    using crc_bytes_take_add [of _ 4 m 4] crc_bytes_take_add [of _ 8 m 4] crc_bytes_take_add [of _ 12 m 4]
    by simp
qed

section \<open>The loops\<close>

text \<open>\<open>k\<close> bytes are left between \<open>p\<close> and \<open>e\<close>.\<close>

definition left :: "u64 \<Rightarrow> u64 \<Rightarrow> nat \<Rightarrow> mem \<Rightarrow> bool" where
  "left e p k m \<longleftrightarrow> e = p + of_nat k \<and> k \<le> length m \<and> k < 2 ^ 63"

lemma left_sint: "left e p k m \<Longrightarrow> sint (e - p) = int k"
  by (auto simp: left_def signed_of_nat intro: signed_take_bit_int_eq_self)

lemma left_drop: "left e p k m \<Longrightarrow> i \<le> k \<Longrightarrow> left e (p + of_nat i) (k - i) (drop i m)"
  by (auto simp: left_def)

lemma left_word: "left e p k m \<Longrightarrow> numeral i \<le> k \<Longrightarrow> left e (p + numeral i) (k - numeral i) (drop (numeral i) m)"
  using left_drop [of e p k m "numeral i"] by simp

lemma bytes_until_left:
  assumes "left e p k m"
  shows "bytes_until p e m l = Some (drop k m, crc_bytes l (take k m))"
  using assms
proof (induction p e m l arbitrary: k rule: bytes_until.induct)
  case (1 p x l)
  then show ?case by (simp add: left_def)
next
  case (2 p x b m l)
  show ?case
  proof (cases k)
    case 0
    with 2 show ?thesis by (simp add: left_def)
  next
    case (Suc j)
    have "p \<noteq> x" using left_sint [OF "2.prems"] Suc by auto
    moreover have "left x (p + 1) j m" using left_drop [OF "2.prems", of 1] Suc by simp
    ultimately show ?thesis using "2.IH" Suc by (simp add: STEP1_crc)
  qed
qed

lemma swath_loop_left:
  assumes "left e p k m"
  shows "\<exists>p' crc'. swath_loop e p m crc = Some (p', drop (k - k mod 16) m, crc')
    \<and> left e p' (k mod 16) (drop (k - k mod 16) m)
    \<and> combine_strides crc' = crc_bytes (combine_strides crc) (take (k - k mod 16) m)"
  using assms
proof (induction e p m crc arbitrary: k rule: swath_loop.induct)
  case (1 e p m crc)
  note sint = left_sint [OF "1.prems"]
  show ?case
  proof (cases "16 \<le> k")
    case True
    have len: "16 \<le> length m" using True "1.prems" by (simp add: left_def)
    have k: "(k - 16) mod 16 = k mod 16" using True by (simp add: le_mod_geq)
    obtain p' crc' where "swath_loop e (p + 16) (drop 16 m) (STEP16 m crc) =
        Some (p', drop (k - 16 - k mod 16) (drop 16 m), crc')"
      "left e p' (k mod 16) (drop (k - 16 - k mod 16) (drop 16 m))"
      "combine_strides crc' = crc_bytes (combine_strides (STEP16 m crc)) (take (k - 16 - k mod 16) (drop 16 m))"
      using "1.IH" [OF _ _ left_word [OF "1.prems" True]] True len sint unfolding k by auto
    moreover have "k - 16 - k mod 16 + 16 = k - k mod 16"
      using True k mod_less_eq_dividend [of "k - 16" 16] by linarith
    ultimately show ?thesis
      using sint len True crc_bytes_take_add [of "combine_strides crc" 16 m "k - 16 - k mod 16"]
      by (subst swath_loop.simps) (simp add: combine_STEP16 add.commute)
  next
    case False
    then show ?thesis using sint "1.prems" by (subst swath_loop.simps) simp
  qed
qed

lemma word_loop_left:
  assumes "left e p k m"
  shows "\<exists>p' crc'. word_loop e p m crc = Some (p', drop (k - k mod 4) m, crc')
    \<and> left e p' (k mod 4) (drop (k - k mod 4) m)
    \<and> combine_strides crc' = crc_bytes (combine_strides crc) (take (k - k mod 4) m)"
  using assms
proof (induction e p m crc arbitrary: k rule: word_loop.induct)
  case (1 e p m c0 c1 c2 c3)
  note sint = left_sint [OF "1.prems"]
  show ?case
  proof (cases "4 \<le> k")
    case True
    have len: "4 \<le> length m" using True "1.prems" by (simp add: left_def)
    have k: "(k - 4) mod 4 = k mod 4" using True by (simp add: le_mod_geq)
    obtain p' crc' where "word_loop e (p + 4) (drop 4 m) (c1, c2, c3, STEP4 m c0) =
        Some (p', drop (k - 4 - k mod 4) (drop 4 m), crc')"
      "left e p' (k mod 4) (drop (k - 4 - k mod 4) (drop 4 m))"
      "combine_strides crc' = crc_bytes (combine_strides (c1, c2, c3, STEP4 m c0)) (take (k - 4 - k mod 4) (drop 4 m))"
      using "1.IH" [OF _ _ left_word [OF "1.prems" True]] True len sint unfolding k by auto
    moreover have "k - 4 - k mod 4 + 4 = k - k mod 4"
      using True k mod_less_eq_dividend [of "k - 4" 4] by linarith
    ultimately show ?thesis
      using sint len True crc_bytes_take_add [of "combine_strides (c0, c1, c2, c3)" 4 m "k - 4 - k mod 4"]
      by (subst word_loop.simps) (simp add: combine_next_word add.commute del: combine_strides.simps)
  next
    case False
    then show ?thesis using sint "1.prems" by (subst word_loop.simps) simp
  qed
qed

lemma Extend_strides_left:
  assumes "left e p k m"
  shows "\<exists>j p'. j \<le> k \<and> Extend_strides e p m l = Some (p', drop j m, crc_bytes l (take j m))
    \<and> left e p' (k - j) (drop j m)"
proof (cases "16 \<le> k")
  case True
  have len: "16 \<le> length m" using True assms by (simp add: left_def)
  let ?m = "drop 16 m"
  define r where "r = (k - 16) mod 16"
  define q where "q = r mod 4"
  have bounds: "r \<le> k - 16" "q \<le> r" by (simp_all add: r_def q_def)
  let ?i = "k - 16 - r" and ?j = "r - q"
  obtain p1 crc1 where 1: "swath_loop e (p + 16) ?m (load_strides m l) = Some (p1, drop ?i ?m, crc1)"
      "left e p1 r (drop ?i ?m)"
      "combine_strides crc1 = crc_bytes (combine_strides (load_strides m l)) (take ?i ?m)"
    using swath_loop_left [OF left_word [OF assms True]] unfolding r_def by blast
  obtain p2 crc2 where 2: "word_loop e p1 (drop ?i ?m) crc1 = Some (p2, drop ?j (drop ?i ?m), crc2)"
      "left e p2 q (drop ?j (drop ?i ?m))"
      "combine_strides crc2 = crc_bytes (combine_strides crc1) (take ?j (drop ?i ?m))"
    using word_loop_left [OF 1(2)] unfolding q_def by blast
  have "combine_strides crc2 = crc_bytes l (take (16 + ?i + ?j) m)"
    using 1(3) 2(3) combine_load [OF len, of l] crc_bytes_take_add [of l 16 m ?i]
      crc_bytes_take_add [of l "16 + ?i" m ?j] by (simp add: add.commute)
  moreover have d: "drop ?j (drop ?i ?m) = drop (16 + ?i + ?j) m" by (simp add: add.commute)
  moreover have "Extend_strides e p m l = Some (p2, drop ?j (drop ?i ?m), combine_strides crc2)"
    using True len 1(1) 2(1) left_sint [OF assms] unfolding Extend_strides_def
    by (simp del: drop_drop combine_strides.simps)
  ultimately have "Extend_strides e p m l = Some (p2, drop (16 + ?i + ?j) m, crc_bytes l (take (16 + ?i + ?j) m))"
    by (simp only:)
  moreover have "16 + ?i + ?j \<le> k" and rest: "k - (16 + ?i + ?j) = q"
    using True bounds by linarith+
  moreover have "left e p2 (k - (16 + ?i + ?j)) (drop (16 + ?i + ?j) m)"
    using 2(2) unfolding rest d .
  ultimately show ?thesis by blast
next
  case False
  then show ?thesis
    using assms left_sint [OF assms]
    by (intro exI [of _ 0] exI [of _ p]) (simp add: Extend_strides_def)
qed

lemma RoundUp_4: obtains d where "d < 4" and "RoundUp 4 p = p + of_nat d"
proof
  let ?r = "take_bit 2 (p + 3)"
  have "(p + 3) AND NOT 3 = (p + 3) AND NOT (mask 2)" by (simp add: mask_eq_exp_minus_1)
  also have "\<dots> = (p + 3) - ?r"
    by (subst disjunctive_diff) (simp add: bit_simps, rule bit_word_eqI, auto simp: bit_simps)
  finally have r: "RoundUp 4 p = (p + 3) - ?r" by (simp add: RoundUp_def)
  have "unat ?r < 4"
    using take_bit_nat_less_exp [of 2 "unat (p + 3)"] by (simp add: unsigned_take_bit_eq del: take_bit_nat_less_exp)
  then have "of_nat (3 - unat ?r) = 3 - ?r" by (simp add: of_nat_diff)
  with r show "RoundUp 4 p = p + of_nat (3 - unat ?r)" by simp
  show "3 - unat ?r < 4" by simp
qed

lemma Extend_align_left:
  assumes "left e p k m" and "unat p + k < 2 ^ 63"
  shows "\<exists>j p'. j \<le> k \<and> Extend_align e p m l = Some (p', drop j m, crc_bytes l (take j m))
    \<and> left e p' (k - j) (drop j m)"
proof -
  obtain d where d: "d < 4" "RoundUp 4 p = p + of_nat d" by (rule RoundUp_4)
  have e: "e = p + of_nat k" using assms(1) by (simp add: left_def)
  have "unat (p + of_nat n) = unat p + n" if "unat p + n < 2 ^ 64" for n
    using that by (simp add: unat_word_ariths unat_of_nat)
  then have "RoundUp 4 p \<le> e \<longleftrightarrow> d \<le> k"
    using d assms(2) e by (simp add: word_le_nat_alt)
  moreover have "left (RoundUp 4 p) p d m" if "d \<le> k"
    using that d assms(1) by (auto simp: left_def)
  moreover have "left e (RoundUp 4 p) (k - d) (drop d m)" if "d \<le> k"
    using left_drop [OF assms(1) that] d(2) by simp
  ultimately show ?thesis
    using assms(1) bytes_until_left [of "RoundUp 4 p" p d m l]
    by (cases "d \<le> k") (auto simp: Extend_align_def Let_def intro: exI [of _ d] exI [of _ 0])
qed

lemma not_accelerated: "\<not> CanAccelerateCrc32C None"
  by (simp add: CanAccelerateCrc32C_def AccelerateCrc32C_def)

lemma accelerated:
  assumes "CanAccelerateCrc32C lib"
  shows "\<exists>extend. lib = Some extend \<and> Extend lib addr init_crc data n = Some (extend init_crc data n)"
  using assms not_accelerated by (cases lib) (simp_all add: Extend_def AccelerateCrc32C_def)

lemma Extend_crc32c:
  assumes "unat addr + length data < 2 ^ 63" and "\<not> CanAccelerateCrc32C lib"
  shows "Extend lib addr init_crc (data @ r) (of_nat (length data)) = Some (crc32c init_crc data)"
proof -
  let ?k = "length data" and ?e = "addr + of_nat (length data)" and ?l = "init_crc XOR kCrc32Xor"
  have 0: "left ?e addr ?k (data @ r)" using assms by (simp add: left_def)
  obtain j p where 1: "j \<le> ?k" "Extend_align ?e addr (data @ r) ?l = Some (p, drop j (data @ r), crc_bytes ?l (take j (data @ r)))"
      "left ?e p (?k - j) (drop j (data @ r))"
    using Extend_align_left [OF 0 assms(1), of ?l] by blast
  obtain i q where 2: "i \<le> ?k - j" "Extend_strides ?e p (drop j (data @ r)) (crc_bytes ?l (take j (data @ r)))
      = Some (q, drop i (drop j (data @ r)), crc_bytes (crc_bytes ?l (take j (data @ r))) (take i (drop j (data @ r))))"
      "left ?e q (?k - j - i) (drop i (drop j (data @ r)))"
    using Extend_strides_left [OF 1(3), of "crc_bytes ?l (take j (data @ r))"] by blast
  have 3: "j + (i + (?k - j - i)) = ?k" using 1(1) 2(1) by simp
  have "take i (drop j (data @ r)) @ take (?k - j - i) (drop i (drop j (data @ r))) = take (i + (?k - j - i)) (drop j (data @ r))"
    by (simp only: take_add)
  then have "crc_bytes (crc_bytes (crc_bytes ?l (take j (data @ r))) (take i (drop j (data @ r))))
      (take (?k - j - i) (drop i (drop j (data @ r)))) = crc_bytes ?l data"
    using crc_bytes_take_add [of ?l j "data @ r" "i + (?k - j - i)"] 3
    by (simp add: crc_bytes_append [symmetric])
  with 1(2) 2(2) bytes_until_left [OF 2(3)] show ?thesis
    by (simp add: Extend_def assms(2) crc32c_def kCrc32Xor_def Let_def)
qed

section \<open>Properties\<close>

text \<open>C35. \<open>Extend\<close>, with its alignment prologue, four interleaved strides and five tables of 256
  entries, computes the CRC-32C of its bytes one bit at a time (\<open>crc32c\<close>), at whatever address the data
  lies and without reading a byte behind them, and it extends: after \<open>Value\<close> of one string, \<open>Extend\<close> by
  another gives the value of the concatenation.  Addresses are below \<open>2 ^ 63\<close>, as those of every object
  of the platform.  This is the path of a build without the library crc32c, and of one with a library that
  fails the self-test; with a library that passes it the result is that of the library.\<close>

theorem extend_computes_crc32c:
  fixes as bs :: bytes
  assumes "unat addr + length as < 2 ^ 63" and "unat addr' + length bs < 2 ^ 63"
  shows "\<not> CanAccelerateCrc32C None
    \<and> (\<not> CanAccelerateCrc32C lib \<longrightarrow>
         Extend lib addr init_crc as (of_nat (length as)) = Some (crc32c init_crc as)
         \<and> crc32c_Value lib addr as (of_nat (length as)) = Some (crc32c 0 as)
         \<and> Extend lib addr' (crc32c 0 as) bs (of_nat (length bs)) = Some (crc32c 0 (as @ bs)))
    \<and> (CanAccelerateCrc32C lib \<longrightarrow>
         (\<exists>extend. lib = Some extend
            \<and> Extend lib addr init_crc as (of_nat (length as)) = Some (extend init_crc as (of_nat (length as)))))"
proof -
  have "crc32c (crc32c 0 as) bs = crc32c 0 (as @ bs)"
    by (simp add: crc32c_def crc_bytes_append xor.assoc)
  then show ?thesis
    using not_accelerated accelerated [of lib addr init_crc as "of_nat (length as)"]
      Extend_crc32c [OF assms(1), where r = "[]"] Extend_crc32c [OF assms(2), where r = "[]"]
    by (simp add: crc32c_Value_def)
qed

theorem extend_computes_crc32c_witness:
  "Extend None 7 0 (str ''hello world'') 11 = Some (crc32c 0 (str ''hello world''))
    \<and> Extend None 9 (crc32c 0 (str ''hello '')) (str ''world'') 5 = Some (crc32c 0 (str ''hello world''))"
proof -
  note none = not_accelerated
  have "Extend None 7 0 (str ''hello world'') 11 = Some (crc32c 0 (str ''hello world''))"
    using extend_computes_crc32c [of 7 "str ''hello world''" 9 "[]" None 0] none by (simp add: str_def)
  moreover have "Extend None 9 (crc32c 0 (str ''hello '')) (str ''world'') 5 = Some (crc32c 0 (str ''hello world''))"
    using extend_computes_crc32c [of 7 "str ''hello ''" 9 "str ''world''" None 0] none by (simp add: str_def)
  ultimately show ?thesis by blast
qed

text \<open>\<open>Mask\<close> and \<open>Unmask\<close> are inverse to each other, in both orders.\<close>

theorem mask_bijection: "Unmask (Mask crc) = crc \<and> Mask (Unmask crc) = crc"
proof
  show "Unmask (Mask crc) = crc"
    unfolding Mask_def Unmask_def Let_def add_diff_cancel_right'
  proof (rule bit_word_eqI)
    fix n :: nat
    assume "n < LENGTH(32)"
    then show "bit (drop_bit 17 (drop_bit 15 crc OR push_bit 17 crc) OR push_bit 15 (drop_bit 15 crc OR push_bit 17 crc)) n = bit crc n"
      by (cases "n < 15") (auto simp: bit_simps dest: bit_imp_le_length)
  qed
  have "drop_bit 15 (drop_bit 17 w OR push_bit 15 w) OR push_bit 17 (drop_bit 17 w OR push_bit 15 w) = w" for w :: u32
  proof (rule bit_word_eqI)
    fix n :: nat
    assume "n < LENGTH(32)"
    then show "bit (drop_bit 15 (drop_bit 17 w OR push_bit 15 w) OR push_bit 17 (drop_bit 17 w OR push_bit 15 w)) n = bit w n"
      by (cases "n < 17") (auto simp: bit_simps dest: bit_imp_le_length)
  qed
  then show "Mask (Unmask crc) = crc"
    by (simp add: Mask_def Unmask_def Let_def)
qed

end
