(* ===== verification/Handle_Table.thy ===== *)
theory Handle_Table
  imports Slice "HOL-Library.Monad_Syntax"
begin

text \<open>
  The entries of the cache and their hash table (\<open>LRUHandle\<close> and \<open>HandleTable\<close> of
  \<open>cache/cache.cpp\<close>): chains of handles through \<open>next_hash\<close>, one for each of a power of two of
  buckets.

  Handles live at addresses of an explicit memory; a freed handle is absent.  \<open>None\<close> is the failure of
  an assertion, an access to memory that is not there, or a loop that does not end.  A key is the byte
  string of its slice.  The pointer to a pointer that \<open>FindPointer\<close> returns is a \<open>slot\<close>: a bucket, or
  the field \<open>next_hash\<close> of a handle.
\<close>

section \<open>Definitions\<close>

type_synonym addr = nat

text \<open>The value and the deleter are opaque to the cache and stand for a pointer and a function.\<close>

record LRUHandle =
  h_value :: nat
  h_deleter :: nat
  h_next_hash :: "addr option"
  h_next :: "addr option"
  h_prev :: "addr option"
  h_charge :: u64
  h_in_cache :: bool
  h_refs :: u32
  h_hash :: u32
  h_key :: bytes

type_synonym hmem = "addr \<Rightarrow> LRUHandle option"

text \<open>The default constructor leaves the other fields without a value; they are not read.\<close>

definition LRUHandle_default :: LRUHandle where
  "LRUHandle_default = \<lparr>h_value = 0, h_deleter = 0, h_next_hash = None, h_next = None, h_prev = None,
     h_charge = 0, h_in_cache = False, h_refs = 0, h_hash = 0, h_key = []\<rparr>"

definition LRUHandle_new :: "nat \<Rightarrow> nat \<Rightarrow> u64 \<Rightarrow> bytes \<Rightarrow> u32 \<Rightarrow> LRUHandle" where
  "LRUHandle_new v del c key h = \<lparr>h_value = v, h_deleter = del, h_next_hash = None, h_next = None,
     h_prev = None, h_charge = c, h_in_cache = False, h_refs = 1, h_hash = h, h_key = key\<rparr>"

definition LRUHandle_key :: "hmem \<Rightarrow> addr \<Rightarrow> bytes option" where
  "LRUHandle_key m a =
     (case m a of None \<Rightarrow> None | Some e \<Rightarrow> if h_next e = Some a then None else Some (h_key e))"

record HandleTable =
  t_length :: u32
  t_elems :: u32
  t_list :: "addr option list"

datatype slot = Bucket nat | NextHash addr

fun read_slot :: "hmem \<Rightarrow> HandleTable \<Rightarrow> slot \<Rightarrow> addr option option" where
  "read_slot m t (Bucket i) = (if i < length (t_list t) then Some (t_list t ! i) else None)"
| "read_slot m t (NextHash a) = map_option h_next_hash (m a)"

definition set_next_hash :: "hmem \<Rightarrow> addr \<Rightarrow> addr option \<Rightarrow> hmem option" where
  "set_next_hash m a v = map_option (\<lambda>e. m(a \<mapsto> e\<lparr>h_next_hash := v\<rparr>)) (m a)"

fun write_slot :: "hmem \<Rightarrow> HandleTable \<Rightarrow> slot \<Rightarrow> addr option \<Rightarrow> (hmem \<times> HandleTable) option" where
  "write_slot m t (Bucket i) v =
     (if i < length (t_list t) then Some (m, t\<lparr>t_list := (t_list t)[i := v]\<rparr>) else None)"
| "write_slot m t (NextHash a) v = map_option (\<lambda>m. (m, t)) (set_next_hash m a v)"

partial_function (option) FindPointer_loop ::
  "hmem \<Rightarrow> HandleTable \<Rightarrow> bytes \<Rightarrow> u32 \<Rightarrow> slot \<Rightarrow> slot option" where
  "FindPointer_loop m t key hash ptr =
     do {
       p \<leftarrow> read_slot m t ptr;
       (case p of
          None \<Rightarrow> Some ptr
        | Some a \<Rightarrow>
            do {
              e \<leftarrow> m a;
              if h_hash e \<noteq> hash then FindPointer_loop m t key hash (NextHash a)
              else
                do {
                  k \<leftarrow> LRUHandle_key m a;
                  if key \<noteq> k then FindPointer_loop m t key hash (NextHash a) else Some ptr
                }
            })
     }"

definition bucket_index :: "u32 \<Rightarrow> u32 \<Rightarrow> nat" where
  "bucket_index hash len = unat (hash AND (len - 1))"

definition FindPointer :: "hmem \<Rightarrow> HandleTable \<Rightarrow> bytes \<Rightarrow> u32 \<Rightarrow> slot option" where
  "FindPointer m t key hash = FindPointer_loop m t key hash (Bucket (bucket_index hash (t_length t)))"

text \<open>\<open>Resize\<close>: the search for the new length, the loop over one chain, the loop over the buckets.\<close>

partial_function (option) grow_length :: "u32 \<Rightarrow> u32 \<Rightarrow> u32 option" where
  "grow_length elems new_length =
     (if new_length < elems then grow_length elems (new_length * 2) else Some new_length)"

partial_function (option) rehash_chain ::
  "hmem \<Rightarrow> u32 \<Rightarrow> addr option list \<Rightarrow> addr option \<Rightarrow> u32 \<Rightarrow> (hmem \<times> addr option list \<times> u32) option" where
  "rehash_chain m new_length new_list h count =
     (case h of
        None \<Rightarrow> Some (m, new_list, count)
      | Some a \<Rightarrow>
          do {
            e \<leftarrow> m a;
            let i = bucket_index (h_hash e) new_length in
            if i < length new_list then
              do {
                m \<leftarrow> set_next_hash m a (new_list ! i);
                rehash_chain m new_length (new_list[i := Some a]) (h_next_hash e) (count + 1)
              }
            else None
          })"

fun rehash_buckets ::
  "hmem \<Rightarrow> u32 \<Rightarrow> addr option list \<Rightarrow> addr option list \<Rightarrow> u32 \<Rightarrow> (hmem \<times> addr option list \<times> u32) option" where
  "rehash_buckets m new_length new_list [] count = Some (m, new_list, count)"
| "rehash_buckets m new_length new_list (h # hs) count =
     do {
       (m, new_list, count) \<leftarrow> rehash_chain m new_length new_list h count;
       rehash_buckets m new_length new_list hs count
     }"

definition Resize :: "hmem \<Rightarrow> HandleTable \<Rightarrow> (hmem \<times> HandleTable) option" where
  "Resize m t =
     do {
       new_length \<leftarrow> grow_length (t_elems t) 4;
       (m, new_list, count) \<leftarrow>
         rehash_buckets m new_length (replicate (unat new_length) None)
           (take (unat (t_length t)) (t_list t)) 0;
       if t_elems t = count
       then Some (m, t\<lparr>t_list := new_list, t_length := new_length\<rparr>)
       else None
     }"

definition HandleTable_new :: "hmem \<Rightarrow> (hmem \<times> HandleTable) option" where
  "HandleTable_new m = Resize m \<lparr>t_length = 0, t_elems = 0, t_list = []\<rparr>"

definition HandleTable_Lookup :: "hmem \<Rightarrow> HandleTable \<Rightarrow> bytes \<Rightarrow> u32 \<Rightarrow> addr option option" where
  "HandleTable_Lookup m t key hash =
     do { ptr \<leftarrow> FindPointer m t key hash; read_slot m t ptr }"

definition HandleTable_Insert ::
  "hmem \<Rightarrow> HandleTable \<Rightarrow> addr \<Rightarrow> (hmem \<times> HandleTable \<times> addr option) option" where
  "HandleTable_Insert m t h =
     do {
       key \<leftarrow> LRUHandle_key m h;
       e \<leftarrow> m h;
       ptr \<leftarrow> FindPointer m t key (h_hash e);
       old \<leftarrow> read_slot m t ptr;
       nh \<leftarrow> (case old of None \<Rightarrow> Some None | Some a \<Rightarrow> map_option h_next_hash (m a));
       m \<leftarrow> set_next_hash m h nh;
       (m, t) \<leftarrow> write_slot m t ptr (Some h);
       if old = None then
         let t = t\<lparr>t_elems := t_elems t + 1\<rparr> in
         if t_elems t > t_length t then do { (m, t) \<leftarrow> Resize m t; Some (m, t, old) }
         else Some (m, t, old)
       else Some (m, t, old)
     }"

definition HandleTable_Remove ::
  "hmem \<Rightarrow> HandleTable \<Rightarrow> bytes \<Rightarrow> u32 \<Rightarrow> (hmem \<times> HandleTable \<times> addr option) option" where
  "HandleTable_Remove m t key hash =
     do {
       ptr \<leftarrow> FindPointer m t key hash;
       result \<leftarrow> read_slot m t ptr;
       (case result of
          None \<Rightarrow> Some (m, t, None)
        | Some a \<Rightarrow>
            do {
              e \<leftarrow> m a;
              (m, t) \<leftarrow> write_slot m t ptr (h_next_hash e);
              Some (m, t\<lparr>t_elems := t_elems t - 1\<rparr>, Some a)
            })
     }"

section \<open>The interface\<close>

text \<open>The identity of a handle: its hash and its key.\<close>

definition ident :: "hmem \<Rightarrow> addr \<Rightarrow> (u32 \<times> bytes) option" where
  "ident m a = map_option (\<lambda>e. (h_hash e, h_key e)) (m a)"

text \<open>Handles whose method \<open>key\<close> can be called.\<close>

definition keyed :: "hmem \<Rightarrow> addr set \<Rightarrow> bool" where
  "keyed m S \<longleftrightarrow> (\<forall>a\<in>S. \<exists>e. m a = Some e \<and> h_next e \<noteq> Some a)"

text \<open>Memories that differ in the field \<open>next_hash\<close> only.\<close>

definition same_but_chains :: "hmem \<Rightarrow> hmem \<Rightarrow> bool" where
  "same_but_chains m m' \<longleftrightarrow>
     (\<forall>a. map_option (h_next_hash_update (\<lambda>_. None)) (m a) = map_option (h_next_hash_update (\<lambda>_. None)) (m' a))"

text \<open>The handle of a set that has a given identity, if there is one.\<close>

definition is_found :: "hmem \<Rightarrow> addr set \<Rightarrow> u32 \<times> bytes \<Rightarrow> addr option \<Rightarrow> bool" where
  "is_found m S i r \<longleftrightarrow> (\<forall>a. r = Some a \<longleftrightarrow> a \<in> S \<and> ident m a = Some i)"

text \<open>
  What the cache relies on.  \<open>holds m t S\<close> says that the table \<open>t\<close> represents the set \<open>S\<close> of handles,
  which have different identities.
\<close>

locale handle_table =
  fixes holds :: "hmem \<Rightarrow> 't \<Rightarrow> addr set \<Rightarrow> bool"
    and Lookup :: "hmem \<Rightarrow> 't \<Rightarrow> bytes \<Rightarrow> u32 \<Rightarrow> addr option option"
    and Insert :: "hmem \<Rightarrow> 't \<Rightarrow> addr \<Rightarrow> (hmem \<times> 't \<times> addr option) option"
    and Remove :: "hmem \<Rightarrow> 't \<Rightarrow> bytes \<Rightarrow> u32 \<Rightarrow> (hmem \<times> 't \<times> addr option) option"
  assumes inj: "holds m t S \<Longrightarrow> inj_on (ident m) S"
    and finite: "holds m t S \<Longrightarrow> finite S"
    and transfer: "holds m t S \<Longrightarrow> (\<And>a. a \<in> S \<Longrightarrow> \<exists>e e'. m a = Some e \<and> m' a = Some e'
          \<and> h_next_hash e' = h_next_hash e \<and> h_hash e' = h_hash e \<and> h_key e' = h_key e) \<Longrightarrow> holds m' t S"
    and lookup: "holds m t S \<Longrightarrow> keyed m S \<Longrightarrow>
          \<exists>r. Lookup m t key hash = Some r \<and> is_found m S (hash, key) r"
    and insert: "holds m t S \<Longrightarrow> keyed m (insert h S) \<Longrightarrow> h \<notin> S \<Longrightarrow> card S < 2 ^ 31 \<Longrightarrow>
          \<exists>m' t' r. Insert m t h = Some (m', t', r) \<and> is_found m S (the (ident m h)) r
            \<and> same_but_chains m m' \<and> holds m' t' (insert h S - set_option r)"
    and remove: "holds m t S \<Longrightarrow> keyed m S \<Longrightarrow>
          \<exists>m' t' r. Remove m t key hash = Some (m', t', r) \<and> is_found m S (hash, key) r
            \<and> same_but_chains m m' \<and> holds m' t' (S - set_option r)"
begin

text \<open>A handle is found after its insertion, and not after its removal.\<close>

lemma lookup_inserted:
  assumes "holds m t S" "keyed m (insert h S)" "h \<notin> S" "card S < 2 ^ 31" "Insert m t h = Some (m', t', r)"
    and "keyed m' (insert h S)" "ident m' h = Some (hash, key)"
  shows "Lookup m' t' key hash = Some (Some h)"
proof -
  have "holds m' t' (insert h S - set_option r)" and "is_found m S (the (ident m h)) r"
    using insert [OF assms(1-4)] assms(5) by auto
  then have "h \<in> insert h S - set_option r" "keyed m' (insert h S - set_option r)"
    using assms(3,6) by (auto simp: is_found_def keyed_def)
  then show ?thesis
    using lookup [OF \<open>holds m' t' (insert h S - set_option r)\<close>, of key hash] assms(7)
    by (auto simp: is_found_def)
qed

end

section \<open>Chains\<close>

fun hchain :: "hmem \<Rightarrow> addr option \<Rightarrow> addr list \<Rightarrow> bool" where
  "hchain m p [] \<longleftrightarrow> p = None"
| "hchain m p (x # xs) \<longleftrightarrow> p = Some x \<and> (\<exists>e. m x = Some e \<and> hchain m (h_next_hash e) xs)"

lemma hchain_cong:
  "(\<And>a. a \<in> set xs \<Longrightarrow> map_option h_next_hash (m a) = map_option h_next_hash (m' a)) \<Longrightarrow> hchain m p xs = hchain m' p xs"
proof (induction xs arbitrary: p)
  case (Cons x xs)
  have "map_option h_next_hash (m x) = map_option h_next_hash (m' x)" by (rule Cons.prems) simp
  moreover have "hchain m q xs = hchain m' q xs" for q
    by (rule Cons.IH) (rule Cons.prems, simp)
  ultimately show ?case by (cases "m x"; cases "m' x") auto
qed simp

lemma hchain_cong_upd: "a \<notin> set xs \<Longrightarrow> hchain (m(a := v)) p xs = hchain m p xs"
  by (rule hchain_cong) auto

lemma hchain_dom: "hchain m p xs \<Longrightarrow> set xs \<subseteq> dom m"
  by (induction xs arbitrary: p) auto

text \<open>The pointer behind the part \<open>ys\<close> of the chain of bucket \<open>i\<close>.\<close>

definition slot_of :: "nat \<Rightarrow> addr list \<Rightarrow> slot" where
  "slot_of i ys = (if ys = [] then Bucket i else NextHash (last ys))"

lemma slot_of_snoc [simp]: "slot_of i (ys @ [y]) = NextHash y"
  by (simp add: slot_of_def)

lemma slot_of_Nil [simp]: "slot_of i [] = Bucket i"
  by (simp add: slot_of_def)

text \<open>Changing the pointer behind \<open>ys\<close> replaces what follows it.\<close>

lemma hchain_snoc_upd:
  assumes "hchain m p (ys @ y # zs)" "y \<notin> set ys" "m y = Some e" "hchain m v ws" "y \<notin> set ws"
  shows "hchain (m(y \<mapsto> e\<lparr>h_next_hash := v\<rparr>)) p (ys @ y # ws)"
  using assms(1,2)
proof (induction ys arbitrary: p)
  case Nil
  have "hchain (m(y \<mapsto> e\<lparr>h_next_hash := v\<rparr>)) v ws"
    using hchain_cong_upd [OF assms(5)] assms(4) by blast
  with Nil show ?case by (simp add: fun_upd_def)
qed auto

lemma read_slot_of:
  assumes "i < length (t_list t)" "hchain m (t_list t ! i) (ys @ zs)"
  shows "\<exists>q. read_slot m t (slot_of i ys) = Some q \<and> hchain m q zs"
proof (cases ys rule: rev_cases)
  case Nil
  with assms show ?thesis by simp
next
  case (snoc ws y)
  have "hchain m p (ws @ y # zs) \<Longrightarrow> \<exists>e. m y = Some e \<and> hchain m (h_next_hash e) zs" for p
    by (induction ws arbitrary: p) auto
  then obtain e where "m y = Some e" "hchain m (h_next_hash e) zs" using assms(2) snoc by fastforce
  then show ?thesis using snoc by simp
qed

section \<open>Finding a handle\<close>

lemma FindPointer_loop_chain:
  assumes "i < length (t_list t)" "hchain m (t_list t ! i) (ys @ zs)" "keyed m (set zs)"
  shows "FindPointer_loop m t key hash (slot_of i ys) =
    Some (slot_of i (ys @ takeWhile (\<lambda>x. ident m x \<noteq> Some (hash, key)) zs))"
  using assms(2,3)
proof (induction zs arbitrary: ys)
  case Nil
  then have "read_slot m t (slot_of i ys) = Some None"
    using read_slot_of [OF assms(1), of m ys "[]"] by simp
  then show ?case by (subst FindPointer_loop.simps) simp
next
  case (Cons z zs)
  obtain e where z: "m z = Some e" "h_next e \<noteq> Some z" using Cons.prems(2) by (auto simp: keyed_def)
  have "read_slot m t (slot_of i ys) = Some (Some z)"
    using read_slot_of [OF assms(1) Cons.prems(1)] by auto
  moreover have "FindPointer_loop m t key hash (NextHash z) =
      Some (slot_of i (ys @ z # takeWhile (\<lambda>x. ident m x \<noteq> Some (hash, key)) zs))"
    using Cons.IH [of "ys @ [z]"] Cons.prems by (simp add: keyed_def)
  ultimately show ?case
    using z by (subst FindPointer_loop.simps) (auto simp: ident_def LRUHandle_key_def)
qed

section \<open>Writing through a slot\<close>

lemma set_next_hash_Some: "m a = Some e \<Longrightarrow> set_next_hash m a v = Some (m(a \<mapsto> e\<lparr>h_next_hash := v\<rparr>))"
  by (simp add: set_next_hash_def)

lemma same_but_chains_refl [simp]: "same_but_chains m m"
  by (simp add: same_but_chains_def)

lemma same_but_chains_trans: "same_but_chains m m' \<Longrightarrow> same_but_chains m' m'' \<Longrightarrow> same_but_chains m m''"
  by (simp add: same_but_chains_def)

lemma same_but_chains_upd: "m a = Some e \<Longrightarrow> same_but_chains m (m(a \<mapsto> e\<lparr>h_next_hash := v\<rparr>))"
  by (simp add: same_but_chains_def)

lemma same_but_chainsD:
  assumes "same_but_chains m m'" "m a = Some e"
  obtains v where "m' a = Some (e\<lparr>h_next_hash := v\<rparr>)"
proof -
  have "map_option (h_next_hash_update (\<lambda>_. None)) (m a) = map_option (h_next_hash_update (\<lambda>_. None)) (m' a)"
    using assms(1) by (simp add: same_but_chains_def)
  then obtain e' where e': "m' a = Some e'" "e'\<lparr>h_next_hash := None\<rparr> = e\<lparr>h_next_hash := None\<rparr>"
    using assms(2) by (cases "m' a") auto
  then have "e' = e\<lparr>h_next_hash := h_next_hash e'\<rparr>" by (cases e; cases e') simp
  with e'(1) that show ?thesis by metis
qed

lemma same_but_chains_None: "same_but_chains m m' \<Longrightarrow> m a = None \<longleftrightarrow> m' a = None"
  unfolding same_but_chains_def by (metis map_option_is_None)

lemma same_but_chains_dom: "same_but_chains m m' \<Longrightarrow> dom m' = dom m"
  using same_but_chains_None [of m m'] by (auto simp: dom_def)

lemma same_but_chains_ident: "same_but_chains m m' \<Longrightarrow> ident m' a = ident m a"
  using same_but_chains_None [of m m' a] by (cases "m a") (auto simp: ident_def elim!: same_but_chainsD)

lemma same_but_chains_keyed: "same_but_chains m m' \<Longrightarrow> keyed m S \<Longrightarrow> keyed m' S"
  unfolding keyed_def by (metis same_but_chainsD LRUHandle.select_convs(4) LRUHandle.update_convs(3) LRUHandle.surjective)

section \<open>The invariant of the table\<close>

definition in_bucket :: "hmem \<Rightarrow> u32 \<Rightarrow> nat \<Rightarrow> addr \<Rightarrow> bool" where
  "in_bucket m len i a \<longleftrightarrow> (\<exists>e. m a = Some e \<and> bucket_index (h_hash e) len = i)"

text \<open>The chain that starts at \<open>p\<close> holds the members of \<open>S\<close> that belong to bucket \<open>i\<close>.\<close>

definition bucket :: "hmem \<Rightarrow> u32 \<Rightarrow> addr set \<Rightarrow> nat \<Rightarrow> addr option \<Rightarrow> bool" where
  "bucket m len S i p \<longleftrightarrow>
     (\<exists>xs. hchain m p xs \<and> distinct xs \<and> set xs = {a \<in> S. in_bucket m len i a})"

definition buckets :: "hmem \<Rightarrow> u32 \<Rightarrow> addr set \<Rightarrow> addr option list \<Rightarrow> bool" where
  "buckets m len S l \<longleftrightarrow> length l = unat len \<and> (\<forall>i<length l. bucket m len S i (l ! i))"

definition table_length :: "u32 \<Rightarrow> bool" where
  "table_length len \<longleftrightarrow> (\<exists>k\<ge>2. k \<le> 31 \<and> len = 2 ^ k)"

definition table_holds :: "hmem \<Rightarrow> HandleTable \<Rightarrow> addr set \<Rightarrow> bool" where
  "table_holds m t S \<longleftrightarrow>
     table_length (t_length t) \<and> buckets m (t_length t) S (t_list t) \<and> finite S \<and> S \<subseteq> dom m
     \<and> t_elems t = of_nat (card S) \<and> card S \<le> 2 ^ 31 \<and> inj_on (ident m) S"

lemma unat_power_of_two: "k \<le> 31 \<Longrightarrow> unat (2 ^ k :: u32) = 2 ^ k"
proof -
  assume "k \<le> 31"
  then have "(2 :: nat) ^ k < 2 ^ 32" by (intro power_strict_increasing) auto
  then show ?thesis using unat_of_nat [of "2 ^ k", where 'a = 32] by (simp add: take_bit_eq_mod)
qed

lemma bucket_index_less: "table_length len \<Longrightarrow> bucket_index hash len < unat len"
proof -
  assume "table_length len"
  then obtain k where k: "k \<le> 31" "len = 2 ^ k" by (auto simp: table_length_def)
  have "hash AND (2 ^ k - 1) = take_bit k hash" by (simp add: take_bit_eq_mask mask_eq_exp_minus_1)
  moreover have "unat (2 ^ k :: u32) = 2 ^ k" using k(1) by (rule unat_power_of_two)
  ultimately show ?thesis
    using k(2) take_bit_nat_less_exp [of k "unat hash"]
    by (simp add: bucket_index_def unsigned_take_bit_eq del: take_bit_nat_less_exp)
qed

lemma in_bucket_unique: "in_bucket m len i a \<Longrightarrow> in_bucket m len j a \<Longrightarrow> i = j"
  by (auto simp: in_bucket_def)

lemma in_bucket_ident: "ident m' a = ident m a \<Longrightarrow> in_bucket m' len i a = in_bucket m len i a"
  by (cases "m a"; cases "m' a") (auto simp: in_bucket_def ident_def)

lemma bucket_cong:
  assumes "bucket m len S i p"
    and "\<And>a. a \<in> S \<Longrightarrow> ident m' a = ident m a"
    and "\<And>a. a \<in> S \<Longrightarrow> in_bucket m len i a \<Longrightarrow> map_option h_next_hash (m' a) = map_option h_next_hash (m a)"
  shows "bucket m' len S i p"
proof -
  obtain xs where xs: "hchain m p xs" "distinct xs" "set xs = {a \<in> S. in_bucket m len i a}"
    using assms(1) by (auto simp: bucket_def)
  have "hchain m p xs = hchain m' p xs"
    by (rule hchain_cong) (use xs(3) assms(3) in auto)
  moreover have "{a \<in> S. in_bucket m len i a} = {a \<in> S. in_bucket m' len i a}"
    using assms(2) in_bucket_ident by blast
  ultimately show ?thesis using xs unfolding bucket_def by (intro exI [of _ xs]) auto
qed

lemma bucket_other:
  "bucket m len S i p \<Longrightarrow> in_bucket m len j a \<Longrightarrow> i \<noteq> j \<Longrightarrow> bucket m len (insert a S) i p"
  "bucket m len S i p \<Longrightarrow> in_bucket m len j a \<Longrightarrow> i \<noteq> j \<Longrightarrow> bucket m len (S - {a}) i p"
  unfolding bucket_def by (auto dest: in_bucket_unique)

lemma table_holds_bucket:
  assumes "table_holds m t S" "keyed m S"
  obtains xs where "bucket_index hash (t_length t) < length (t_list t)"
    and "hchain m (t_list t ! bucket_index hash (t_length t)) xs" "distinct xs" "keyed m (set xs)"
    and "set xs = {a \<in> S. in_bucket m (t_length t) (bucket_index hash (t_length t)) a}"
proof -
  have len: "bucket_index hash (t_length t) < length (t_list t)"
    using assms(1) bucket_index_less by (simp add: table_holds_def buckets_def)
  then obtain xs where "hchain m (t_list t ! bucket_index hash (t_length t)) xs" "distinct xs"
      "set xs = {a \<in> S. in_bucket m (t_length t) (bucket_index hash (t_length t)) a}"
    using assms(1) by (auto simp: table_holds_def buckets_def bucket_def)
  with len assms(2) show thesis by (intro that) (auto simp: keyed_def)
qed

lemma takeWhile_dropWhile_cases:
  obtains (none) "\<And>x. x \<in> set xs \<Longrightarrow> P x" "takeWhile P xs = xs"
  | (some) x zs where "xs = takeWhile P xs @ x # zs" "\<not> P x"
proof (cases "dropWhile P xs")
  case Nil
  with none show thesis by (auto simp: dropWhile_eq_Nil_conv takeWhile_eq_all_conv)
next
  case (Cons x zs)
  then have "\<not> P x" by (metis hd_dropWhile list.discI list.sel(1))
  with Cons some [of x zs] show thesis by (metis takeWhile_dropWhile_id)
qed

text \<open>What \<open>FindPointer\<close> returns: the slot of the handle, or the slot at the end of the hchain.\<close>

lemma FindPointer_cases:
  fixes hash :: u32
  assumes "table_holds m t S" "keyed m S"
  defines "i \<equiv> bucket_index hash (t_length t)"
  obtains (absent) xs where "FindPointer m t key hash = Some (slot_of i xs)" "i < length (t_list t)"
      "hchain m (t_list t ! i) xs" "distinct xs" "set xs = {a \<in> S. in_bucket m (t_length t) i a}"
      "read_slot m t (slot_of i xs) = Some None" "is_found m S (hash, key) None"
  | (present) ys a zs e where "FindPointer m t key hash = Some (slot_of i ys)" "i < length (t_list t)"
      "hchain m (t_list t ! i) (ys @ a # zs)" "distinct (ys @ a # zs)"
      "set (ys @ a # zs) = {a \<in> S. in_bucket m (t_length t) i a}"
      "read_slot m t (slot_of i ys) = Some (Some a)" "is_found m S (hash, key) (Some a)"
      "m a = Some e" "hchain m (h_next_hash e) zs"
proof -
  obtain xs where i: "i < length (t_list t)" and xs: "hchain m (t_list t ! i) xs" "distinct xs" "keyed m (set xs)"
      "set xs = {a \<in> S. in_bucket m (t_length t) i a}"
    using table_holds_bucket [OF assms(1,2), of hash] unfolding i_def by blast
  let ?P = "\<lambda>x. ident m x \<noteq> Some (hash, key)"
  have find: "FindPointer m t key hash = Some (slot_of i (takeWhile ?P xs))"
    using FindPointer_loop_chain [of i t m "[]" xs key hash] i xs by (simp add: FindPointer_def i_def)
  have here: "a \<in> set xs" if "a \<in> S" "ident m a = Some (hash, key)" for a
    using that unfolding xs(4) i_def by (auto simp: in_bucket_def ident_def)
  show thesis
  proof (cases rule: takeWhile_dropWhile_cases [of xs ?P])
    case none
    have "read_slot m t (slot_of i xs) = Some None"
      using read_slot_of [of i t m xs "[]"] i xs by simp
    moreover have "is_found m S (hash, key) None" using none(1) here by (auto simp: is_found_def)
    ultimately show thesis using absent [of xs] find none(2) i xs by simp
  next
    case (some a zs)
    define ys where "ys = takeWhile ?P xs"
    have xs_eq: "xs = ys @ a # zs" using some(1) unfolding ys_def .
    obtain e where e: "m a = Some e" "hchain m (h_next_hash e) zs"
      and read: "read_slot m t (slot_of i ys) = Some (Some a)"
      using read_slot_of [OF i xs(1) [unfolded xs_eq]] by auto
    have a: "a \<in> S" "ident m a = Some (hash, key)"
      using xs(4) [unfolded xs_eq] some(2) by auto
    moreover have "b = a" if "b \<in> S" "ident m b = Some (hash, key)" for b
    proof -
      have "inj_on (ident m) S" using assms(1) by (simp add: table_holds_def)
      then show ?thesis by (rule inj_onD) (simp_all add: a that)
    qed
    ultimately have "is_found m S (hash, key) (Some a)" unfolding is_found_def by blast
    then show thesis
      using present [OF find [folded ys_def] i xs(1,2,4) [unfolded xs_eq] read _ e] by blast
  qed
qed

lemma table_lookup:
  assumes "table_holds m t S" "keyed m S"
  shows "\<exists>r. HandleTable_Lookup m t key hash = Some r \<and> is_found m S (hash, key) r"
  by (rule FindPointer_cases [OF assms, of key hash]) (auto simp: HandleTable_Lookup_def)

lemma write_slot_chain:
  assumes "i < length (t_list t)" "hchain m (t_list t ! i) (ys @ zs)" "distinct (ys @ zs)"
    and "hchain m v ws" "set ws \<inter> set ys = {}"
  shows "\<exists>m' l'. write_slot m t (slot_of i ys) v = Some (m', t\<lparr>t_list := l'\<rparr>) \<and> same_but_chains m m'
    \<and> hchain m' (l' ! i) (ys @ ws) \<and> length l' = length (t_list t) \<and> (\<forall>j. j \<noteq> i \<longrightarrow> l' ! j = t_list t ! j)
    \<and> (\<forall>a. a \<notin> set ys \<longrightarrow> m' a = m a)"
proof (cases ys rule: rev_cases)
  case Nil
  then show ?thesis
    using assms by (intro exI [of _ m] exI [of _ "(t_list t)[i := v]"]) simp
next
  case (snoc us y)
  obtain e where e: "m y = Some e"
    using hchain_dom [OF assms(2)] snoc by auto
  let ?m = "m(y \<mapsto> e\<lparr>h_next_hash := v\<rparr>)"
  have "hchain ?m (t_list t ! i) (us @ y # ws)"
    by (rule hchain_snoc_upd [OF _ _ e assms(4)]) (use assms snoc in auto)
  then show ?thesis
    using snoc e by (intro exI [of _ ?m] exI [of _ "t_list t"])
      (simp add: set_next_hash_Some same_but_chains_upd)
qed

text \<open>One bucket of the table changes from a set of handles to another.\<close>

lemma buckets_change:
  assumes "buckets m len S l" "same_but_chains m m'" "length l' = length l" "\<forall>j. j \<noteq> i \<longrightarrow> l' ! j = l ! j"
    and "i < length l" "bucket m' len S' i (l' ! i)"
    and "\<And>a. a \<in> S \<Longrightarrow> \<not> in_bucket m len i a \<Longrightarrow> m' a = m a"
    and "\<And>a. \<not> in_bucket m len i a \<Longrightarrow> a \<in> S' \<longleftrightarrow> a \<in> S"
  shows "buckets m' len S' l'"
proof -
  have "bucket m' len S' j (l' ! j)" if "j < length l'" "j \<noteq> i" for j
  proof -
    have "bucket m len S j (l ! j)" using assms(1,3) that(1) by (simp add: buckets_def)
    then obtain xs where xs: "hchain m (l ! j) xs" "distinct xs" "set xs = {a \<in> S. in_bucket m len j a}"
      by (auto simp: bucket_def)
    have other: "\<not> in_bucket m len i a" if "in_bucket m len j a" for a
      using that \<open>j \<noteq> i\<close> in_bucket_unique by blast
    have "hchain m (l ! j) xs = hchain m' (l ! j) xs"
      by (rule hchain_cong) (use xs(3) other assms(7) in auto)
    moreover have "{a \<in> S. in_bucket m len j a} = {a \<in> S'. in_bucket m' len j a}"
      using other assms(8) in_bucket_ident [OF same_but_chains_ident [OF assms(2)]] by blast
    ultimately show ?thesis using xs assms(4) that(2) unfolding bucket_def by (intro exI [of _ xs]) auto
  qed
  then show ?thesis using assms(1,3,6) unfolding buckets_def by metis
qed

lemma table_remove:
  assumes "table_holds m t S" "keyed m S"
  shows "\<exists>m' t' r. HandleTable_Remove m t key hash = Some (m', t', r) \<and> is_found m S (hash, key) r
    \<and> same_but_chains m m' \<and> table_holds m' t' (S - set_option r)"
proof (cases rule: FindPointer_cases [OF assms, of key hash, case_names absent present])
  case (absent xs)
  then show ?thesis using assms(1) by (simp add: HandleTable_Remove_def)
next
  case (present ys a zs e)
  let ?i = "bucket_index hash (t_length t)"
  obtain m' l' where w: "write_slot m t (slot_of ?i ys) (h_next_hash e) = Some (m', t\<lparr>t_list := l'\<rparr>)"
      "same_but_chains m m'" "hchain m' (l' ! ?i) (ys @ zs)" "length l' = length (t_list t)"
      "\<forall>j. j \<noteq> ?i \<longrightarrow> l' ! j = t_list t ! j" "\<forall>a. a \<notin> set ys \<longrightarrow> m' a = m a"
    using write_slot_chain [OF present(2-4,9)] present(4) by auto
  have a: "a \<in> S" "in_bucket m (t_length t) ?i a" using present(5) by auto
  have same: "ident m' = ident m" using same_but_chains_ident [OF w(2)] by auto
  have "bucket m' (t_length t) (S - {a}) ?i (l' ! ?i)"
    unfolding bucket_def
  proof (intro exI conjI)
    show "set (ys @ zs) = {b \<in> S - {a}. in_bucket m' (t_length t) ?i b}"
      using present(4,5) in_bucket_ident [of m' _ m] same by auto
  qed (use w(3) present(4) in auto)
  then have "buckets m' (t_length t) (S - {a}) l'"
    using assms(1) w a(2) present(2,5)
    by (intro buckets_change [of m "t_length t" S "t_list t" m' l' ?i]) (auto simp: table_holds_def)
  moreover have "S - {a} \<subseteq> dom m'"
    using assms(1) same_but_chains_dom [OF w(2)] by (auto simp: table_holds_def)
  moreover have "card S = Suc (card (S - {a}))"
    using assms(1) a(1) by (metis card.remove table_holds_def)
  ultimately have "table_holds m' (t\<lparr>t_list := l', t_elems := t_elems t - 1\<rparr>) (S - {a})"
    using assms(1) same by (auto simp: table_holds_def inj_on_diff)
  then show ?thesis
    using present w by (simp add: HandleTable_Remove_def)
qed

section \<open>Resize\<close>

lemma grow_length_power:
  assumes "unat elems \<le> 2 ^ 31" "2 \<le> k" "k \<le> 31"
  shows "\<exists>len. grow_length elems (2 ^ k) = Some len \<and> table_length len"
  using assms(2,3)
proof (induction "31 - k" arbitrary: k)
  case 0
  then have "k = 31" by simp
  then have "\<not> (2 ^ k :: u32) < elems"
    using assms(1) unat_power_of_two [of 31] by (simp add: word_less_nat_alt)
  moreover have "table_length (2 ^ k)" unfolding table_length_def using 0 \<open>k = 31\<close> by blast
  ultimately show ?case by (subst grow_length.simps) auto
next
  case (Suc n)
  show ?case
  proof (cases "2 ^ k < elems")
    case True
    have "n = 31 - Suc k" "2 \<le> Suc k" "Suc k \<le> 31" using Suc.hyps(2) Suc.prems by auto
    then have "\<exists>len. grow_length elems (2 ^ Suc k) = Some len \<and> table_length len" by (rule Suc.hyps(1))
    then show ?thesis using True by (subst grow_length.simps) (simp add: mult.commute)
  next
    case False
    with Suc show ?thesis by (subst grow_length.simps) (auto simp: table_length_def)
  qed
qed

lemma bucket_push:
  assumes "bucket m len D i p" "a \<notin> D" "m a = Some e" "bucket_index (h_hash e) len = i"
  shows "bucket (m(a \<mapsto> e\<lparr>h_next_hash := p\<rparr>)) len (insert a D) i (Some a)"
proof -
  let ?m = "m(a \<mapsto> e\<lparr>h_next_hash := p\<rparr>)"
  obtain xs where xs: "hchain m p xs" "distinct xs" "set xs = {b \<in> D. in_bucket m len i b}"
    using assms(1) by (auto simp: bucket_def)
  have "a \<notin> set xs" using xs(3) assms(2) by simp
  then have "hchain ?m (Some a) (a # xs)" using xs(1) hchain_cong_upd [of a xs m] by (simp add: fun_upd_def)
  moreover have "in_bucket ?m len i b = in_bucket m len i b" for b
    using assms(3) by (intro in_bucket_ident) (simp add: ident_def)
  then have "set (a # xs) = {b \<in> insert a D. in_bucket ?m len i b}"
    using xs(3) assms(3,4) by (auto simp: in_bucket_def)
  ultimately show ?thesis using \<open>a \<notin> set xs\<close> xs(2) unfolding bucket_def by (intro exI [of _ "a # xs"]) simp
qed

lemma buckets_push:
  assumes "buckets m len D l" "table_length len" "a \<notin> D" "m a = Some e"
  defines "i \<equiv> bucket_index (h_hash e) len"
  shows "i < length l \<and> buckets (m(a \<mapsto> e\<lparr>h_next_hash := l ! i\<rparr>)) len (insert a D) (l[i := Some a])"
proof
  have len: "length l = unat len" using assms(1) by (simp add: buckets_def)
  show i: "i < length l" unfolding i_def len by (rule bucket_index_less [OF assms(2)])
  have a: "in_bucket m len i a" using assms(4) by (simp add: in_bucket_def i_def)
  have "bucket (m(a \<mapsto> e\<lparr>h_next_hash := l ! i\<rparr>)) len (insert a D) i (Some a)"
    using assms(1,3,4) i by (intro bucket_push) (auto simp: buckets_def i_def)
  with i a show "buckets (m(a \<mapsto> e\<lparr>h_next_hash := l ! i\<rparr>)) len (insert a D) (l[i := Some a])"
    by (intro buckets_change [OF assms(1) same_but_chains_upd [of m a e "l ! i", OF assms(4)], where i = i]) auto
qed

lemma rehash_chain_ok:
  assumes "hchain m p xs" "distinct xs" "set xs \<inter> D = {}" "buckets m len D l" "table_length len"
  shows "\<exists>m' l'. rehash_chain m len l p count = Some (m', l', count + of_nat (length xs))
    \<and> buckets m' len (D \<union> set xs) l' \<and> same_but_chains m m' \<and> (\<forall>a. a \<notin> set xs \<longrightarrow> m' a = m a)"
  using assms(1-4)
proof (induction xs arbitrary: m p D l count)
  case Nil
  then show ?case by (subst rehash_chain.simps) simp
next
  case (Cons x xs)
  obtain e where e: "p = Some x" "m x = Some e" "hchain m (h_next_hash e) xs" using Cons.prems(1) by auto
  define i where "i = bucket_index (h_hash e) len"
  define m1 where "m1 = m(x \<mapsto> e\<lparr>h_next_hash := l ! i\<rparr>)"
  have x: "x \<notin> D" "x \<notin> set xs" "set xs \<inter> insert x D = {}" using Cons.prems(2,3) by auto
  have push: "i < length l" "buckets m1 len (insert x D) (l[i := Some x])"
    using buckets_push [OF Cons.prems(4) assms(5) x(1) e(2)] by (simp_all add: i_def m1_def)
  have "hchain m1 (h_next_hash e) xs" unfolding m1_def using e(3) hchain_cong_upd [OF x(2)] by blast
  then obtain m' l' where 1: "rehash_chain m1 len (l[i := Some x]) (h_next_hash e) (count + 1)
        = Some (m', l', count + 1 + of_nat (length xs))"
      "buckets m' len (insert x D \<union> set xs) l'" "same_but_chains m1 m'" "\<forall>a. a \<notin> set xs \<longrightarrow> m' a = m1 a"
    using Cons.IH [OF _ _ x(3) push(2), of "h_next_hash e" "count + 1"] Cons.prems(2) by auto
  have "same_but_chains m m'"
    using same_but_chains_trans [OF same_but_chains_upd [of m x e "l ! i"]] e(2) 1(3) by (simp add: m1_def)
  moreover have "rehash_chain m len l p count = Some (m', l', count + of_nat (length (x # xs)))"
    using 1(1) e push(1) by (subst rehash_chain.simps) (simp add: set_next_hash_Some i_def m1_def add.assoc)
  ultimately show ?case using 1(2,4) by (auto simp: m1_def)
qed

lemma rehash_buckets_ok:
  assumes "list_all2 (hchain m) hs xss" "distinct (concat xss)" "set (concat xss) \<inter> D = {}"
    and "buckets m len D l" "table_length len"
  shows "\<exists>m' l'. rehash_buckets m len l hs count = Some (m', l', count + of_nat (length (concat xss)))
    \<and> buckets m' len (D \<union> set (concat xss)) l' \<and> same_but_chains m m'"
  using assms(1-4)
proof (induction xss arbitrary: hs m D l count rule: list.induct)
  case Nil
  then show ?case by simp
next
  case (Cons xs xss)
  obtain h hs' where hs: "hs = h # hs'" "hchain m h xs" "list_all2 (hchain m) hs' xss"
    using Cons.prems(1) by (auto simp: list_all2_Cons2)
  have d: "distinct xs" "set xs \<inter> D = {}" "distinct (concat xss)" "set (concat xss) \<inter> (D \<union> set xs) = {}"
    using Cons.prems(2,3) by auto
  obtain m1 l1 where 1: "rehash_chain m len l h count = Some (m1, l1, count + of_nat (length xs))"
      "buckets m1 len (D \<union> set xs) l1" "same_but_chains m m1" "\<forall>a. a \<notin> set xs \<longrightarrow> m1 a = m a"
    using rehash_chain_ok [OF hs(2) d(1,2) Cons.prems(4) assms(5)] by blast
  have "hchain m1 q ys" if "ys \<in> set xss" "hchain m q ys" for q ys
  proof -
    have "set ys \<inter> set xs = {}" using d(4) that(1) by auto
    then have "hchain m q ys = hchain m1 q ys"
      by (intro hchain_cong) (use 1(4) in auto)
    with that(2) show ?thesis by simp
  qed
  then have "list_all2 (hchain m1) hs' xss"
    using hs(3) by (auto simp: list_all2_conv_all_nth)
  then obtain m2 l2 where 2: "rehash_buckets m1 len l1 hs' (count + of_nat (length xs))
        = Some (m2, l2, count + of_nat (length xs) + of_nat (length (concat xss)))"
      "buckets m2 len (D \<union> set xs \<union> set (concat xss)) l2" "same_but_chains m1 m2"
    using Cons.IH [OF _ d(3,4) 1(2)] by blast
  show ?case
    using 1(1) 2 same_but_chains_trans [OF 1(3) 2(3)] hs(1) by (simp add: add.assoc Un_assoc)
qed

lemma distinct_concat_nth:
  assumes "\<And>i. i < length xss \<Longrightarrow> distinct (xss ! i)"
    and "\<And>i j. i < j \<Longrightarrow> j < length xss \<Longrightarrow> set (xss ! i) \<inter> set (xss ! j) = {}"
  shows "distinct (concat xss)"
  using assms
proof (induction xss)
  case (Cons xs xss)
  have "distinct (concat xss)"
  proof (rule Cons.IH)
    show "distinct (xss ! i)" if "i < length xss" for i using Cons.prems(1) [of "Suc i"] that by simp
    show "set (xss ! i) \<inter> set (xss ! j) = {}" if "i < j" "j < length xss" for i j
      using Cons.prems(2) [of "Suc i" "Suc j"] that by simp
  qed
  moreover have "set xs \<inter> set ys = {}" if ys: "ys \<in> set xss" for ys
  proof -
    obtain j where "j < length xss" "ys = xss ! j" using ys by (metis in_set_conv_nth)
    then show ?thesis using Cons.prems(2) [of 0 "Suc j"] by simp
  qed
  moreover have "distinct xs" using Cons.prems(1) [of 0] by simp
  ultimately show ?case unfolding concat.simps distinct_append set_concat by blast
qed simp

text \<open>The chains of a table, as a list of lists.\<close>

lemma buckets_chains:
  assumes "buckets m len S l" "table_length len" "S \<subseteq> dom m"
  obtains xss where "list_all2 (hchain m) l xss" "distinct (concat xss)" "set (concat xss) = S"
proof -
  obtain xss where xss: "length xss = length l"
      "\<forall>i<length l. hchain m (l ! i) (xss ! i) \<and> distinct (xss ! i) \<and> set (xss ! i) = {a \<in> S. in_bucket m len i a}"
    using assms(1) Skolem_list_nth [of "length l" "\<lambda>i xs. hchain m (l ! i) xs \<and> distinct xs \<and> set xs = {a \<in> S. in_bucket m len i a}"]
    by (auto simp: buckets_def bucket_def)
  have "distinct (concat xss)"
  proof (rule distinct_concat_nth)
    fix i j
    assume "i < j" "j < length xss"
    with xss show "set (xss ! i) \<inter> set (xss ! j) = {}" by (auto dest: in_bucket_unique)
  qed (use xss in auto)
  moreover have "set (concat xss) = S"
  proof
    show "set (concat xss) \<subseteq> S" using xss by (fastforce simp: in_set_conv_nth)
    show "S \<subseteq> set (concat xss)"
    proof
      fix a
      assume a: "a \<in> S"
      then obtain e where e: "m a = Some e" using assms(3) by auto
      let ?i = "bucket_index (h_hash e) len"
      have "?i < length xss" using bucket_index_less [OF assms(2)] assms(1) xss(1) by (simp add: buckets_def)
      moreover have "a \<in> set (xss ! ?i)" using a e xss calculation by (auto simp: in_bucket_def)
      ultimately show "a \<in> set (concat xss)" unfolding set_concat by (metis UN_I nth_mem)
    qed
  qed
  moreover have "list_all2 (hchain m) l xss" using xss by (simp add: list_all2_conv_all_nth)
  ultimately show thesis using that by blast
qed

lemma empty_buckets: "buckets m len {} (replicate (unat len) None)"
  by (auto simp: buckets_def bucket_def intro: exI [of _ "[]"])

lemma Resize_buckets:
  assumes "buckets m (t_length t) S (t_list t)" "table_length (t_length t)" "S \<subseteq> dom m"
    and "t_elems t = of_nat (card S)" "card S \<le> 2 ^ 31"
  shows "\<exists>m' l' len. Resize m t = Some (m', t\<lparr>t_list := l', t_length := len\<rparr>) \<and> table_length len
    \<and> buckets m' len S l' \<and> same_but_chains m m'"
proof -
  obtain xss where xss: "list_all2 (hchain m) (t_list t) xss" "distinct (concat xss)" "set (concat xss) = S"
    using buckets_chains [OF assms(1-3)] by blast
  have "unat (t_elems t) \<le> 2 ^ 31" using assms(4,5) by (simp add: unat_of_nat)
  then obtain len where len: "grow_length (t_elems t) 4 = Some len" "table_length len"
    using grow_length_power [of "t_elems t" 2] by auto
  have "length (concat xss) = card S" using distinct_card [OF xss(2)] xss(3) by simp
  then obtain m' l' where r: "rehash_buckets m len (replicate (unat len) None) (t_list t) 0 = Some (m', l', t_elems t)"
      "buckets m' len S l'" "same_but_chains m m'"
    using rehash_buckets_ok [OF xss(1,2) _ empty_buckets len(2), of 0] assms(4) unfolding xss(3) by auto
  have "take (unat (t_length t)) (t_list t) = t_list t" using assms(1) by (simp add: buckets_def)
  then have "Resize m t = Some (m', t\<lparr>t_list := l', t_length := len\<rparr>)"
    using len(1) r(1) by (simp add: Resize_def)
  with len(2) r(2,3) show ?thesis by blast
qed

section \<open>Insertion\<close>

lemma is_found_Some: "is_found m S i (Some a) \<Longrightarrow> a \<in> S \<and> ident m a = Some i"
  unfolding is_found_def by blast

lemma is_found_only: "is_found m S i r \<Longrightarrow> a \<in> S \<Longrightarrow> ident m a = Some i \<Longrightarrow> r = Some a"
  by (simp add: is_found_def)

lemma inj_on_insert_ident:
  assumes "inj_on (ident m) S" "is_found m S i r" "ident m h = Some i"
  shows "inj_on (ident m) (insert h S - set_option r)"
proof (rule inj_onI)
  fix x y
  assume *: "x \<in> insert h S - set_option r" "y \<in> insert h S - set_option r" "ident m x = ident m y"
  have "ident m z \<noteq> Some i" if "z \<in> S - set_option r" for z
    using that is_found_only [OF assms(2), of z] by auto
  with * assms(1,3) show "x = y" by (metis Diff_iff inj_onD insert_iff)
qed

lemma card_insert_found:
  assumes "finite S" "h \<notin> S" "is_found m S i r"
  shows "card (insert h S - set_option r) = (if r = None then Suc (card S) else card S)"
proof (cases r)
  case (Some a)
  then have "a \<in> S" using assms(3) is_found_Some by blast
  moreover have "insert h S - {a} = insert h (S - {a})" using calculation assms(2) by auto
  moreover have "Suc (card (S - {a})) = card S"
    using assms(1) calculation(1) by (rule card_Suc_Diff1)
  ultimately show ?thesis using Some assms(1,2) by simp
qed (use assms in simp)

text \<open>A new handle is put behind \<open>ys\<close>, in place of the handle \<open>old\<close> if there is one.\<close>

lemma insert_behind:
  assumes "table_holds m t S" "h \<notin> S" "m h = Some e"
  defines "i \<equiv> bucket_index (h_hash e) (t_length t)"
  assumes ys: "i < length (t_list t)" "hchain m (t_list t ! i) (ys @ zs)" "distinct (ys @ zs)"
      "set (ys @ zs) = {a \<in> S. in_bucket m (t_length t) i a}"
    and ws: "hchain m nh ws" "zs = (case old of None \<Rightarrow> [] | Some a \<Rightarrow> [a]) @ ws"
  shows "\<exists>m' l'. write_slot (m(h \<mapsto> e\<lparr>h_next_hash := nh\<rparr>)) t (slot_of i ys) (Some h) = Some (m', t\<lparr>t_list := l'\<rparr>)
    \<and> same_but_chains m m' \<and> buckets m' (t_length t) (insert h S - set_option old) l'"
proof -
  let ?len = "t_length t" and ?S = "insert h S - set_option old"
  let ?m = "m(h \<mapsto> e\<lparr>h_next_hash := nh\<rparr>)"
  have sub: "set (ys @ zs) \<subseteq> S" and ws_sub: "set ws \<subseteq> set zs" using ys(4) ws(2) by auto
  then have h: "h \<notin> set (ys @ zs)" "h \<notin> set ws" using assms(2) by auto
  have 1: "hchain ?m (t_list t ! i) (ys @ zs)" using ys(2) hchain_cong_upd [OF h(1)] by blast
  have "hchain ?m nh ws" using ws(1) hchain_cong_upd [OF h(2)] by blast
  then have 2: "hchain ?m (Some h) (h # ws)" by (simp add: fun_upd_def)
  have 3: "set (h # ws) \<inter> set ys = {}" using ys(3) h ws_sub by auto
  obtain m' l' where w: "write_slot ?m t (slot_of i ys) (Some h) = Some (m', t\<lparr>t_list := l'\<rparr>)"
      "same_but_chains ?m m'" "hchain m' (l' ! i) (ys @ h # ws)" "length l' = length (t_list t)"
      "\<forall>j. j \<noteq> i \<longrightarrow> l' ! j = t_list t ! j" "\<forall>a. a \<notin> set ys \<longrightarrow> m' a = ?m a"
    using write_slot_chain [OF ys(1) 1 ys(3) 2 3] by blast
  have same: "same_but_chains m m'"
    by (rule same_but_chains_trans [OF same_but_chains_upd [of m h e nh, OF assms(3)] w(2)])
  have idx: "in_bucket m' ?len j a = in_bucket m ?len j a" for j a
    by (rule in_bucket_ident) (rule same_but_chains_ident [OF same])
  have h_in: "in_bucket m ?len i h" using assms(3) by (simp add: in_bucket_def i_def)
  have "set (ys @ h # ws) = {a \<in> ?S. in_bucket m ?len i a}"
    using ys(3,4) ws(2) h_in h assms(2) by (cases old) auto
  moreover have "distinct (ys @ h # ws)" using ys(3) ws(2) h by (cases old) auto
  ultimately have b: "bucket m' ?len ?S i (l' ! i)"
    unfolding bucket_def idx using w(3) by blast
  have "buckets m' ?len ?S l'"
  proof (rule buckets_change [OF _ same w(4,5) ys(1) b])
    show "buckets m ?len S (t_list t)" using assms(1) by (simp add: table_holds_def)
    show "m' a = m a" if "a \<in> S" "\<not> in_bucket m ?len i a" for a
    proof -
      have "a \<notin> set ys" using that ys(4) by auto
      moreover have "a \<noteq> h" using that assms(2) by auto
      ultimately show ?thesis using w(6) by simp
    qed
    have "in_bucket m ?len i a" if "old = Some a" for a using ys(4) ws(2) that by auto
    then show "a \<in> ?S \<longleftrightarrow> a \<in> S" if "\<not> in_bucket m ?len i a" for a
      using that h_in by (cases old) auto
  qed
  with w(1) same show ?thesis by blast
qed

lemma table_insert_slot:
  assumes "table_holds m t S" "keyed m S" "h \<notin> S" "m h = Some e"
  shows "\<exists>ptr old nh m' l'. FindPointer m t (h_key e) (h_hash e) = Some ptr \<and> read_slot m t ptr = Some old
    \<and> (case old of None \<Rightarrow> Some None | Some a \<Rightarrow> map_option h_next_hash (m a)) = Some nh
    \<and> write_slot (m(h \<mapsto> e\<lparr>h_next_hash := nh\<rparr>)) t ptr (Some h) = Some (m', t\<lparr>t_list := l'\<rparr>)
    \<and> is_found m S (h_hash e, h_key e) old \<and> same_but_chains m m'
    \<and> buckets m' (t_length t) (insert h S - set_option old) l'"
proof (cases rule: FindPointer_cases [OF assms(1,2), of "h_key e" "h_hash e", case_names absent present])
  case (absent xs)
  then show ?thesis
    using insert_behind [OF assms(1,3,4), of xs "[]" None "[]" None] by auto
next
  case (present ys a zs d)
  let ?i = "bucket_index (h_hash e) (t_length t)"
  obtain m' l' where w: "write_slot (m(h \<mapsto> e\<lparr>h_next_hash := h_next_hash d\<rparr>)) t (slot_of ?i ys) (Some h) = Some (m', t\<lparr>t_list := l'\<rparr>)"
      "same_but_chains m m'" "buckets m' (t_length t) (insert h S - {a}) l'"
    using insert_behind [OF assms(1,3,4) present(2-5,9), of "Some a"] by auto
  show ?thesis
    by (intro exI [of _ "slot_of ?i ys"] exI [of _ "Some a"] exI [of _ "h_next_hash d"] exI [of _ m'] exI [of _ l'])
      (simp add: present w)
qed

lemma table_insert:
  assumes "table_holds m t S" "keyed m (insert h S)" "h \<notin> S" "card S < 2 ^ 31"
  shows "\<exists>m' t' r. HandleTable_Insert m t h = Some (m', t', r) \<and> is_found m S (the (ident m h)) r
    \<and> same_but_chains m m' \<and> table_holds m' t' (insert h S - set_option r)"
proof -
  obtain e where e: "m h = Some e" "LRUHandle_key m h = Some (h_key e)"
    using assms(2) by (auto simp: keyed_def LRUHandle_key_def)
  have id: "ident m h = Some (h_hash e, h_key e)" using e(1) by (simp add: ident_def)
  have keyed: "keyed m S" using assms(2) by (simp add: keyed_def)
  obtain ptr old nh m' l' where w: "FindPointer m t (h_key e) (h_hash e) = Some ptr"
      "read_slot m t ptr = Some old"
      "(case old of None \<Rightarrow> Some None | Some a \<Rightarrow> map_option h_next_hash (m a)) = Some nh"
      "write_slot (m(h \<mapsto> e\<lparr>h_next_hash := nh\<rparr>)) t ptr (Some h) = Some (m', t\<lparr>t_list := l'\<rparr>)"
      "is_found m S (h_hash e, h_key e) old" "same_but_chains m m'"
      "buckets m' (t_length t) (insert h S - set_option old) l'"
    using table_insert_slot [OF assms(1) keyed assms(3) e(1)] by metis
  let ?S = "insert h S - set_option old"
  have fin: "finite S" "S \<subseteq> dom m" "inj_on (ident m) S" "t_elems t = of_nat (card S)" "table_length (t_length t)"
    using assms(1) by (auto simp: table_holds_def)
  have card: "card ?S = (if old = None then Suc (card S) else card S)"
    by (rule card_insert_found [OF fin(1) assms(3) w(5)])
  have inj: "inj_on (ident m) ?S" by (rule inj_on_insert_ident [OF fin(3) w(5) id])
  have dom: "?S \<subseteq> dom m" using fin(2) e(1) by auto
  have holds: "table_holds m'' t'' ?S"
    if "same_but_chains m m''" "table_length (t_length t'')" "buckets m'' (t_length t'') ?S (t_list t'')"
      "t_elems t'' = of_nat (card ?S)" for m'' t''
  proof -
    have "inj_on (ident m'') ?S" using inj same_but_chains_ident [OF that(1)] by (simp add: inj_on_def)
    then show ?thesis
      using that dom same_but_chains_dom [OF that(1)] fin(1) card assms(4) by (simp add: table_holds_def)
  qed
  have run: "HandleTable_Insert m t h =
      (if old = None \<and> t_elems t + 1 > t_length t
       then do { (m, t) \<leftarrow> Resize m' (t\<lparr>t_list := l', t_elems := t_elems t + 1\<rparr>); Some (m, t, old) }
       else Some (m', t\<lparr>t_list := l', t_elems := t_elems t + of_bool (old = None)\<rparr>, old))"
    using e w by (simp add: HandleTable_Insert_def set_next_hash_Some Let_def)
  show ?thesis
  proof (cases "old = None \<and> t_elems t + 1 > t_length t")
    case True
    let ?t = "t\<lparr>t_list := l', t_elems := t_elems t + 1\<rparr>"
    have 1: "buckets m' (t_length ?t) ?S (t_list ?t)" "table_length (t_length ?t)"
      using w(7) fin(5) by simp_all
    have 2: "?S \<subseteq> dom m'" using dom same_but_chains_dom [OF w(6)] by simp
    have 3: "t_elems ?t = of_nat (card ?S)" "card ?S \<le> 2 ^ 31" using card True fin(4) assms(4) by simp_all
    obtain m'' l'' len where r: "Resize m' ?t = Some (m'', ?t\<lparr>t_list := l'', t_length := len\<rparr>)"
        "table_length len" "buckets m'' len ?S l''" "same_but_chains m' m''"
      using Resize_buckets [OF 1 2 3] by blast
    have same: "same_but_chains m m''" by (rule same_but_chains_trans [OF w(6) r(4)])
    have "table_holds m'' (?t\<lparr>t_list := l'', t_length := len\<rparr>) ?S"
      by (rule holds [OF same]) (use r 3(1) in simp_all)
    moreover have "HandleTable_Insert m t h = Some (m'', ?t\<lparr>t_list := l'', t_length := len\<rparr>, old)"
      using run True r(1) by simp
    moreover have "is_found m S (the (ident m h)) old" using w(5) id by simp
    ultimately show ?thesis using same by blast
  next
    case False
    have "table_holds m' (t\<lparr>t_list := l', t_elems := t_elems t + of_bool (old = None)\<rparr>) ?S"
      by (rule holds [OF w(6)]) (use w(7) fin(4,5) card in simp_all)
    moreover have "is_found m S (the (ident m h)) old" using w(5) id by simp
    ultimately show ?thesis using run False w(6) unfolding if_not_P [OF False] by blast
  qed
qed

lemma table_transfer:
  assumes "table_holds m t S"
    and "\<And>a. a \<in> S \<Longrightarrow> \<exists>e e'. m a = Some e \<and> m' a = Some e'
          \<and> h_next_hash e' = h_next_hash e \<and> h_hash e' = h_hash e \<and> h_key e' = h_key e"
  shows "table_holds m' t S"
proof -
  have id: "ident m' a = ident m a" and nh: "map_option h_next_hash (m' a) = map_option h_next_hash (m a)"
    if "a \<in> S" for a
    using assms(2) [OF that] by (auto simp: ident_def)
  have "inj_on (ident m') S" using assms(1) id by (simp add: table_holds_def inj_on_def)
  moreover have "buckets m' (t_length t) S (t_list t)"
    using assms(1) bucket_cong [of m _ S _ _ m', OF _ id nh] by (simp add: table_holds_def buckets_def)
  moreover have "S \<subseteq> dom m'" using assms(2) by blast
  ultimately show ?thesis using assms(1) by (simp add: table_holds_def)
qed

lemma HandleTable_new_holds: "\<exists>t. HandleTable_new m = Some (m, t) \<and> table_holds m t {}"
proof -
  have "grow_length 0 4 = Some 4" by (subst grow_length.simps) simp
  moreover have "table_length 4" unfolding table_length_def by (rule exI [of _ 2]) simp
  moreover have "buckets m 4 {} (replicate 4 None)" using empty_buckets [of m 4] by simp
  ultimately show ?thesis by (simp add: HandleTable_new_def Resize_def table_holds_def)
qed

interpretation ht: handle_table table_holds HandleTable_Lookup HandleTable_Insert HandleTable_Remove
proof
  show "inj_on (ident m) S" "finite S" if "table_holds m t S" for m t S
    using that by (simp_all add: table_holds_def)
qed (fact table_transfer table_lookup table_insert table_remove)+

section \<open>Properties\<close>

text \<open>C40. The hash table is a map from (hash, key) to handles, whatever the hashes and through every
  \<open>Resize\<close>: a new table is empty; \<open>Insert\<close> returns the handle it replaces, if any, and afterwards the
  inserted handle is found and every other key is found as before; \<open>Remove\<close> returns what it removes and
  that is all that disappears.  No search runs out of a chain, no assertion fails, for up to \<open>2 ^ 31\<close>
  handles.\<close>

theorem handle_table_is_a_map:
  assumes "table_holds m t S" and "keyed m (insert h S)" and "h \<notin> S" and "card S < 2 ^ 31"
  shows "(\<exists>t0. HandleTable_new m = Some (m, t0) \<and> table_holds m t0 {})
    \<and> (\<exists>r. HandleTable_Lookup m t key hash = Some r \<and> is_found m S (hash, key) r)
    \<and> (\<exists>m' t' r. HandleTable_Insert m t h = Some (m', t', r) \<and> is_found m S (the (ident m h)) r
          \<and> table_holds m' t' (insert h S - set_option r) \<and> same_but_chains m m')
    \<and> (\<exists>m' t' r. HandleTable_Remove m t key hash = Some (m', t', r) \<and> is_found m S (hash, key) r
          \<and> table_holds m' t' (S - set_option r) \<and> same_but_chains m m')"
proof -
  have "keyed m S" using assms(2) by (simp add: keyed_def)
  then show ?thesis
    using HandleTable_new_holds [of m] ht.lookup [OF assms(1)] ht.insert [OF assms] ht.remove [OF assms(1)]
    by blast
qed

theorem handle_table_is_a_map_witness:
  "\<exists>t0. HandleTable_new [2 \<mapsto> LRUHandle_new 7 0 1 [1] 5] = Some ([2 \<mapsto> LRUHandle_new 7 0 1 [1] 5], t0)
    \<and> (\<exists>m' t'. HandleTable_Insert [2 \<mapsto> LRUHandle_new 7 0 1 [1] 5] t0 2 = Some (m', t', None)
        \<and> table_holds m' t' {2})"
proof -
  let ?m = "[2 \<mapsto> LRUHandle_new 7 0 1 [1] 5] :: hmem"
  obtain t0 where t0: "HandleTable_new ?m = Some (?m, t0)" "table_holds ?m t0 {}"
    using HandleTable_new_holds by blast
  have "keyed ?m {2}" by (simp add: keyed_def LRUHandle_new_def)
  then have "keyed ?m (insert 2 {})" "2 \<notin> ({} :: addr set)" "card ({} :: addr set) < 2 ^ 31" by simp_all
  then obtain m' t' r where r: "HandleTable_Insert ?m t0 2 = Some (m', t', r)"
      "is_found ?m {} (the (ident ?m 2)) r" "table_holds m' t' ({2} - set_option r)"
    using handle_table_is_a_map [OF t0(2), of 2 "[]" 0] by blast
  then have "r = None" by (cases r) (auto simp: is_found_def)
  with r t0(1) show ?thesis by auto
qed

end
