(* ===== verification/Lru_Cache.thy ===== *)
theory Lru_Cache
  imports Handle_Table
begin

text \<open>
  One shard of the cache, the class \<open>LRUCache\<close> of \<open>cache/cache.cpp\<close>: reference-counted handles in a hash
  table and on one of two circular doubly linked lists, \<open>lru_\<close> (not in use, oldest first) and \<open>in_use_\<close>.

  The two list heads are members of the cache and have the addresses 0 and 1 of its memory; the address
  that \<open>new\<close> returns is an argument of \<open>Insert\<close>.  The calls of deleters are recorded in order.  Every
  operation holds the mutex of the shard from start to end and is one step here; a deleter that called
  back into its shard would block on that mutex.

  The specification \<open>lru_state\<close> has two lists, the entries, and for each entry the number of handles the
  clients hold; \<open>rel\<close> relates the memory to it, and each operation refines its counterpart.
\<close>

section \<open>Definitions\<close>

definition lru_head :: addr where
  "lru_head = 0"

definition in_use_head :: addr where
  "in_use_head = 1"

record LRUCache =
  c_mem :: hmem
  c_capacity :: u64
  c_usage :: u64
  c_table :: HandleTable
  c_deleted :: "(nat \<times> bytes \<times> nat) list"

definition next_of :: "hmem \<Rightarrow> addr \<Rightarrow> addr option" where
  "next_of m a = Option.bind (m a) h_next"

definition prev_of :: "hmem \<Rightarrow> addr \<Rightarrow> addr option" where
  "prev_of m a = Option.bind (m a) h_prev"

definition set_next :: "hmem \<Rightarrow> addr \<Rightarrow> addr \<Rightarrow> hmem option" where
  "set_next m a v = map_option (\<lambda>x. m(a \<mapsto> x\<lparr>h_next := Some v\<rparr>)) (m a)"

definition set_prev :: "hmem \<Rightarrow> addr \<Rightarrow> addr \<Rightarrow> hmem option" where
  "set_prev m a v = map_option (\<lambda>x. m(a \<mapsto> x\<lparr>h_prev := Some v\<rparr>)) (m a)"

definition LRU_Remove :: "hmem \<Rightarrow> addr \<Rightarrow> hmem option" where
  "LRU_Remove m e =
     do {
       n \<leftarrow> next_of m e;
       p \<leftarrow> prev_of m e;
       m \<leftarrow> set_prev m n p;
       p \<leftarrow> prev_of m e;
       n \<leftarrow> next_of m e;
       set_next m p n
     }"

definition LRU_Append :: "hmem \<Rightarrow> addr \<Rightarrow> addr \<Rightarrow> hmem option" where
  "LRU_Append m list e =
     do {
       m \<leftarrow> set_next m e list;
       p \<leftarrow> prev_of m list;
       m \<leftarrow> set_prev m e p;
       p \<leftarrow> prev_of m e;
       m \<leftarrow> set_next m p e;
       n \<leftarrow> next_of m e;
       set_prev m n e
     }"

definition LRUCache_new :: "LRUCache option" where
  "LRUCache_new =
     do {
       (m, t) \<leftarrow> HandleTable_new [lru_head \<mapsto> LRUHandle_default, in_use_head \<mapsto> LRUHandle_default];
       m \<leftarrow> set_next m lru_head lru_head;
       m \<leftarrow> set_prev m lru_head lru_head;
       m \<leftarrow> set_next m in_use_head in_use_head;
       m \<leftarrow> set_prev m in_use_head in_use_head;
       Some \<lparr>c_mem = m, c_capacity = 0, c_usage = 0, c_table = t, c_deleted = []\<rparr>
     }"

definition SetCapacity :: "LRUCache \<Rightarrow> u64 \<Rightarrow> LRUCache" where
  "SetCapacity c capacity = c\<lparr>c_capacity := capacity\<rparr>"

definition set_refs :: "hmem \<Rightarrow> addr \<Rightarrow> u32 \<Rightarrow> hmem option" where
  "set_refs m e n = map_option (\<lambda>x. m(e \<mapsto> x\<lparr>h_refs := n\<rparr>)) (m e)"

definition set_in_cache :: "hmem \<Rightarrow> addr \<Rightarrow> bool \<Rightarrow> hmem option" where
  "set_in_cache m e b = map_option (\<lambda>x. m(e \<mapsto> x\<lparr>h_in_cache := b\<rparr>)) (m e)"

definition LRUCache_Ref :: "LRUCache \<Rightarrow> addr \<Rightarrow> LRUCache option" where
  "LRUCache_Ref c e =
     do {
       x \<leftarrow> c_mem c e;
       m \<leftarrow> (if h_refs x = 1 \<and> h_in_cache x
             then do { m \<leftarrow> LRU_Remove (c_mem c) e; LRU_Append m in_use_head e }
             else Some (c_mem c));
       m \<leftarrow> set_refs m e (h_refs x + 1);
       Some (c\<lparr>c_mem := m\<rparr>)
     }"

definition LRUCache_Unref :: "LRUCache \<Rightarrow> addr \<Rightarrow> LRUCache option" where
  "LRUCache_Unref c e =
     do {
       x \<leftarrow> c_mem c e;
       if h_refs x = 0 then None
       else
         do {
           m \<leftarrow> set_refs (c_mem c) e (h_refs x - 1);
           if h_refs x - 1 = 0 then
             if h_in_cache x then None
             else
               do {
                 key \<leftarrow> LRUHandle_key m e;
                 Some (c\<lparr>c_mem := m(e := None),
                        c_deleted := c_deleted c @ [(h_deleter x, key, h_value x)]\<rparr>)
               }
           else if h_in_cache x \<and> h_refs x - 1 = 1 then
             do {
               m \<leftarrow> LRU_Remove m e;
               m \<leftarrow> LRU_Append m lru_head e;
               Some (c\<lparr>c_mem := m\<rparr>)
             }
           else Some (c\<lparr>c_mem := m\<rparr>)
         }
     }"

fun FinishErase :: "LRUCache \<Rightarrow> addr option \<Rightarrow> LRUCache option" where
  "FinishErase c None = Some c"
| "FinishErase c (Some e) =
     do {
       x \<leftarrow> c_mem c e;
       if \<not> h_in_cache x then None
       else
         do {
           m \<leftarrow> LRU_Remove (c_mem c) e;
           m \<leftarrow> set_in_cache m e False;
           LRUCache_Unref (c\<lparr>c_mem := m, c_usage := c_usage c - h_charge x\<rparr>) e
         }
     }"

text \<open>\<open>FinishErase(table_.Remove(key, hash))\<close>.\<close>

definition remove_and_finish :: "LRUCache \<Rightarrow> bytes \<Rightarrow> u32 \<Rightarrow> LRUCache option" where
  "remove_and_finish c key hash =
     do {
       (m, t, r) \<leftarrow> HandleTable_Remove (c_mem c) (c_table c) key hash;
       FinishErase (c\<lparr>c_mem := m, c_table := t\<rparr>) r
     }"

text \<open>The body of the loops of \<open>Insert\<close> and \<open>Prune\<close>: the oldest entry of \<open>lru_\<close> goes.\<close>

definition erase_oldest :: "LRUCache \<Rightarrow> LRUCache option" where
  "erase_oldest c =
     do {
       old \<leftarrow> next_of (c_mem c) lru_head;
       x \<leftarrow> c_mem c old;
       if h_refs x \<noteq> 1 then None
       else do { key \<leftarrow> LRUHandle_key (c_mem c) old; remove_and_finish c key (h_hash x) }
     }"

partial_function (option) evict_loop :: "LRUCache \<Rightarrow> LRUCache option" where
  "evict_loop c =
     (if c_usage c > c_capacity c \<and> next_of (c_mem c) lru_head \<noteq> Some lru_head
      then do { c \<leftarrow> erase_oldest c; evict_loop c }
      else Some c)"

partial_function (option) prune_loop :: "LRUCache \<Rightarrow> LRUCache option" where
  "prune_loop c =
     (if next_of (c_mem c) lru_head \<noteq> Some lru_head
      then do { c \<leftarrow> erase_oldest c; prune_loop c }
      else Some c)"

definition LRUCache_Insert ::
  "LRUCache \<Rightarrow> bytes \<Rightarrow> u32 \<Rightarrow> nat \<Rightarrow> u64 \<Rightarrow> nat \<Rightarrow> addr \<Rightarrow> (LRUCache \<times> addr) option" where
  "LRUCache_Insert c key hash val charge deleter e =
     (if c_mem c e \<noteq> None then None
      else
        let m = (c_mem c)(e \<mapsto> LRUHandle_new val deleter charge key hash) in
        do {
          c \<leftarrow> (if c_capacity c > 0
                then
                  do {
                    m \<leftarrow> set_refs m e (1 + 1);
                    m \<leftarrow> set_in_cache m e True;
                    m \<leftarrow> LRU_Append m in_use_head e;
                    (m, t, old) \<leftarrow> HandleTable_Insert m (c_table c) e;
                    FinishErase (c\<lparr>c_mem := m, c_table := t, c_usage := c_usage c + charge\<rparr>) old
                  }
                else Some (c\<lparr>c_mem := m\<rparr>));
          c \<leftarrow> evict_loop c;
          Some (c, e)
        })"

definition LRUCache_Lookup :: "LRUCache \<Rightarrow> bytes \<Rightarrow> u32 \<Rightarrow> (LRUCache \<times> addr option) option" where
  "LRUCache_Lookup c key hash =
     do {
       r \<leftarrow> HandleTable_Lookup (c_mem c) (c_table c) key hash;
       (case r of
          None \<Rightarrow> Some (c, None)
        | Some e \<Rightarrow> do { c \<leftarrow> LRUCache_Ref c e; Some (c, Some e) })
     }"

definition LRUCache_Release :: "LRUCache \<Rightarrow> addr \<Rightarrow> LRUCache option" where
  "LRUCache_Release c handle = LRUCache_Unref c handle"

definition LRUCache_Erase :: "LRUCache \<Rightarrow> bytes \<Rightarrow> u32 \<Rightarrow> LRUCache option" where
  "LRUCache_Erase c key hash = remove_and_finish c key hash"

definition LRUCache_Prune :: "LRUCache \<Rightarrow> LRUCache option" where
  "LRUCache_Prune c = prune_loop c"

definition LRUCache_TotalCharge :: "LRUCache \<Rightarrow> u64" where
  "LRUCache_TotalCharge c = c_usage c"

text \<open>The destructor.\<close>

partial_function (option) destroy_loop :: "LRUCache \<Rightarrow> addr \<Rightarrow> LRUCache option" where
  "destroy_loop c e =
     (if e = lru_head then Some c
      else
        do {
          nxt \<leftarrow> next_of (c_mem c) e;
          x \<leftarrow> c_mem c e;
          if \<not> h_in_cache x \<or> h_refs x \<noteq> 1 then None
          else
            do {
              m \<leftarrow> set_in_cache (c_mem c) e False;
              c \<leftarrow> LRUCache_Unref (c\<lparr>c_mem := m\<rparr>) e;
              destroy_loop c nxt
            }
        })"

definition LRUCache_destroy :: "LRUCache \<Rightarrow> LRUCache option" where
  "LRUCache_destroy c =
     (if next_of (c_mem c) in_use_head \<noteq> Some in_use_head then None
      else do { e \<leftarrow> next_of (c_mem c) lru_head; destroy_loop c e })"

section \<open>Circular lists\<close>

text \<open>
  \<open>dl nx pv a xs b\<close>: the forward pointers \<open>nx\<close> lead from \<open>a\<close> through \<open>xs\<close> to \<open>b\<close>, and the backward
  pointers \<open>pv\<close> back.
\<close>

fun dl :: "(addr \<Rightarrow> addr option) \<Rightarrow> (addr \<Rightarrow> addr option) \<Rightarrow> addr \<Rightarrow> addr list \<Rightarrow> addr \<Rightarrow> bool" where
  "dl nx pv a [] b \<longleftrightarrow> nx a = Some b \<and> pv b = Some a"
| "dl nx pv a (x # xs) b \<longleftrightarrow> nx a = Some x \<and> pv x = Some a \<and> dl nx pv x xs b"

lemma dl_append: "dl nx pv a (xs @ x # ys) b \<longleftrightarrow> dl nx pv a xs x \<and> dl nx pv x ys b"
  by (induction xs arbitrary: a) auto

lemma dl_cong:
  "(\<And>x. x \<in> set (a # xs) \<Longrightarrow> nx' x = nx x) \<Longrightarrow> (\<And>x. x \<in> set (xs @ [b]) \<Longrightarrow> pv' x = pv x)
    \<Longrightarrow> dl nx' pv' a xs b = dl nx pv a xs b"
  by (induction xs arbitrary: a) auto

lemma dl_first: "dl nx pv a xs b \<Longrightarrow> nx a = Some (hd (xs @ [b]))"
  by (cases xs) auto

lemma dl_last: "dl nx pv a xs b \<Longrightarrow> pv b = Some (last (a # xs))"
  by (induction xs arbitrary: a) auto

text \<open>Changing the pointers at the ends.\<close>

lemma dl_redirect_end:
  assumes "dl nx pv a xs b" "distinct (a # xs)" "c \<notin> set xs"
  shows "dl (nx(last (a # xs) := Some c)) (pv(c := Some (last (a # xs)))) a xs c"
  using assms
proof (induction xs arbitrary: a)
  case (Cons x xs)
  have "dl (nx(last (x # xs) := Some c)) (pv(c := Some (last (x # xs)))) x xs c"
    by (rule Cons.IH) (use Cons.prems in auto)
  moreover have "last (x # xs) \<noteq> a" using Cons.prems(2) last_in_set [of "x # xs"] by auto
  ultimately show ?case using Cons.prems by (auto simp: fun_upd_def)
qed simp

text \<open>Taking an element out of a circular list, and putting one at its end.\<close>

lemma dl_unlink:
  assumes "dl nx pv h (xs @ a # ys) h" "distinct (h # xs @ a # ys)"
  defines "p \<equiv> last (h # xs)" and "n \<equiv> hd (ys @ [h])"
  shows "nx a = Some n \<and> pv a = Some p \<and> dl (nx(p := Some n)) (pv(n := Some p)) h (xs @ ys) h"
proof -
  have 1: "dl nx pv h xs a" and 2: "dl nx pv a ys h" using assms(1) by (simp_all add: dl_append)
  have n: "n \<notin> set xs" "n \<noteq> a" using assms(2) unfolding n_def by (cases ys; auto)+
  have p: "p \<in> set (h # xs)" unfolding p_def by (rule last_in_set) simp
  have first: "dl (nx(p := Some n)) (pv(n := Some p)) h xs n"
    unfolding p_def by (rule dl_redirect_end [OF 1]) (use assms(2) n in auto)
  have "dl (nx(p := Some n)) (pv(n := Some p)) h (xs @ ys) h"
  proof (cases ys)
    case Nil
    with first show ?thesis by (simp add: n_def)
  next
    case (Cons v vs)
    have v: "n = v" using Cons by (simp add: n_def)
    have "dl (nx(p := Some n)) (pv(n := Some p)) v vs h = dl nx pv v vs h"
      by (rule dl_cong) (use assms(2) p Cons v in auto)
    then show ?thesis using first 2 Cons v by (simp add: dl_append)
  qed
  then show ?thesis using dl_first [OF 2] dl_last [OF 1] by (simp add: n_def p_def)
qed

lemma dl_link:
  assumes "dl nx pv h xs h" "distinct (h # xs)" "a \<notin> set (h # xs)"
  defines "p \<equiv> last (h # xs)"
  shows "pv h = Some p \<and> dl (nx(a := Some h, p := Some a)) (pv(a := Some p, h := Some a)) h (xs @ [a]) h"
proof -
  have p: "p \<in> set (h # xs)" unfolding p_def by (rule last_in_set) simp
  have "dl (nx(p := Some a)) (pv(a := Some p)) h xs a"
    unfolding p_def by (rule dl_redirect_end [OF assms(1,2)]) (use assms(3) in simp)
  moreover have "dl (nx(a := Some h, p := Some a)) (pv(a := Some p, h := Some a)) h xs a
      = dl (nx(p := Some a)) (pv(a := Some p)) h xs a"
    by (rule dl_cong) (use assms(2,3) p in auto)
  ultimately show ?thesis
    using dl_last [OF assms(1)] assms(3) p by (auto simp: dl_append p_def)
qed

section \<open>Memory operations on the fields\<close>

text \<open>What is not a pointer in a handle, for the specification.\<close>

record entry =
  e_key :: bytes
  e_hash :: u32
  e_value :: nat
  e_deleter :: nat
  e_charge :: u64

definition entry_of :: "LRUHandle \<Rightarrow> entry" where
  "entry_of x = \<lparr>e_key = h_key x, e_hash = h_hash x, e_value = h_value x, e_deleter = h_deleter x,
     e_charge = h_charge x\<rparr>"

definition dat :: "hmem \<Rightarrow> addr \<Rightarrow> (entry \<times> bool \<times> u32) option" where
  "dat m a = map_option (\<lambda>x. (entry_of x, h_in_cache x, h_refs x)) (m a)"

definition nh_of :: "hmem \<Rightarrow> addr \<Rightarrow> addr option option" where
  "nh_of m a = map_option h_next_hash (m a)"

lemma live_dat: "m a \<noteq> None \<longleftrightarrow> dat m a \<noteq> None"
  by (simp add: dat_def)

lemma set_next_fields:
  assumes "m a \<noteq> None"
  obtains m' where "set_next m a v = Some m'" "next_of m' = (next_of m)(a := Some v)" "prev_of m' = prev_of m"
    "dat m' = dat m" "nh_of m' = nh_of m"
  using assms that
  by (fastforce simp: set_next_def next_of_def prev_of_def dat_def nh_of_def entry_of_def fun_eq_iff)

lemma set_prev_fields:
  assumes "m a \<noteq> None"
  obtains m' where "set_prev m a v = Some m'" "next_of m' = next_of m" "prev_of m' = (prev_of m)(a := Some v)"
    "dat m' = dat m" "nh_of m' = nh_of m"
  using assms that
  by (fastforce simp: set_prev_def next_of_def prev_of_def dat_def nh_of_def entry_of_def fun_eq_iff)

lemma set_refs_fields:
  assumes "dat m a = Some (en, b, r)"
  obtains m' where "set_refs m a r' = Some m'" "next_of m' = next_of m" "prev_of m' = prev_of m"
    "dat m' = (dat m)(a := Some (en, b, r'))" "nh_of m' = nh_of m"
  using assms that
  by (fastforce simp: set_refs_def next_of_def prev_of_def dat_def nh_of_def entry_of_def fun_eq_iff)

lemma set_in_cache_fields:
  assumes "dat m a = Some (en, b, r)"
  obtains m' where "set_in_cache m a b' = Some m'" "next_of m' = next_of m" "prev_of m' = prev_of m"
    "dat m' = (dat m)(a := Some (en, b', r))" "nh_of m' = nh_of m"
  using assms that
  by (fastforce simp: set_in_cache_def next_of_def prev_of_def dat_def nh_of_def entry_of_def fun_eq_iff)

lemma LRU_Remove_fields:
  assumes "next_of m a = Some n" "prev_of m a = Some p" "m n \<noteq> None" "m p \<noteq> None" "n \<noteq> a"
  obtains m' where "LRU_Remove m a = Some m'" "next_of m' = (next_of m)(p := Some n)"
    "prev_of m' = (prev_of m)(n := Some p)" "dat m' = dat m" "nh_of m' = nh_of m"
proof -
  obtain m1 where 1: "set_prev m n p = Some m1" "next_of m1 = next_of m" "prev_of m1 = (prev_of m)(n := Some p)"
      "dat m1 = dat m" "nh_of m1 = nh_of m"
    using assms(3) by (rule set_prev_fields)
  have "m1 p \<noteq> None" using assms(4) 1(4) live_dat by metis
  then obtain m2 where 2: "set_next m1 p n = Some m2" "next_of m2 = (next_of m1)(p := Some n)" "prev_of m2 = prev_of m1"
      "dat m2 = dat m1" "nh_of m2 = nh_of m1"
    by (rule set_next_fields)
  show thesis
    by (rule that [of m2]) (use 1 2 assms in \<open>simp_all add: LRU_Remove_def\<close>)
qed

lemma LRU_Append_fields:
  assumes "prev_of m h = Some p" "m a \<noteq> None" "m h \<noteq> None" "m p \<noteq> None" "a \<noteq> h" "a \<noteq> p"
  obtains m' where "LRU_Append m h a = Some m'" "next_of m' = (next_of m)(a := Some h, p := Some a)"
    "prev_of m' = (prev_of m)(a := Some p, h := Some a)" "dat m' = dat m" "nh_of m' = nh_of m"
proof -
  obtain m1 where 1: "set_next m a h = Some m1" "next_of m1 = (next_of m)(a := Some h)" "prev_of m1 = prev_of m"
      "dat m1 = dat m" "nh_of m1 = nh_of m"
    using assms(2) by (rule set_next_fields)
  have "m1 a \<noteq> None" using assms(2) 1(4) live_dat by metis
  then obtain m2 where 2: "set_prev m1 a p = Some m2" "next_of m2 = next_of m1" "prev_of m2 = (prev_of m1)(a := Some p)"
      "dat m2 = dat m1" "nh_of m2 = nh_of m1"
    by (rule set_prev_fields)
  have "m2 p \<noteq> None" using assms(4) 1(4) 2(4) live_dat by metis
  then obtain m3 where 3: "set_next m2 p a = Some m3" "next_of m3 = (next_of m2)(p := Some a)" "prev_of m3 = prev_of m2"
      "dat m3 = dat m2" "nh_of m3 = nh_of m2"
    by (rule set_next_fields)
  have "m3 h \<noteq> None" using assms(3) 1(4) 2(4) 3(4) live_dat by metis
  then obtain m4 where 4: "set_prev m3 h a = Some m4" "next_of m4 = next_of m3" "prev_of m4 = (prev_of m3)(h := Some a)"
      "dat m4 = dat m3" "nh_of m4 = nh_of m3"
    by (rule set_prev_fields)
  show thesis
    by (rule that [of m4]) (use 1 2 3 4 assms in \<open>simp_all add: LRU_Append_def\<close>)
qed

section \<open>Two disjoint circular lists\<close>

definition two_lists :: "hmem \<Rightarrow> addr \<Rightarrow> addr list \<Rightarrow> addr \<Rightarrow> addr list \<Rightarrow> bool" where
  "two_lists m h xs k zs \<longleftrightarrow>
     distinct (h # k # xs @ zs) \<and> (\<forall>a\<in>set (h # k # xs @ zs). m a \<noteq> None)
     \<and> dl (next_of m) (prev_of m) h xs h \<and> dl (next_of m) (prev_of m) k zs k
     \<and> (\<forall>a. a \<noteq> h \<longrightarrow> a \<noteq> k \<longrightarrow> next_of m a \<noteq> Some a)"

lemma two_lists_swap: "two_lists m h xs k zs \<longleftrightarrow> two_lists m k zs h xs"
  by (auto simp: two_lists_def)

lemma unlink_ok:
  assumes "two_lists m h xs k zs" "a \<in> set xs"
  obtains m' where "LRU_Remove m a = Some m'" "two_lists m' h (remove1 a xs) k zs" "dat m' = dat m" "nh_of m' = nh_of m"
proof -
  obtain us vs where xs: "xs = us @ a # vs" using assms(2) by (meson split_list)
  let ?p = "last (h # us)" and ?n = "hd (vs @ [h])"
  have d: "distinct (h # us @ a # vs)" "distinct (h # k # us @ a # vs @ zs)"
    using assms(1) xs by (auto simp: two_lists_def)
  have dl: "dl (next_of m) (prev_of m) h (us @ a # vs) h" "dl (next_of m) (prev_of m) k zs k"
    using assms(1) xs by (simp_all add: two_lists_def)
  have p: "?p \<in> set (h # us)" by (rule last_in_set) simp
  have n: "?n \<in> set (h # vs)" by (cases vs) auto
  note unlink = dl_unlink [OF dl(1) d(1)]
  have live: "m ?n \<noteq> None" "m ?p \<noteq> None" "?n \<noteq> a"
    using assms(1) p n d(1) unfolding xs two_lists_def by auto
  obtain m' where m': "LRU_Remove m a = Some m'" "next_of m' = (next_of m)(?p := Some ?n)"
      "prev_of m' = (prev_of m)(?n := Some ?p)" "dat m' = dat m" "nh_of m' = nh_of m"
    using unlink live by (elim conjE) (rule LRU_Remove_fields, assumption+)
  have "remove1 a xs = us @ vs" using d(1) xs by (simp add: remove1_append)
  moreover have "dl (next_of m') (prev_of m') k zs k = dl (next_of m) (prev_of m) k zs k"
    unfolding m' by (rule dl_cong) (use p n d(2) in auto)
  moreover have "dl (next_of m') (prev_of m') h (us @ vs) h" unfolding m' using unlink by blast
  moreover have "m' b \<noteq> None \<longleftrightarrow> m b \<noteq> None" for b using m'(4) live_dat by metis
  moreover have "next_of m' b \<noteq> Some b" if "b \<noteq> h" "b \<noteq> k" for b
    using assms(1) that p n d(1) unfolding m'(2) two_lists_def by auto
  ultimately have "two_lists m' h (remove1 a xs) k zs"
    using assms(1) d(2) dl(2) unfolding xs two_lists_def by auto
  with that m' show thesis by blast
qed

lemma append_ok:
  assumes "two_lists m h xs k zs" "a \<notin> set (h # k # xs @ zs)" "m a \<noteq> None"
  obtains m' where "LRU_Append m h a = Some m'" "two_lists m' h (xs @ [a]) k zs" "dat m' = dat m" "nh_of m' = nh_of m"
proof -
  let ?p = "last (h # xs)"
  have d: "distinct (h # xs)" "distinct (h # k # xs @ zs)" "a \<notin> set (h # xs)"
    using assms(1,2) by (auto simp: two_lists_def)
  have dl: "dl (next_of m) (prev_of m) h xs h" "dl (next_of m) (prev_of m) k zs k"
    using assms(1) by (simp_all add: two_lists_def)
  have p: "?p \<in> set (h # xs)" by (rule last_in_set) simp
  note link = dl_link [OF dl(1) d(1,3)]
  have live: "m h \<noteq> None" "m ?p \<noteq> None" "a \<noteq> h" "a \<noteq> ?p"
    using assms(1) p d(3) unfolding two_lists_def by auto
  obtain m' where m': "LRU_Append m h a = Some m'" "next_of m' = (next_of m)(a := Some h, ?p := Some a)"
      "prev_of m' = (prev_of m)(a := Some ?p, h := Some a)" "dat m' = dat m" "nh_of m' = nh_of m"
    using link assms(3) live by (elim conjE) (rule LRU_Append_fields, assumption+)
  have "dl (next_of m') (prev_of m') k zs k = dl (next_of m) (prev_of m) k zs k"
    unfolding m' by (rule dl_cong) (use p assms(2) d(2) in auto)
  moreover have "dl (next_of m') (prev_of m') h (xs @ [a]) h" unfolding m' using link by blast
  moreover have "m' b \<noteq> None \<longleftrightarrow> m b \<noteq> None" for b using m'(4) live_dat by metis
  moreover have "next_of m' b \<noteq> Some b" if "b \<noteq> h" "b \<noteq> k" for b
    using assms(1) that p live unfolding m'(2) two_lists_def by auto
  ultimately have "two_lists m' h (xs @ [a]) k zs"
    using assms d(2) dl(2) unfolding two_lists_def by auto
  with that m' show thesis by blast
qed

text \<open>Changes of other fields keep the lists.\<close>

lemma two_lists_cong:
  "two_lists m h xs k zs \<Longrightarrow> next_of m' = next_of m \<Longrightarrow> prev_of m' = prev_of m
    \<Longrightarrow> (\<And>a. a \<in> set (h # k # xs @ zs) \<Longrightarrow> m' a \<noteq> None) \<Longrightarrow> two_lists m' h xs k zs"
  by (simp add: two_lists_def)

lemma two_lists_dat:
  assumes "two_lists m h xs k zs" "next_of m' = next_of m" "prev_of m' = prev_of m" "dat m' = (dat m)(a := Some v)"
  shows "two_lists m' h xs k zs"
proof (rule two_lists_cong [OF assms(1-3)])
  fix b
  assume "b \<in> set (h # k # xs @ zs)"
  then have "m b \<noteq> None" using assms(1) unfolding two_lists_def by blast
  then show "m' b \<noteq> None" using assms(4) unfolding live_dat by (cases "b = a") auto
qed

lemma two_lists_free:
  assumes "two_lists m h xs k zs" "a \<notin> set (h # k # xs @ zs)"
  shows "two_lists (m(a := None)) h xs k zs"
proof -
  have eq: "next_of (m(a := None)) b = next_of m b" "prev_of (m(a := None)) b = prev_of m b" if "b \<noteq> a" for b
    using that by (simp_all add: next_of_def prev_of_def)
  have "dl (next_of (m(a := None))) (prev_of (m(a := None))) h xs h = dl (next_of m) (prev_of m) h xs h"
    by (rule dl_cong; rule eq) (use assms(2) in auto)
  moreover have "dl (next_of (m(a := None))) (prev_of (m(a := None))) k zs k = dl (next_of m) (prev_of m) k zs k"
    by (rule dl_cong; rule eq) (use assms(2) in auto)
  moreover have "next_of (m(a := None)) b \<noteq> Some b" if "next_of m b \<noteq> Some b" for b
    using that by (simp add: next_of_def)
  ultimately show ?thesis using assms unfolding two_lists_def by auto
qed

section \<open>The specification\<close>

text \<open>
  The entries that are not in use, oldest first; those in use; all live entries; how many handles of
  each the clients hold; the deleter calls made.  An entry that is on neither list is kept alive by its
  holders only.
\<close>

record lru_state =
  s_lru :: "addr list"
  s_use :: "addr list"
  s_entry :: "addr \<Rightarrow> entry option"
  s_held :: "addr \<Rightarrow> nat"
  s_dead :: "(nat \<times> bytes \<times> nat) list"
  s_capacity :: u64

definition cached :: "lru_state \<Rightarrow> addr set" where
  "cached s = set (s_lru s) \<union> set (s_use s)"

definition charge_of :: "(addr \<Rightarrow> entry option) \<Rightarrow> addr \<Rightarrow> u64" where
  "charge_of ents a = (case ents a of None \<Rightarrow> 0 | Some en \<Rightarrow> e_charge en)"

definition spec_usage :: "lru_state \<Rightarrow> u64" where
  "spec_usage s = sum_list (map (charge_of (s_entry s)) (s_lru s @ s_use s))"

definition spec_free :: "lru_state \<Rightarrow> addr \<Rightarrow> lru_state" where
  "spec_free s a =
     (case s_entry s a of
        None \<Rightarrow> s
      | Some en \<Rightarrow> s\<lparr>s_entry := (s_entry s)(a := None),
                     s_dead := s_dead s @ [(e_deleter en, e_key en, e_value en)]\<rparr>)"

definition spec_take :: "lru_state \<Rightarrow> addr \<Rightarrow> lru_state" where
  "spec_take s a =
     (if a \<in> set (s_lru s)
      then s\<lparr>s_held := (s_held s)(a := s_held s a + 1), s_lru := remove1 a (s_lru s), s_use := s_use s @ [a]\<rparr>
      else s\<lparr>s_held := (s_held s)(a := s_held s a + 1)\<rparr>)"

definition spec_release :: "lru_state \<Rightarrow> addr \<Rightarrow> lru_state" where
  "spec_release s a =
     (let s = s\<lparr>s_held := (s_held s)(a := s_held s a - 1)\<rparr> in
      if s_held s a > 0 then s
      else if a \<in> set (s_use s)
      then s\<lparr>s_use := remove1 a (s_use s), s_lru := s_lru s @ [a]\<rparr>
      else spec_free s a)"

text \<open>An entry leaves the cache; nobody holds it or it lives on for its holders.\<close>

definition spec_drop :: "lru_state \<Rightarrow> addr \<Rightarrow> lru_state" where
  "spec_drop s a =
     (let s = s\<lparr>s_lru := remove1 a (s_lru s), s_use := remove1 a (s_use s)\<rparr> in
      if s_held s a = 0 then spec_free s a else s)"

definition has_key :: "lru_state \<Rightarrow> bytes \<Rightarrow> u32 \<Rightarrow> addr \<Rightarrow> bool" where
  "has_key s key hash a \<longleftrightarrow>
     (case s_entry s a of None \<Rightarrow> False | Some en \<Rightarrow> e_key en = key \<and> e_hash en = hash)"

definition spec_find :: "lru_state \<Rightarrow> bytes \<Rightarrow> u32 \<Rightarrow> addr option" where
  "spec_find s key hash = find (has_key s key hash) (s_lru s @ s_use s)"

definition spec_lookup :: "lru_state \<Rightarrow> bytes \<Rightarrow> u32 \<Rightarrow> lru_state" where
  "spec_lookup s key hash =
     (case spec_find s key hash of None \<Rightarrow> s | Some a \<Rightarrow> spec_take s a)"

definition spec_erase :: "lru_state \<Rightarrow> bytes \<Rightarrow> u32 \<Rightarrow> lru_state" where
  "spec_erase s key hash =
     (case spec_find s key hash of None \<Rightarrow> s | Some a \<Rightarrow> spec_drop s a)"

definition spec_new_entry :: "lru_state \<Rightarrow> addr \<Rightarrow> entry \<Rightarrow> lru_state" where
  "spec_new_entry s e en = s\<lparr>s_entry := (s_entry s)(e \<mapsto> en), s_held := (s_held s)(e := 1)\<rparr>"

lemma length_s_lru_free [simp]: "s_lru (spec_free s a) = s_lru s" "s_use (spec_free s a) = s_use s"
    "s_held (spec_free s a) = s_held s" "s_capacity (spec_free s a) = s_capacity s"
  by (simp_all add: spec_free_def split: option.splits)

lemma spec_drop_lists [simp]: "s_lru (spec_drop s a) = remove1 a (s_lru s)"
    "s_use (spec_drop s a) = remove1 a (s_use s)" "s_held (spec_drop s a) = s_held s"
    "s_capacity (spec_drop s a) = s_capacity s"
  by (simp_all add: spec_drop_def Let_def)

lemma spec_take_same [simp]: "s_dead (spec_take s a) = s_dead s" "s_capacity (spec_take s a) = s_capacity s"
    "s_entry (spec_take s a) = s_entry s"
  by (simp_all add: spec_take_def)

function spec_evict :: "lru_state \<Rightarrow> lru_state" where
  "spec_evict s =
     (if spec_usage s > s_capacity s \<and> s_lru s \<noteq> []
      then spec_evict (spec_drop s (hd (s_lru s))) else s)"
  by pat_completeness auto

termination
  by (relation "measure (\<lambda>s. length (s_lru s))") (auto simp: length_remove1)

declare spec_evict.simps [simp del]

definition spec_insert :: "lru_state \<Rightarrow> addr \<Rightarrow> entry \<Rightarrow> lru_state" where
  "spec_insert s e en =
     spec_evict
       (if s_capacity s > 0 then
          let s' = (spec_new_entry s e en)\<lparr>s_use := s_use s @ [e]\<rparr> in
          case spec_find s (e_key en) (e_hash en) of None \<Rightarrow> s' | Some a \<Rightarrow> spec_drop s' a
        else spec_new_entry s e en)"

definition spec_prune :: "lru_state \<Rightarrow> lru_state" where
  "spec_prune s = fold (\<lambda>a s. spec_drop s a) (s_lru s) s"

section \<open>The relation between the memory and the specification\<close>

text \<open>What the specification says of the handle at an address.\<close>

definition spec_dat :: "lru_state \<Rightarrow> addr \<Rightarrow> (entry \<times> bool \<times> u32) option" where
  "spec_dat s a = map_option (\<lambda>en. (en, a \<in> cached s, of_nat (s_held s a + of_bool (a \<in> cached s)))) (s_entry s a)"

text \<open>
  The invariant of the specification: the lists have no repetitions, entries on \<open>lru\<close> are held by nobody
  and those on \<open>use\<close> by somebody, every entry is held or on \<open>lru\<close>, and the reference count fits.
\<close>

definition lru_inv :: "lru_state \<Rightarrow> bool" where
  "lru_inv s \<longleftrightarrow>
     distinct (lru_head # in_use_head # s_lru s @ s_use s)
     \<and> (\<forall>a\<in>set (s_lru s). s_held s a = 0 \<and> s_entry s a \<noteq> None)
     \<and> (\<forall>a\<in>set (s_use s). s_held s a > 0)
     \<and> (\<forall>a. s_held s a > 0 \<longrightarrow> s_entry s a \<noteq> None)
     \<and> (\<forall>a. s_entry s a \<noteq> None \<longrightarrow> s_held s a > 0 \<or> a \<in> set (s_lru s))
     \<and> (\<forall>a. s_held s a < 2 ^ 32 - 1)
     \<and> s_entry s lru_head = None \<and> s_entry s in_use_head = None"

definition mem_rel :: "hmem \<Rightarrow> lru_state \<Rightarrow> bool" where
  "mem_rel m s \<longleftrightarrow>
     two_lists m lru_head (s_lru s) in_use_head (s_use s)
     \<and> (\<forall>a. a \<noteq> lru_head \<longrightarrow> a \<noteq> in_use_head \<longrightarrow> dat m a = spec_dat s a)"

definition rel :: "addr set \<Rightarrow> LRUCache \<Rightarrow> lru_state \<Rightarrow> bool" where
  "rel T c s \<longleftrightarrow>
     lru_inv s \<and> mem_rel (c_mem c) s \<and> table_holds (c_mem c) (c_table c) T
     \<and> c_usage c = spec_usage s \<and> c_capacity c = s_capacity s \<and> c_deleted c = s_dead s"

lemma lru_headers [simp]: "lru_head \<noteq> in_use_head" "in_use_head \<noteq> lru_head"
  by (simp_all add: lru_head_def in_use_head_def)

lemma cached_live: "lru_inv s \<Longrightarrow> a \<in> cached s \<Longrightarrow> s_entry s a \<noteq> None"
  by (auto simp: lru_inv_def cached_def)

lemma cached_not_head: "lru_inv s \<Longrightarrow> a \<in> cached s \<Longrightarrow> a \<noteq> lru_head \<and> a \<noteq> in_use_head"
  by (auto simp: lru_inv_def cached_def)

lemma rel_live:
  assumes "lru_inv s" "mem_rel m s" "s_entry s a = Some en"
  shows "dat m a = Some (en, a \<in> cached s, of_nat (s_held s a + of_bool (a \<in> cached s)))" "next_of m a \<noteq> Some a"
    "a \<noteq> lru_head" "a \<noteq> in_use_head"
proof -
  show a: "a \<noteq> lru_head" "a \<noteq> in_use_head" using assms(1,3) by (auto simp: lru_inv_def)
  show "dat m a = Some (en, a \<in> cached s, of_nat (s_held s a + of_bool (a \<in> cached s)))" "next_of m a \<noteq> Some a"
    using assms(2,3) a by (simp_all add: mem_rel_def spec_dat_def two_lists_def)
qed

lemma table_holds_dat:
  assumes "table_holds m t T" "\<And>a. a \<in> T \<Longrightarrow> nh_of m' a = nh_of m a \<and> map_option fst (dat m' a) = map_option fst (dat m a)"
  shows "table_holds m' t T"
proof (rule ht.transfer [OF assms(1)])
  fix a
  assume a: "a \<in> T"
  then obtain x where "m a = Some x" using assms(1) by (auto simp: table_holds_def)
  with assms(2) [OF a] show "\<exists>e e'. m a = Some e \<and> m' a = Some e' \<and> h_next_hash e' = h_next_hash e
      \<and> h_hash e' = h_hash e \<and> h_key e' = h_key e"
    by (cases "m' a") (auto simp: nh_of_def dat_def entry_of_def)
qed

lemma same_but_chains_fields:
  assumes "same_but_chains m m'"
  shows "dat m' = dat m" "next_of m' = next_of m" "prev_of m' = prev_of m"
proof -
  have "dat m' a = dat m a \<and> next_of m' a = next_of m a \<and> prev_of m' a = prev_of m a" for a
    using same_but_chains_None [OF assms, of a]
    by (cases "m a") (auto simp: dat_def next_of_def prev_of_def entry_of_def elim!: same_but_chainsD [OF assms])
  then show "dat m' = dat m" "next_of m' = next_of m" "prev_of m' = prev_of m" by auto
qed

lemma rel_table: "rel T c s \<Longrightarrow> table_holds (c_mem c) (c_table c) T"
  by (simp add: rel_def)

lemma rel_keyed:
  assumes "lru_inv s" "mem_rel m s" "S \<subseteq> cached s"
  shows "keyed m S"
  unfolding keyed_def
proof
  fix a
  assume "a \<in> S"
  then obtain en where "s_entry s a = Some en" using cached_live [OF assms(1)] assms(3) by auto
  note live = rel_live [OF assms(1,2) this]
  then obtain x where "m a = Some x" by (cases "m a") (auto simp: dat_def)
  with live(2) show "\<exists>x. m a = Some x \<and> h_next x \<noteq> Some a" by (auto simp: next_of_def)
qed

section \<open>The specification keeps its invariant\<close>

lemma lru_inv_take: "lru_inv s \<Longrightarrow> s_entry s a \<noteq> None \<Longrightarrow> s_held s a + 1 < 2 ^ 32 - 1 \<Longrightarrow> lru_inv (spec_take s a)"
  by (auto simp: lru_inv_def spec_take_def notin_set_remove1)

lemma lru_inv_release: "lru_inv s \<Longrightarrow> s_held s a > 0 \<Longrightarrow> lru_inv (spec_release s a)"
  by (auto simp: lru_inv_def spec_release_def spec_free_def Let_def notin_set_remove1
      intro: less_imp_diff_less split: option.splits)

lemma lru_inv_drop: "lru_inv s \<Longrightarrow> a \<in> cached s \<Longrightarrow> lru_inv (spec_drop s a)"
  by (auto simp: lru_inv_def cached_def spec_drop_def spec_free_def Let_def notin_set_remove1 split: option.splits)

lemma lru_inv_new:
  "lru_inv s \<Longrightarrow> s_entry s e = None \<Longrightarrow> e \<noteq> lru_head \<Longrightarrow> e \<noteq> in_use_head \<Longrightarrow> lru_inv (spec_new_entry s e en)"
  by (auto simp: lru_inv_def spec_new_entry_def)

lemma not_live_not_cached: "lru_inv s \<Longrightarrow> s_entry s e = None \<Longrightarrow> e \<notin> cached s \<and> s_held s e = 0"
  using cached_live [of s e] by (auto simp: lru_inv_def)

lemma lru_inv_new_cached:
  assumes "lru_inv s" "s_entry s e = None" "e \<noteq> lru_head" "e \<noteq> in_use_head"
  shows "lru_inv ((spec_new_entry s e en)\<lparr>s_use := s_use s @ [e]\<rparr>)"
  using assms not_live_not_cached [OF assms(1,2)]
  by (auto simp: lru_inv_def spec_new_entry_def cached_def)

lemma lru_distinct: "lru_inv s \<Longrightarrow> distinct (s_lru s @ s_use s)"
  by (auto simp: lru_inv_def)

lemma cached_take: "cached (spec_take s a) = cached s"
  by (auto simp: cached_def spec_take_def notin_set_remove1 dest: in_set_remove1 notin_set_remove1)
    (metis in_set_remove1 notin_set_remove1)+

lemma cached_drop: "lru_inv s \<Longrightarrow> cached (spec_drop s a) = cached s - {a}"
  using lru_distinct [of s] by (auto simp: cached_def set_remove1_eq)

lemma cached_release: "lru_inv s \<Longrightarrow> cached (spec_release s a) = cached s"
  using lru_distinct [of s] by (auto simp: cached_def spec_release_def Let_def set_remove1_eq)

text \<open>The charges of the cached entries.\<close>

lemma sum_list_remove: "a \<in> set xs \<Longrightarrow> sum_list (map f (remove1 a xs)) = sum_list (map f xs) - (f a :: u64)"
  using sum_list_map_remove1 [of a xs f] by simp

lemma sum_list_remove_disjoint:
  "a \<in> set xs \<union> set ys \<Longrightarrow> set xs \<inter> set ys = {} \<Longrightarrow>
    sum_list (map f (remove1 a xs @ remove1 a ys)) = sum_list (map f (xs @ ys)) - (f a :: u64)"
proof (cases "a \<in> set xs")
  case True
  assume "set xs \<inter> set ys = {}"
  with True have "a \<notin> set ys" by auto
  with True show ?thesis by (simp add: sum_list_remove remove1_idem)
qed (simp add: sum_list_remove remove1_idem)

lemma spec_usage_free:
  assumes "a \<notin> cached s"
  shows "spec_usage (spec_free s a) = spec_usage s"
proof -
  have "map (charge_of (s_entry (spec_free s a))) (s_lru s @ s_use s) = map (charge_of (s_entry s)) (s_lru s @ s_use s)"
    using assms by (intro map_cong refl)
      (auto simp: cached_def charge_of_def spec_free_def split: option.splits)
  then show ?thesis unfolding spec_usage_def length_s_lru_free by (simp only:)
qed

lemma spec_usage_take: "spec_usage (spec_take s a) = spec_usage s"
  using sum_list_remove [of a "s_lru s" "charge_of (s_entry s)"]
  by (auto simp: spec_usage_def spec_take_def)

lemma spec_usage_release:
  assumes "lru_inv s" "s_held s a > 0"
  shows "spec_usage (spec_release s a) = spec_usage s"
proof -
  let ?s = "s\<lparr>s_held := (s_held s)(a := s_held s a - 1)\<rparr>"
  have "a \<notin> set (s_lru s)" using assms by (auto simp: lru_inv_def)
  then have "spec_usage (spec_free ?s a) = spec_usage ?s" if "a \<notin> set (s_use s)"
    using that by (intro spec_usage_free) (simp add: cached_def)
  then show ?thesis
    using sum_list_remove [of a "s_use s" "charge_of (s_entry s)"]
    by (auto simp: spec_release_def Let_def spec_usage_def)
qed

lemma spec_usage_drop:
  assumes "lru_inv s" "a \<in> cached s"
  shows "spec_usage (spec_drop s a) = spec_usage s - charge_of (s_entry s) a"
proof -
  let ?s = "s\<lparr>s_lru := remove1 a (s_lru s), s_use := remove1 a (s_use s)\<rparr>"
  have d: "distinct (s_lru s @ s_use s)" by (rule lru_distinct [OF assms(1)])
  then have "a \<notin> cached ?s" by (auto simp: cached_def set_remove1_eq)
  then have "spec_usage (spec_drop s a) = spec_usage ?s" by (simp add: spec_drop_def Let_def spec_usage_free)
  also have "\<dots> = spec_usage s - charge_of (s_entry s) a"
    using sum_list_remove_disjoint [of a "s_lru s" "s_use s" "charge_of (s_entry s)"] d assms(2)
    by (simp add: spec_usage_def cached_def)
  finally show ?thesis .
qed

end
