(* ===== verification/Lru_Refine.thy ===== *)
theory Lru_Refine
  imports Lru_Cache
begin

text \<open>
  The operations of \<open>LRUCache\<close> refine their specification: on a memory that represents a state they
  return, and the memory they leave represents the state of the specification.  The lemma \<open>rel_step\<close>
  carries the proofs; the table enters through the laws of its interface (\<open>ht\<close>).
\<close>

section \<open>The operations refine the specification\<close>

text \<open>A step that changes what is stored at one address, and the lists.\<close>

lemma rel_step:
  assumes "rel T c s" "lru_inv s'" "two_lists m' lru_head (s_lru s') in_use_head (s_use s')"
    and "\<And>b. b \<noteq> a \<Longrightarrow> dat m' b = dat (c_mem c) b" "dat m' a = spec_dat s' a"
    and "\<And>b. b \<noteq> a \<Longrightarrow> spec_dat s' b = spec_dat s b"
    and "\<And>b. b \<in> T \<Longrightarrow> nh_of m' b = nh_of (c_mem c) b"
    and "a \<in> T \<Longrightarrow> map_option fst (dat m' a) = map_option fst (dat (c_mem c) a)"
    and "s_capacity s' = s_capacity s" "c_mem c' = m'" "c_table c' = c_table c" "c_capacity c' = c_capacity c"
    and "c_usage c' = spec_usage s'" "c_deleted c' = s_dead s'"
  shows "rel T c' s'"
proof -
  have "dat m' b = spec_dat s' b" if "b \<noteq> lru_head" "b \<noteq> in_use_head" for b
    using assms(1,4-6) that by (cases "b = a") (auto simp: rel_def mem_rel_def)
  moreover have "table_holds m' (c_table c) T"
    by (rule table_holds_dat [OF rel_table [OF assms(1)]]) (use assms(4,7,8) in metis)
  ultimately show ?thesis using assms(1-3,9-14) by (simp add: rel_def mem_rel_def)
qed

lemma unat_of_nat32: "n < 2 ^ 32 \<Longrightarrow> unat (of_nat n :: u32) = n"
  by (simp add: unat_of_nat)

lemma of_nat_unat32: "unat r = n \<Longrightarrow> r = (of_nat n :: u32)"
  by auto

lemma rel_cell:
  assumes "rel T c s" "s_entry s a = Some en"
  obtains x where "c_mem c a = Some x" "entry_of x = en" "h_in_cache x \<longleftrightarrow> a \<in> cached s"
    "unat (h_refs x) = s_held s a + of_bool (a \<in> cached s)" "h_next x \<noteq> Some a"
    "dat (c_mem c) a = Some (en, a \<in> cached s, h_refs x)" "a \<noteq> lru_head" "a \<noteq> in_use_head"
proof -
  have inv: "lru_inv s" "mem_rel (c_mem c) s" using assms(1) by (simp_all add: rel_def)
  note live = rel_live [OF inv assms(2)]
  then obtain x where x: "c_mem c a = Some x" by (cases "c_mem c a") (auto simp: dat_def)
  have bound: "s_held s a + of_bool (a \<in> cached s) < 2 ^ 32"
    using inv(1) unfolding lru_inv_def by (cases "a \<in> cached s") (auto simp: less_diff_conv intro: less_trans)
  have "h_refs x = of_nat (s_held s a + of_bool (a \<in> cached s))"
    using live(1) x unfolding dat_def by (simp del: of_nat_add)
  then have "unat (h_refs x) = s_held s a + of_bool (a \<in> cached s)"
    using unat_of_nat32 [OF bound] by (simp only:)
  with x live that show thesis by (auto simp: dat_def next_of_def)
qed

lemma unat_refs_eq:
  fixes r :: u32
  shows "r = 1 \<longleftrightarrow> unat r = 1" "r = 0 \<longleftrightarrow> unat r = 0"
  by (metis unat_1 word_unat_eq_iff, metis unat_0 word_unat_eq_iff)

lemma rel_lists: "rel T c s \<Longrightarrow> two_lists (c_mem c) lru_head (s_lru s) in_use_head (s_use s)"
  by (simp add: rel_def mem_rel_def)

text \<open>An entry moves from one list to the end of the other.\<close>

lemma move_ok:
  assumes "two_lists m h xs k zs" "a \<in> set xs"
  obtains m1 m' where "LRU_Remove m a = Some m1" "LRU_Append m1 k a = Some m'"
    "two_lists m' h (remove1 a xs) k (zs @ [a])" "dat m' = dat m" "nh_of m' = nh_of m"
proof -
  obtain m1 where 1: "LRU_Remove m a = Some m1" "two_lists m1 h (remove1 a xs) k zs" "dat m1 = dat m" "nh_of m1 = nh_of m"
    using assms by (rule unlink_ok)
  have "m a \<noteq> None" "distinct (h # k # xs @ zs)" using assms by (auto simp: two_lists_def)
  then have "m1 a \<noteq> None" "a \<notin> set (k # h # zs @ remove1 a xs)"
    using 1(3) live_dat [of m a] live_dat [of m1 a] assms(2) by (auto simp: set_remove1_eq)
  then obtain m2 where 2: "LRU_Append m1 k a = Some m2" "two_lists m2 k (zs @ [a]) h (remove1 a xs)" "dat m2 = dat m1" "nh_of m2 = nh_of m1"
    using append_ok 1(2) two_lists_swap by metis
  show thesis by (rule that [OF 1(1) 2(1)]) (use 1 2 two_lists_swap in auto)
qed

lemma spec_dat_take:
  "a \<in> cached s \<Longrightarrow> s_entry s a = Some en \<Longrightarrow>
    spec_dat (spec_take s a) b = (if b = a then Some (en, True, of_nat (s_held s a + 2)) else spec_dat s b)"
  by (auto simp: spec_dat_def cached_take) (auto simp: spec_take_def)

lemma Ref_ok:
  assumes "rel T c s" "a \<in> cached s" "s_held s a + 1 < 2 ^ 32 - 1"
  shows "\<exists>c'. LRUCache_Ref c a = Some c' \<and> rel T c' (spec_take s a)"
proof -
  have inv: "lru_inv s" using assms(1) by (simp add: rel_def)
  obtain en where en: "s_entry s a = Some en" using cached_live [OF inv assms(2)] by auto
  obtain x where x: "c_mem c a = Some x" "h_in_cache x" "unat (h_refs x) = s_held s a + 1"
      "dat (c_mem c) a = Some (en, True, h_refs x)"
    using rel_cell [OF assms(1) en] assms(2) by auto
  have lru: "h_refs x = 1 \<longleftrightarrow> a \<in> set (s_lru s)"
    using x(3) inv assms(2) unfolding unat_refs_eq by (auto simp: lru_inv_def cached_def)
  obtain m1 where m1: "(if h_refs x = 1 \<and> h_in_cache x
        then do { m \<leftarrow> LRU_Remove (c_mem c) a; LRU_Append m in_use_head a } else Some (c_mem c)) = Some m1"
      "two_lists m1 lru_head (s_lru (spec_take s a)) in_use_head (s_use (spec_take s a))"
      "dat m1 = dat (c_mem c)" "nh_of m1 = nh_of (c_mem c)"
  proof (cases "a \<in> set (s_lru s)")
    case True
    then obtain m0 m2 where "LRU_Remove (c_mem c) a = Some m0" "LRU_Append m0 in_use_head a = Some m2"
        "two_lists m2 lru_head (remove1 a (s_lru s)) in_use_head (s_use s @ [a])" "dat m2 = dat (c_mem c)" "nh_of m2 = nh_of (c_mem c)"
      using move_ok [OF rel_lists [OF assms(1)]] by metis
    with True x lru that show thesis by (auto simp: spec_take_def)
  next
    case False
    with x lru that rel_lists [OF assms(1)] show thesis by (auto simp: spec_take_def)
  qed
  have "dat m1 a = Some (en, True, h_refs x)" using x(4) m1(3) by simp
  then obtain m2 where m2: "set_refs m1 a (h_refs x + 1) = Some m2" "next_of m2 = next_of m1" "prev_of m2 = prev_of m1"
      "dat m2 = (dat m1)(a := Some (en, True, h_refs x + 1))" "nh_of m2 = nh_of m1"
    by (rule set_refs_fields)
  have "two_lists m2 lru_head (s_lru (spec_take s a)) in_use_head (s_use (spec_take s a))"
    using two_lists_dat [OF m1(2) m2(2-4)] .
  moreover have "h_refs x + 1 = of_nat (s_held s a + 2)"
    using of_nat_unat32 [OF x(3)] by simp
  moreover have "c_usage c = spec_usage (spec_take s a)" "c_deleted c = s_dead (spec_take s a)"
    using assms(1) by (simp_all add: rel_def spec_usage_take)
  moreover have "lru_inv (spec_take s a)" using lru_inv_take [OF inv _ assms(3)] en by simp
  ultimately have "rel T (c\<lparr>c_mem := m2\<rparr>) (spec_take s a)"
    using m1(3,4) m2(4,5) x(4)
    by (intro rel_step [OF assms(1), where a = a and m' = m2]) (simp_all add: spec_dat_take [OF assms(2) en])
  moreover have "LRUCache_Ref c a = Some (c\<lparr>c_mem := m2\<rparr>)"
    using x m1(1) m2(1) by (simp add: LRUCache_Ref_def)
  ultimately show ?thesis by simp
qed

text \<open>\<open>Unref\<close> of a handle that is not in the cache: the last reference frees it.\<close>

lemma Unref_outside:
  assumes "dat (c_mem c) a = Some (en, False, r)" "r \<noteq> 0" "next_of (c_mem c) a \<noteq> Some a"
  obtains (last) "r = 1" "LRUCache_Unref c a = Some (c\<lparr>c_mem := (c_mem c)(a := None),
      c_deleted := c_deleted c @ [(e_deleter en, e_key en, e_value en)]\<rparr>)"
  | (more) m' where "r \<noteq> 1" "LRUCache_Unref c a = Some (c\<lparr>c_mem := m'\<rparr>)" "next_of m' = next_of (c_mem c)"
      "prev_of m' = prev_of (c_mem c)" "dat m' = (dat (c_mem c))(a := Some (en, False, r - 1))"
      "nh_of m' = nh_of (c_mem c)"
proof -
  obtain x where x: "c_mem c a = Some x" "h_refs x = r" "\<not> h_in_cache x" "entry_of x = en" "h_next x \<noteq> Some a"
    using assms by (auto simp: dat_def next_of_def)
  let ?m = "(c_mem c)(a \<mapsto> x\<lparr>h_refs := r - 1\<rparr>)"
  have m: "set_refs (c_mem c) a (r - 1) = Some ?m" using x(1) by (simp add: set_refs_def)
  show thesis
  proof (cases "r = 1")
    case True
    have "LRUHandle_key ?m a = Some (h_key x)" using x by (simp add: LRUHandle_key_def)
    then show thesis using True last x m by (auto simp: LRUCache_Unref_def entry_of_def)
  next
    case False
    have "LRUCache_Unref c a = Some (c\<lparr>c_mem := ?m\<rparr>)"
      using False x assms(2) m by (simp add: LRUCache_Unref_def)
    then show thesis
      using False x by (intro more [of ?m])
        (auto simp: next_of_def prev_of_def dat_def nh_of_def entry_of_def fun_eq_iff)
  qed
qed

lemma spec_free_Some: "s_entry s a = Some en \<Longrightarrow>
    spec_free s a = s\<lparr>s_entry := (s_entry s)(a := None), s_dead := s_dead s @ [(e_deleter en, e_key en, e_value en)]\<rparr>"
  by (simp add: spec_free_def)

lemma dat_None: "dat (m(a := None)) = (dat m)(a := None)"
  by (simp add: dat_def fun_eq_iff)

text \<open>\<open>Release\<close>.\<close>

lemma release_frame:
  assumes "rel T c s" "s_held s a > 0"
  shows "lru_inv (spec_release s a)"
    and "spec_usage (spec_release s a) = c_usage c" "s_capacity (spec_release s a) = s_capacity s"
    and "b \<noteq> a \<Longrightarrow> spec_dat (spec_release s a) b = spec_dat s b"
proof -
  have inv: "lru_inv s" using assms(1) by (simp add: rel_def)
  show "lru_inv (spec_release s a)" by (rule lru_inv_release [OF inv assms(2)])
  show "spec_usage (spec_release s a) = c_usage c" "s_capacity (spec_release s a) = s_capacity s"
    using assms(1) spec_usage_release [OF inv assms(2)] by (simp_all add: rel_def, simp add: spec_release_def Let_def)
  show "spec_dat (spec_release s a) b = spec_dat s b" if "b \<noteq> a"
    using that cached_release [OF inv, of a] by (auto simp: spec_dat_def) (auto simp: spec_release_def Let_def spec_free_def split: option.splits)
qed

lemma held_cell:
  assumes "rel T c s" "s_held s a > 0"
  obtains en x where "s_entry s a = Some en" "c_mem c a = Some x" "h_in_cache x \<longleftrightarrow> a \<in> cached s" "h_next x \<noteq> Some a"
    "unat (h_refs x) = s_held s a + of_bool (a \<in> cached s)" "dat (c_mem c) a = Some (en, a \<in> cached s, h_refs x)"
    "a \<noteq> lru_head" "a \<noteq> in_use_head"
proof -
  obtain en where en: "s_entry s a = Some en" using assms unfolding rel_def lru_inv_def by fastforce
  with rel_cell [OF assms(1) en] that show thesis by metis
qed

lemma Release_cached:
  assumes "rel T c s" "s_held s a > 0" and True: "a \<in> cached s"
  shows "\<exists>c'. LRUCache_Release c a = Some c' \<and> rel T c' (spec_release s a)"
proof -
  have inv: "lru_inv s" using assms(1) by (simp add: rel_def)
  note inv' = release_frame(1) [OF assms(1,2)] and usage = release_frame(2,3) [OF assms(1,2)]
    and same = release_frame(4) [OF assms(1,2)]
  obtain en x where en: "s_entry s a = Some en" and x: "c_mem c a = Some x" "h_in_cache x \<longleftrightarrow> a \<in> cached s" "h_next x \<noteq> Some a"
      "unat (h_refs x) = s_held s a + of_bool (a \<in> cached s)" "dat (c_mem c) a = Some (en, a \<in> cached s, h_refs x)"
      "a \<noteq> lru_head" "a \<noteq> in_use_head"
    using held_cell [OF assms(1,2)] by metis
  have use: "a \<in> set (s_use s)" using True inv assms(2) by (auto simp: lru_inv_def cached_def)
  have r: "unat (h_refs x) = s_held s a + 1" "h_refs x - 1 = of_nat (s_held s a)"
    using x(4) True of_nat_unat32 [OF x(4)] by simp_all
  obtain m1 where m1: "set_refs (c_mem c) a (h_refs x - 1) = Some m1" "next_of m1 = next_of (c_mem c)"
      "prev_of m1 = prev_of (c_mem c)" "dat m1 = (dat (c_mem c))(a := Some (en, True, h_refs x - 1))"
      "nh_of m1 = nh_of (c_mem c)"
    using x(5) True by (auto elim: set_refs_fields)
  have lists: "two_lists m1 lru_head (s_lru s) in_use_head (s_use s)"
    by (rule two_lists_dat [OF rel_lists [OF assms(1)] m1(2-4)])
  have small: "s_held s a < 2 ^ 32 - 1" using inv by (simp add: lru_inv_def)
  have one: "h_refs x - 1 = 1 \<longleftrightarrow> s_held s a = 1" and zero: "h_refs x - 1 \<noteq> 0" and zero': "h_refs x \<noteq> 0"
    using unat_of_nat32 [of "s_held s a"] small assms(2) r unfolding unat_refs_eq by simp_all
  obtain m2 where m2: "LRUCache_Unref c a = Some (c\<lparr>c_mem := m2\<rparr>)" "dat m2 = dat m1" "nh_of m2 = nh_of m1"
      "two_lists m2 lru_head (s_lru (spec_release s a)) in_use_head (s_use (spec_release s a))"
  proof (cases "s_held s a = 1")
    case True
    have "two_lists m1 in_use_head (s_use s) lru_head (s_lru s)" using lists two_lists_swap by blast
    then obtain m0 m2 where "LRU_Remove m1 a = Some m0" "LRU_Append m0 lru_head a = Some m2"
        "two_lists m2 in_use_head (remove1 a (s_use s)) lru_head (s_lru s @ [a])" "dat m2 = dat m1" "nh_of m2 = nh_of m1"
      using use by (rule move_ok)
    moreover have "two_lists m2 lru_head (s_lru s @ [a]) in_use_head (remove1 a (s_use s))"
      using calculation(3) two_lists_swap by blast
    ultimately show thesis
      using that True x(1,2) \<open>a \<in> cached s\<close> m1(1) one zero zero' use
      by (auto simp: LRUCache_Unref_def spec_release_def)
  next
    case False
    with that x(1,2) \<open>a \<in> cached s\<close> m1(1) one zero zero' lists assms(2) show thesis
      by (auto simp: LRUCache_Unref_def spec_release_def)
  qed
  have "s_held (spec_release s a) a + 1 = s_held s a" "s_entry (spec_release s a) a = Some en"
    using use en assms(2) by (auto simp: spec_release_def Let_def)
  then have "spec_dat (spec_release s a) a = Some (en, True, h_refs x - 1)"
    using True r(2) cached_release [OF inv, of a] by (simp add: spec_dat_def del: of_nat_add)
  then have "rel T (c\<lparr>c_mem := m2\<rparr>) (spec_release s a)"
    using m1 m2 same usage x(5) use assms(1)
    by (intro rel_step [OF assms(1) inv' m2(4), where a = a])
      (auto simp: spec_release_def Let_def rel_def)
  with m2(1) show ?thesis by (simp add: LRUCache_Release_def)
qed

lemma Release_outside:
  assumes "rel T c s" "s_held s a > 0" "T \<subseteq> cached s" and False: "a \<notin> cached s"
  shows "\<exists>c'. LRUCache_Release c a = Some c' \<and> rel T c' (spec_release s a)"
proof -
  have inv: "lru_inv s" using assms(1) by (simp add: rel_def)
  note inv' = release_frame(1) [OF assms(1,2)] and usage = release_frame(2,3) [OF assms(1,2)]
    and same = release_frame(4) [OF assms(1,2)]
  obtain en x where en: "s_entry s a = Some en" and x: "c_mem c a = Some x" "h_in_cache x \<longleftrightarrow> a \<in> cached s" "h_next x \<noteq> Some a"
      "unat (h_refs x) = s_held s a + of_bool (a \<in> cached s)" "dat (c_mem c) a = Some (en, a \<in> cached s, h_refs x)"
      "a \<noteq> lru_head" "a \<noteq> in_use_head"
    using held_cell [OF assms(1,2)] by metis
  have r: "h_refs x \<noteq> 0" using x(4) assms(2) unfolding unat_refs_eq by simp
  have next_a: "next_of (c_mem c) a \<noteq> Some a" using x(1,3) by (simp add: next_of_def)
  have dat_a: "dat (c_mem c) a = Some (en, False, h_refs x)" using x(5) False by simp
  show ?thesis
  proof (cases rule: Unref_outside [OF dat_a r next_a, case_names last more])
    case last
    then have "s_held s a = 1" using x(4) False by (simp add: unat_refs_eq)
    then have s': "spec_release s a = spec_free (s\<lparr>s_held := (s_held s)(a := 0)\<rparr>) a"
      using False by (simp add: spec_release_def cached_def)
    let ?m = "(c_mem c)(a := None)"
    have "two_lists ?m lru_head (s_lru (spec_release s a)) in_use_head (s_use (spec_release s a))"
      using two_lists_free [OF rel_lists [OF assms(1)]] x(6,7) False by (simp add: s' cached_def)
    moreover have "a \<notin> T" using False assms(3) by blast
    moreover have "spec_dat (spec_release s a) a = None" "s_dead (spec_release s a) = c_deleted c @ [(e_deleter en, e_key en, e_value en)]"
      using assms(1) en by (simp_all add: s' spec_free_Some spec_dat_def rel_def)
    ultimately have "rel T (c\<lparr>c_mem := ?m, c_deleted := c_deleted c @ [(e_deleter en, e_key en, e_value en)]\<rparr>) (spec_release s a)"
      using same usage by (intro rel_step [OF assms(1) inv', where a = a and m' = ?m]) (auto simp: dat_None nh_of_def)
    with last(2) show ?thesis by (simp add: LRUCache_Release_def)
  next
    case (more m')
    then have held: "s_held s a > 1" using x(4) False assms(2) by (simp add: unat_refs_eq)
    then have s': "spec_release s a = s\<lparr>s_held := (s_held s)(a := s_held s a - 1)\<rparr>"
      by (simp add: spec_release_def)
    have "two_lists m' lru_head (s_lru (spec_release s a)) in_use_head (s_use (spec_release s a))"
      using two_lists_dat [OF rel_lists [OF assms(1)] more(3-5)] by (simp add: s')
    moreover have "h_refs x - 1 = of_nat (s_held s a - 1)"
      using of_nat_unat32 [OF x(4)] False held by (simp add: of_nat_diff)
    then have "spec_dat (spec_release s a) a = Some (en, False, h_refs x - 1)"
      using en False by (simp add: s' spec_dat_def cached_def)
    ultimately have "rel T (c\<lparr>c_mem := m'\<rparr>) (spec_release s a)"
      using same usage more(5,6) x(5) assms(1) by (intro rel_step [OF assms(1) inv', where a = a and m' = m']) (auto simp: s' rel_def)
    with more(2) show ?thesis by (simp add: LRUCache_Release_def)
  qed
qed

lemma Release_ok:
  assumes "rel T c s" "s_held s a > 0" "T \<subseteq> cached s"
  shows "\<exists>c'. LRUCache_Release c a = Some c' \<and> rel T c' (spec_release s a)"
  using Release_cached [OF assms(1,2)] Release_outside [OF assms] by blast

text \<open>\<open>FinishErase\<close> of an entry that the table does not hold any more.\<close>

lemma unlink_cached:
  assumes "rel T c s" "a \<in> cached s"
  obtains m' where "LRU_Remove (c_mem c) a = Some m'"
    "two_lists m' lru_head (remove1 a (s_lru s)) in_use_head (remove1 a (s_use s))"
    "dat m' = dat (c_mem c)" "nh_of m' = nh_of (c_mem c)"
proof -
  have d: "distinct (s_lru s @ s_use s)" using assms(1) lru_distinct by (simp add: rel_def)
  show thesis
  proof (cases "a \<in> set (s_lru s)")
    case True
    then have "a \<notin> set (s_use s)" using d by auto
    then have "remove1 a (s_use s) = s_use s" by (rule remove1_idem)
    with that show thesis using unlink_ok [OF rel_lists [OF assms(1)] True] by metis
  next
    case False
    then have use: "a \<in> set (s_use s)" "remove1 a (s_lru s) = s_lru s"
      using assms(2) by (auto simp: cached_def remove1_idem)
    obtain m' where "LRU_Remove (c_mem c) a = Some m'" "two_lists m' in_use_head (remove1 a (s_use s)) lru_head (s_lru s)"
        "dat m' = dat (c_mem c)" "nh_of m' = nh_of (c_mem c)"
      using unlink_ok use(1) rel_lists [OF assms(1)] two_lists_swap by metis
    with that use(2) two_lists_swap show thesis by metis
  qed
qed

lemma spec_dat_drop_other: "lru_inv s \<Longrightarrow> b \<noteq> a \<Longrightarrow> spec_dat (spec_drop s a) b = spec_dat s b"
proof -
  assume "lru_inv s" "b \<noteq> a"
  moreover have "s_entry (spec_drop s a) b = s_entry s b"
    using \<open>b \<noteq> a\<close> by (simp add: spec_drop_def Let_def spec_free_def split: option.splits)
  ultimately show ?thesis using cached_drop [of s a] by (simp add: spec_dat_def)
qed

lemma FinishErase_ok:
  assumes "rel T c s" "a \<in> cached s" "a \<notin> T"
  shows "\<exists>c'. FinishErase c (Some a) = Some c' \<and> rel T c' (spec_drop s a)"
proof -
  have inv: "lru_inv s" using assms(1) by (simp add: rel_def)
  have inv': "lru_inv (spec_drop s a)" by (rule lru_inv_drop [OF inv assms(2)])
  obtain en where en: "s_entry s a = Some en" using cached_live [OF inv assms(2)] by auto
  obtain x where x: "c_mem c a = Some x" "entry_of x = en" "h_in_cache x" "unat (h_refs x) = s_held s a + 1"
      "dat (c_mem c) a = Some (en, True, h_refs x)" "a \<noteq> lru_head" "a \<noteq> in_use_head"
    using rel_cell [OF assms(1) en] assms(2) by auto
  obtain m1 where m1: "LRU_Remove (c_mem c) a = Some m1"
      "two_lists m1 lru_head (s_lru (spec_drop s a)) in_use_head (s_use (spec_drop s a))"
      "dat m1 = dat (c_mem c)" "nh_of m1 = nh_of (c_mem c)"
    using unlink_cached [OF assms(1,2)] unfolding spec_drop_lists by metis
  obtain m2 where m2: "set_in_cache m1 a False = Some m2" "next_of m2 = next_of m1" "prev_of m2 = prev_of m1"
      "dat m2 = (dat m1)(a := Some (en, False, h_refs x))" "nh_of m2 = nh_of m1"
    using x(5) unfolding m1(3) [symmetric] by (rule set_in_cache_fields)
  have lists: "two_lists m2 lru_head (s_lru (spec_drop s a)) in_use_head (s_use (spec_drop s a))"
    by (rule two_lists_dat [OF m1(2) m2(2-4)])
  define c2 where "c2 = c\<lparr>c_mem := m2, c_usage := c_usage c - h_charge x\<rparr>"
  have run: "FinishErase c (Some a) = LRUCache_Unref c2 a" using x(1,3) m1(1) m2(1) by (simp add: c2_def)
  have usage: "c_usage c2 = spec_usage (spec_drop s a)"
    using assms(1) spec_usage_drop [OF inv assms(2)] en x(2) by (auto simp: rel_def c2_def charge_of_def entry_of_def)
  have out: "a \<notin> cached (spec_drop s a)" using cached_drop [OF inv] by simp
  have "dat (c_mem c2) a = Some (en, False, h_refs x)" "h_refs x \<noteq> 0" "next_of (c_mem c2) a \<noteq> Some a"
    using m2(4) x(4,6,7) lists unfolding unat_refs_eq by (simp_all add: c2_def two_lists_def)
  then show ?thesis
  proof (cases rule: Unref_outside [case_names last more])
    case last
    then have held: "s_held s a = 0" using x(4) by (simp add: unat_refs_eq)
    then have s': "s_entry (spec_drop s a) a = None" "s_dead (spec_drop s a) = c_deleted c @ [(e_deleter en, e_key en, e_value en)]"
      using en assms(1) by (simp_all add: spec_drop_def spec_free_Some rel_def)
    let ?c = "c2\<lparr>c_mem := m2(a := None), c_deleted := c_deleted c2 @ [(e_deleter en, e_key en, e_value en)]\<rparr>"
    have "two_lists (m2(a := None)) lru_head (s_lru (spec_drop s a)) in_use_head (s_use (spec_drop s a))"
      by (rule two_lists_free [OF lists]) (use x(6,7) out in \<open>simp add: cached_def\<close>)
    then have "rel T ?c (spec_drop s a)"
      using m1(3,4) m2(4,5) assms(3) s' usage spec_dat_drop_other [OF inv]
      by (intro rel_step [OF assms(1) inv', where a = a and m' = "m2(a := None)"])
        (auto simp: dat_None c2_def spec_dat_def nh_of_def fun_eq_iff)
    then show ?thesis using last(2) run by (simp add: c2_def)
  next
    case (more m')
    then have held: "s_held s a > 0" using x(4) by (simp add: unat_refs_eq)
    then have s': "s_entry (spec_drop s a) a = Some en" "s_dead (spec_drop s a) = c_deleted c"
      using en assms(1) by (simp_all add: spec_drop_def rel_def)
    have "h_refs x - 1 = of_nat (s_held s a)" using of_nat_unat32 [OF x(4)] by simp
    then have dat: "spec_dat (spec_drop s a) a = Some (en, False, h_refs x - 1)"
      using s'(1) out by (simp add: spec_dat_def)
    have "two_lists m' lru_head (s_lru (spec_drop s a)) in_use_head (s_use (spec_drop s a))"
      using more(3-5) lists by (intro two_lists_dat [OF lists]) (simp_all add: c2_def)
    then have "rel T (c2\<lparr>c_mem := m'\<rparr>) (spec_drop s a)"
      using m1(3,4) m2(4,5) more(5,6) assms(3) s'(2) usage dat spec_dat_drop_other [OF inv]
      by (intro rel_step [OF assms(1) inv', where a = a and m' = m']) (simp_all add: c2_def)
    then show ?thesis using more(2) run by simp
  qed
qed

text \<open>Between operations the table holds exactly the cached entries.\<close>

definition lru_rel :: "LRUCache \<Rightarrow> lru_state \<Rightarrow> bool" where
  "lru_rel c s \<longleftrightarrow> rel (cached s) c s"

lemma lru_rel_inv: "lru_rel c s \<Longrightarrow> lru_inv s"
  by (simp add: lru_rel_def rel_def)

lemma rel_chains:
  assumes "rel T c s" "same_but_chains (c_mem c) m'" "table_holds m' t' T'"
  shows "rel T' (c\<lparr>c_mem := m', c_table := t'\<rparr>) s"
proof -
  note same = same_but_chains_fields [OF assms(2)]
  have "m' a \<noteq> None" if "c_mem c a \<noteq> None" for a
    using that same_but_chains_None [OF assms(2), of a] by simp
  then have "two_lists m' lru_head (s_lru s) in_use_head (s_use s)"
    using rel_lists [OF assms(1)] same(2,3) by (auto simp: two_lists_def)
  with assms(1,3) same(1) show ?thesis by (simp add: rel_def mem_rel_def)
qed

lemma has_key_ident:
  assumes "lru_rel c s" "a \<in> cached s"
  shows "has_key s key hash a \<longleftrightarrow> ident (c_mem c) a = Some (hash, key)"
proof -
  obtain en where en: "s_entry s a = Some en" using cached_live [OF lru_rel_inv [OF assms(1)] assms(2)] by auto
  obtain x where "c_mem c a = Some x" "entry_of x = en"
    using rel_cell [OF assms(1) [unfolded lru_rel_def] en] by metis
  with en show ?thesis by (auto simp: has_key_def ident_def entry_of_def)
qed

lemma found_is_spec_find:
  assumes "lru_rel c s" "is_found (c_mem c) (cached s) (hash, key) r"
  shows "r = spec_find s key hash"
proof (cases "spec_find s key hash")
  case None
  then have "\<not> has_key s key hash a" if "a \<in> cached s" for a
    using that by (auto simp: spec_find_def find_None_iff cached_def)
  then have "r \<noteq> Some a" for a using assms has_key_ident is_found_Some by blast
  with None show ?thesis by (cases r) auto
next
  case (Some a)
  then have "has_key s key hash a" "a \<in> cached s"
    by (auto simp: spec_find_def find_Some_iff cached_def in_set_conv_nth [symmetric] simp flip: set_append)
  then have "r = Some a" using is_found_only [OF assms(2)] has_key_ident [OF assms(1)] by blast
  with Some show ?thesis by simp
qed

lemma lru_keyed: "lru_rel c s \<Longrightarrow> keyed (c_mem c) (cached s)"
  using rel_keyed [of s "c_mem c" "cached s"] by (simp add: lru_rel_def rel_def)

lemma spec_find_cached: "spec_find s key hash = Some a \<Longrightarrow> a \<in> cached s \<and> has_key s key hash a"
  unfolding spec_find_def cached_def by (metis find_Some_iff nth_mem set_append)

lemma Lookup_ok:
  assumes "lru_rel c s" "\<forall>a. s_held s a + 1 < 2 ^ 32 - 1"
  shows "\<exists>c'. LRUCache_Lookup c key hash = Some (c', spec_find s key hash) \<and> lru_rel c' (spec_lookup s key hash)"
proof -
  have rel: "rel (cached s) c s" using assms(1) by (simp add: lru_rel_def)
  obtain r where "HandleTable_Lookup (c_mem c) (c_table c) key hash = Some r" "is_found (c_mem c) (cached s) (hash, key) r"
    using ht.lookup [OF rel_table [OF rel] lru_keyed [OF assms(1)]] by blast
  then have r: "HandleTable_Lookup (c_mem c) (c_table c) key hash = Some (spec_find s key hash)"
    using found_is_spec_find [OF assms(1)] by blast
  show ?thesis
  proof (cases "spec_find s key hash")
    case None
    with r assms(1) show ?thesis by (simp add: LRUCache_Lookup_def spec_lookup_def)
  next
    case (Some a)
    then have "a \<in> cached s" using spec_find_cached by blast
    then obtain c' where "LRUCache_Ref c a = Some c'" "rel (cached s) c' (spec_take s a)"
      using Ref_ok [OF rel _ assms(2) [rule_format]] by blast
    with r Some show ?thesis by (simp add: LRUCache_Lookup_def spec_lookup_def lru_rel_def cached_take)
  qed
qed

lemma remove_and_finish_ok:
  assumes "lru_rel c s"
  shows "\<exists>c'. remove_and_finish c key hash = Some c' \<and> lru_rel c' (spec_erase s key hash)"
proof -
  have rel: "rel (cached s) c s" using assms by (simp add: lru_rel_def)
  obtain m' t' where t: "HandleTable_Remove (c_mem c) (c_table c) key hash = Some (m', t', spec_find s key hash)"
      "same_but_chains (c_mem c) m'" "table_holds m' t' (cached s - set_option (spec_find s key hash))"
    using ht.remove [OF rel_table [OF rel] lru_keyed [OF assms], of key hash] found_is_spec_find [OF assms] by blast
  note rel' = rel_chains [OF rel t(2,3)]
  show ?thesis
  proof (cases "spec_find s key hash")
    case None
    with t(1) rel' show ?thesis by (simp add: remove_and_finish_def spec_erase_def lru_rel_def)
  next
    case (Some a)
    then have "a \<in> cached s" using spec_find_cached by blast
    then obtain c' where "FinishErase (c\<lparr>c_mem := m', c_table := t'\<rparr>) (Some a) = Some c'" "rel (cached s - {a}) c' (spec_drop s a)"
      using FinishErase_ok [OF rel'] Some by auto
    with Some t(1) show ?thesis
      using cached_drop [OF lru_rel_inv [OF assms], of a] by (simp add: remove_and_finish_def spec_erase_def lru_rel_def)
  qed
qed

lemma spec_find_own_key:
  assumes "lru_rel c s" "a \<in> cached s" "s_entry s a = Some en"
  shows "spec_find s (e_key en) (e_hash en) = Some a"
proof -
  have rel: "rel (cached s) c s" using assms(1) by (simp add: lru_rel_def)
  have "has_key s (e_key en) (e_hash en) a" using assms(3) by (simp add: has_key_def)
  then have a: "ident (c_mem c) a = Some (e_hash en, e_key en)" using has_key_ident [OF assms(1,2)] by simp
  obtain r where r: "is_found (c_mem c) (cached s) (e_hash en, e_key en) r"
    using ht.lookup [OF rel_table [OF rel] lru_keyed [OF assms(1)]] by blast
  then have "r = Some a" using is_found_only [OF r assms(2) a] by simp
  then show ?thesis using found_is_spec_find [OF assms(1) r] by simp
qed

lemma next_of_lru_head: "lru_rel c s \<Longrightarrow> next_of (c_mem c) lru_head = Some (hd (s_lru s @ [lru_head]))"
  using dl_first [of "next_of (c_mem c)" "prev_of (c_mem c)" lru_head "s_lru s" lru_head]
  by (simp add: lru_rel_def rel_def mem_rel_def two_lists_def)

lemma lru_empty_iff: "lru_rel c s \<Longrightarrow> next_of (c_mem c) lru_head = Some lru_head \<longleftrightarrow> s_lru s = []"
  using next_of_lru_head [of c s] lru_rel_inv [of c s]
  by (cases "s_lru s") (auto simp: lru_inv_def)

lemma erase_oldest_ok:
  assumes "lru_rel c s" "s_lru s \<noteq> []"
  shows "\<exists>c'. erase_oldest c = Some c' \<and> lru_rel c' (spec_drop s (hd (s_lru s)))"
proof -
  let ?a = "hd (s_lru s)"
  have a: "?a \<in> set (s_lru s)" "?a \<in> cached s" using assms(2) by (auto simp: cached_def)
  have inv: "lru_inv s" by (rule lru_rel_inv [OF assms(1)])
  obtain en where en: "s_entry s ?a = Some en" using cached_live [OF inv a(2)] by auto
  obtain x where x: "c_mem c ?a = Some x" "entry_of x = en" "unat (h_refs x) = s_held s ?a + 1" "h_next x \<noteq> Some ?a"
    using rel_cell [OF assms(1) [unfolded lru_rel_def] en] a(2) by auto
  have "s_held s ?a = 0" using inv a(1) by (auto simp: lru_inv_def)
  then have "h_refs x = 1" using x(3) by (simp add: unat_refs_eq)
  moreover have "next_of (c_mem c) lru_head = Some ?a" using next_of_lru_head [OF assms(1)] assms(2) by simp
  moreover have "h_key x = e_key en" "h_hash x = e_hash en" using x(2) by (auto simp: entry_of_def)
  moreover have "LRUHandle_key (c_mem c) ?a = Some (h_key x)" using x(1,4) by (simp add: LRUHandle_key_def)
  ultimately have "erase_oldest c = remove_and_finish c (e_key en) (e_hash en)"
    using x(1) by (simp add: erase_oldest_def)
  moreover have "spec_erase s (e_key en) (e_hash en) = spec_drop s ?a"
    using spec_find_own_key [OF assms(1) a(2) en] by (simp add: spec_erase_def)
  ultimately show ?thesis using remove_and_finish_ok [OF assms(1), of "e_key en" "e_hash en"] by simp
qed

lemma evict_ok:
  assumes "lru_rel c s"
  shows "\<exists>c'. evict_loop c = Some c' \<and> lru_rel c' (spec_evict s)"
  using assms
proof (induction s arbitrary: c rule: spec_evict.induct)
  case (1 s)
  have usage: "c_usage c = spec_usage s" "c_capacity c = s_capacity s"
    using "1.prems" by (simp_all add: lru_rel_def rel_def)
  show ?case
  proof (cases "spec_usage s > s_capacity s \<and> s_lru s \<noteq> []")
    case True
    then obtain c1 where "erase_oldest c = Some c1" "lru_rel c1 (spec_drop s (hd (s_lru s)))"
      using erase_oldest_ok [OF "1.prems"] by blast
    with "1.IH" [OF True] True usage lru_empty_iff [OF "1.prems"] show ?thesis
      by (subst evict_loop.simps, subst spec_evict.simps) simp
  next
    case False
    with "1.prems" usage lru_empty_iff [OF "1.prems"] show ?thesis
      by (subst evict_loop.simps, subst spec_evict.simps) auto
  qed
qed

lemma prune_ok:
  assumes "lru_rel c s"
  shows "\<exists>c'. LRUCache_Prune c = Some c' \<and> lru_rel c' (spec_prune s)"
proof -
  have "\<exists>c'. prune_loop c = Some c' \<and> lru_rel c' (fold (\<lambda>a s. spec_drop s a) xs s)"
    if "lru_rel c s" "s_lru s = xs" for c s xs
    using that
  proof (induction xs arbitrary: c s)
    case Nil
    then show ?case using lru_empty_iff [of c s] by (subst prune_loop.simps) simp
  next
    case (Cons a xs)
    then obtain c1 where c1: "erase_oldest c = Some c1" "lru_rel c1 (spec_drop s a)"
      using erase_oldest_ok [of c s] by auto
    have "s_lru (spec_drop s a) = xs" using Cons.prems(2) by simp
    with Cons.IH [OF c1(2)] c1(1) Cons.prems lru_empty_iff [of c s] show ?case
      by (subst prune_loop.simps) simp
  qed
  with assms show ?thesis by (simp add: LRUCache_Prune_def spec_prune_def)
qed

subsection \<open>Insertion\<close>

lemma ident_dat: "ident m a = map_option (\<lambda>d. (e_hash (fst d), e_key (fst d))) (dat m a)"
  by (cases "m a") (simp_all add: ident_def dat_def entry_of_def)

lemma new_handle_fields:
  fixes val deleter :: nat and charge :: u64 and key :: bytes and hash :: u32
  assumes "m e = None"
  defines "m' \<equiv> m(e \<mapsto> LRUHandle_new val deleter charge key hash)"
  shows "next_of m' = next_of m" "prev_of m' = prev_of m"
    and "dat m' = (dat m)(e \<mapsto> (\<lparr>e_key = key, e_hash = hash, e_value = val, e_deleter = deleter, e_charge = charge\<rparr>, False, 1))"
    and "nh_of m' = (nh_of m)(e \<mapsto> None)"
  using assms(1) unfolding m'_def
  by (auto simp: next_of_def prev_of_def dat_def nh_of_def entry_of_def LRUHandle_new_def fun_eq_iff)

lemma fresh_address:
  assumes "lru_rel c s" "c_mem c e = None"
  shows "s_entry s e = None" "e \<noteq> lru_head" "e \<noteq> in_use_head" "e \<notin> cached s" "s_held s e = 0"
proof -
  have rel: "rel (cached s) c s" using assms(1) by (simp add: lru_rel_def)
  show heads: "e \<noteq> lru_head" "e \<noteq> in_use_head" using rel_lists [OF rel] assms(2) by (auto simp: two_lists_def)
  have "spec_dat s e = dat (c_mem c) e" using rel heads by (simp add: rel_def mem_rel_def)
  then show "s_entry s e = None" using assms(2) by (simp add: dat_def spec_dat_def)
  then show "e \<notin> cached s" "s_held s e = 0" using not_live_not_cached [OF lru_rel_inv [OF assms(1)]] by auto
qed

lemma spec_dat_new:
  assumes "b \<noteq> e"
  shows "spec_dat (spec_new_entry s e en) b = spec_dat s b"
    and "spec_dat ((spec_new_entry s e en)\<lparr>s_use := s_use s @ [e]\<rparr>) b = spec_dat s b"
  using assms by (simp_all add: spec_dat_def spec_new_entry_def cached_def)

lemma spec_usage_new:
  assumes "e \<notin> cached s"
  shows "spec_usage (spec_new_entry s e en) = spec_usage s"
    and "spec_usage ((spec_new_entry s e en)\<lparr>s_use := s_use s @ [e]\<rparr>) = spec_usage s + e_charge en"
proof -
  have eq: "map (charge_of ((s_entry s)(e \<mapsto> en))) (s_lru s) = map (charge_of (s_entry s)) (s_lru s)"
      "map (charge_of ((s_entry s)(e \<mapsto> en))) (s_use s) = map (charge_of (s_entry s)) (s_use s)"
    using assms by (auto simp: cached_def charge_of_def)
  have "charge_of ((s_entry s)(e \<mapsto> en)) e = e_charge en" by (simp add: charge_of_def)
  with eq show "spec_usage (spec_new_entry s e en) = spec_usage s"
    "spec_usage ((spec_new_entry s e en)\<lparr>s_use := s_use s @ [e]\<rparr>) = spec_usage s + e_charge en"
    unfolding spec_usage_def spec_new_entry_def by (simp_all del: map_eq_conv)
qed

lemma insert_detached:
  assumes "lru_rel c s" "c_mem c e = None"
    and en: "en = \<lparr>e_key = key, e_hash = hash, e_value = val, e_deleter = deleter, e_charge = charge\<rparr>"
  shows "lru_rel (c\<lparr>c_mem := (c_mem c)(e \<mapsto> LRUHandle_new val deleter charge key hash)\<rparr>) (spec_new_entry s e en)"
proof -
  let ?s = "spec_new_entry s e en" and ?m = "(c_mem c)(e \<mapsto> LRUHandle_new val deleter charge key hash)"
  have rel: "rel (cached s) c s" using assms(1) by (simp add: lru_rel_def)
  note fresh = fresh_address [OF assms(1,2)] and f = new_handle_fields [where m = "c_mem c", OF assms(2), of val deleter charge key hash]
  have same: "s_lru ?s = s_lru s" "s_use ?s = s_use s" "s_dead ?s = s_dead s" "s_capacity ?s = s_capacity s" "cached ?s = cached s"
    by (simp_all add: spec_new_entry_def cached_def)
  have "two_lists ?m lru_head (s_lru s) in_use_head (s_use s)"
    by (rule two_lists_dat [OF rel_lists [OF rel] f(1-3)])
  moreover have "dat ?m e = spec_dat ?s e"
    using fresh(4) unfolding f(3) en by (simp add: spec_dat_def spec_new_entry_def cached_def)
  ultimately have "rel (cached s) (c\<lparr>c_mem := ?m\<rparr>) ?s"
    using rel fresh f(4) lru_inv_new [OF lru_rel_inv [OF assms(1)] fresh(1-3)] spec_usage_new(1) [OF fresh(4)]
      spec_dat_new(1) same
    by (intro rel_step [OF rel, where a = e and m' = ?m]) (auto simp: f(3) rel_def)
  then show ?thesis by (simp add: lru_rel_def same)
qed

lemma insert_linked:
  assumes "lru_rel c s" "c_mem c e = None"
    and en: "en = \<lparr>e_key = key, e_hash = hash, e_value = val, e_deleter = deleter, e_charge = charge\<rparr>"
  obtains m1 m2 m3 where "set_refs ((c_mem c)(e \<mapsto> LRUHandle_new val deleter charge key hash)) e (1 + 1) = Some m1"
    "set_in_cache m1 e True = Some m2" "LRU_Append m2 in_use_head e = Some m3"
    "rel (cached s) (c\<lparr>c_mem := m3, c_usage := c_usage c + charge\<rparr>) ((spec_new_entry s e en)\<lparr>s_use := s_use s @ [e]\<rparr>)"
    "\<And>a. a \<in> cached s \<Longrightarrow> ident m3 a = ident (c_mem c) a" "ident m3 e = Some (hash, key)"
proof -
  let ?s = "(spec_new_entry s e en)\<lparr>s_use := s_use s @ [e]\<rparr>" and ?m = "(c_mem c)(e \<mapsto> LRUHandle_new val deleter charge key hash)"
  have rel: "rel (cached s) c s" using assms(1) by (simp add: lru_rel_def)
  note fresh = fresh_address [OF assms(1,2)] and f = new_handle_fields [where m = "c_mem c", OF assms(2), of val deleter charge key hash]
  have 0: "two_lists ?m lru_head (s_lru s) in_use_head (s_use s)"
    by (rule two_lists_dat [OF rel_lists [OF rel] f(1-3)])
  have "dat ?m e = Some (en, False, 1)" unfolding f(3) en by simp
  then obtain m1 where 1: "set_refs ?m e (1 + 1) = Some m1" "next_of m1 = next_of ?m" "prev_of m1 = prev_of ?m"
      "dat m1 = (dat ?m)(e \<mapsto> (en, False, 1 + 1))" "nh_of m1 = nh_of ?m"
    by (rule set_refs_fields)
  have "dat m1 e = Some (en, False, 1 + 1)" using 1(4) by simp
  then obtain m2 where 2: "set_in_cache m1 e True = Some m2" "next_of m2 = next_of m1" "prev_of m2 = prev_of m1"
      "dat m2 = (dat m1)(e \<mapsto> (en, True, 1 + 1))" "nh_of m2 = nh_of m1"
    by (rule set_in_cache_fields)
  have "two_lists m2 lru_head (s_lru s) in_use_head (s_use s)"
    by (rule two_lists_dat [OF two_lists_dat [OF 0 1(2-4)] 2(2-4)])
  then have "two_lists m2 in_use_head (s_use s) lru_head (s_lru s)" by (simp only: two_lists_swap)
  moreover have "e \<notin> set (in_use_head # lru_head # s_use s @ s_lru s)" using fresh by (auto simp: cached_def)
  moreover have "m2 e \<noteq> None" using 2(4) live_dat [of m2 e] by simp
  ultimately obtain m3 where 3: "LRU_Append m2 in_use_head e = Some m3" "two_lists m3 in_use_head (s_use s @ [e]) lru_head (s_lru s)"
      "dat m3 = dat m2" "nh_of m3 = nh_of m2"
    by (rule append_ok)
  have lists: "two_lists m3 lru_head (s_lru ?s) in_use_head (s_use ?s)"
    using 3(2) two_lists_swap by (simp add: spec_new_entry_def)
  have dat3: "dat m3 = (dat (c_mem c))(e \<mapsto> (en, True, 1 + 1))" unfolding 3(3) 2(4) 1(4) f(3) by simp
  have nh3: "nh_of m3 = (nh_of (c_mem c))(e \<mapsto> None)" unfolding 3(4) 2(5) 1(5) f(4) ..
  have inv: "lru_inv ?s" by (rule lru_inv_new_cached [OF lru_rel_inv [OF assms(1)] fresh(1-3)])
  have usage: "c_usage c + charge = spec_usage ?s" "c_deleted c = s_dead ?s"
    using rel unfolding spec_usage_new(2) [OF fresh(4)] by (simp_all add: rel_def en, simp add: spec_new_entry_def)
  have "spec_dat ?s e = Some (en, True, 1 + 1)" by (simp add: spec_dat_def spec_new_entry_def cached_def)
  then have "rel (cached s) (c\<lparr>c_mem := m3, c_usage := c_usage c + charge\<rparr>) ?s"
    using usage fresh(4)
    by (intro rel_step [OF rel inv lists, where a = e]) (auto simp: dat3 nh3 spec_dat_new(2), simp add: spec_new_entry_def)
  moreover have "ident m3 a = ident (c_mem c) a" if "a \<in> cached s" for a
    using that fresh(4) unfolding ident_dat dat3 by auto
  moreover have "ident m3 e = Some (hash, key)" unfolding ident_dat dat3 en by simp
  ultimately show thesis using that 1(1) 2(1) 3(1) by blast
qed

lemma Insert_ok:
  assumes "lru_rel c s" "c_mem c e = None" "card (cached s) < 2 ^ 31"
    and en: "en = \<lparr>e_key = key, e_hash = hash, e_value = val, e_deleter = deleter, e_charge = charge\<rparr>"
  shows "\<exists>c'. LRUCache_Insert c key hash val charge deleter e = Some (c', e) \<and> lru_rel c' (spec_insert s e en)"
proof (cases "c_capacity c > 0")
  case True
  have en_keys: "e_key en = key" "e_hash en = hash" using en by simp_all
  let ?s = "(spec_new_entry s e en)\<lparr>s_use := s_use s @ [e]\<rparr>"
  have cap: "s_capacity s > 0" using True assms(1) by (simp add: lru_rel_def rel_def)
  obtain m1 m2 m3 where m: "set_refs ((c_mem c)(e \<mapsto> LRUHandle_new val deleter charge key hash)) e (1 + 1) = Some m1"
    "set_in_cache m1 e True = Some m2" "LRU_Append m2 in_use_head e = Some m3"
    and rel3: "rel (cached s) (c\<lparr>c_mem := m3, c_usage := c_usage c + charge\<rparr>) ?s"
    and ident: "\<And>a. a \<in> cached s \<Longrightarrow> ident m3 a = ident (c_mem c) a" "ident m3 e = Some (hash, key)"
    using insert_linked [OF assms(1,2) en] by metis
  note fresh = fresh_address [OF assms(1,2)]
  have cached': "cached ?s = insert e (cached s)" by (auto simp: cached_def spec_new_entry_def)
  have inv: "lru_inv ?s" using rel3 by (simp add: rel_def)
  have "keyed m3 (insert e (cached s))"
    using rel_keyed [of ?s m3 "cached ?s"] rel3 unfolding cached' by (simp add: rel_def)
  moreover have "table_holds m3 (c_table c) (cached s)" using rel_table [OF rel3] by simp
  ultimately obtain m4 t' r where t: "HandleTable_Insert m3 (c_table c) e = Some (m4, t', r)"
      "is_found m3 (cached s) (the (ident m3 e)) r" "same_but_chains m3 m4" "table_holds m4 t' (insert e (cached s) - set_option r)"
    using ht.insert [OF _ _ fresh(4) assms(3)] by blast
  have "is_found (c_mem c) (cached s) (hash, key) r"
    using t(2) [unfolded ident(2) option.sel is_found_def] ident(1) by (simp add: is_found_def cong: conj_cong)
  then have r: "r = spec_find s key hash" by (rule found_is_spec_find [OF assms(1)])
  let ?c = "c\<lparr>c_mem := m4, c_table := t', c_usage := c_usage c + charge\<rparr>"
  have rel4: "rel (cached ?s - set_option r) ?c ?s"
    using rel_chains [OF rel3, of m4 t'] t(3,4) unfolding cached' by (simp add: rel_def)
  obtain c1 where c1: "FinishErase ?c r = Some c1" "lru_rel c1 (case r of None \<Rightarrow> ?s | Some a \<Rightarrow> spec_drop ?s a)"
  proof (cases r)
    case None
    with that rel4 show thesis by (simp add: lru_rel_def)
  next
    case (Some a)
    then have "a \<in> cached ?s" using r spec_find_cached [of s key hash a] unfolding cached' by auto
    then obtain c1 where "FinishErase ?c (Some a) = Some c1" "rel (cached ?s - {a}) c1 (spec_drop ?s a)"
      using FinishErase_ok [OF rel4] Some by auto
    with that Some cached_drop [OF inv, of a] show thesis by (simp add: lru_rel_def)
  qed
  obtain c2 where "evict_loop c1 = Some c2" "lru_rel c2 (spec_evict (case r of None \<Rightarrow> ?s | Some a \<Rightarrow> spec_drop ?s a))"
    using evict_ok [OF c1(2)] by blast
  moreover have "spec_insert s e en = spec_evict (case r of None \<Rightarrow> ?s | Some a \<Rightarrow> spec_drop ?s a)"
    using cap r en_keys by (simp add: spec_insert_def Let_def)
  ultimately show ?thesis
    using True assms(2) m t(1) c1(1) by (simp add: LRUCache_Insert_def Let_def)
next
  case False
  have cap: "\<not> s_capacity s > 0" using False assms(1) by (simp add: lru_rel_def rel_def)
  then have "spec_insert s e en = spec_evict (spec_new_entry s e en)" by (simp add: spec_insert_def)
  moreover obtain c' where "evict_loop (c\<lparr>c_mem := (c_mem c)(e \<mapsto> LRUHandle_new val deleter charge key hash)\<rparr>) = Some c'"
      "lru_rel c' (spec_evict (spec_new_entry s e en))"
    using evict_ok [OF insert_detached [OF assms(1,2) en]] by blast
  ultimately show ?thesis
    using False assms(2) by (simp add: LRUCache_Insert_def Let_def)
qed

subsection \<open>Construction and destruction\<close>

definition spec_new :: "u64 \<Rightarrow> lru_state" where
  "spec_new capacity = \<lparr>s_lru = [], s_use = [], s_entry = (\<lambda>_. None), s_held = (\<lambda>_. 0), s_dead = [],
     s_capacity = capacity\<rparr>"

lemma new_ok: "\<exists>c. LRUCache_new = Some c \<and> lru_rel (SetCapacity c capacity) (spec_new capacity)"
proof -
  let ?m0 = "[lru_head \<mapsto> LRUHandle_default, in_use_head \<mapsto> LRUHandle_default] :: hmem"
  obtain t where t: "HandleTable_new ?m0 = Some (?m0, t)" "table_holds ?m0 t {}"
    using HandleTable_new_holds by blast
  have live: "?m0 lru_head \<noteq> None" "?m0 in_use_head \<noteq> None" by simp_all
  obtain m1 where 1: "set_next ?m0 lru_head lru_head = Some m1" "next_of m1 = (next_of ?m0)(lru_head := Some lru_head)"
      "prev_of m1 = prev_of ?m0" "dat m1 = dat ?m0" "nh_of m1 = nh_of ?m0"
    using set_next_fields [of ?m0 lru_head lru_head] live(1) by metis
  have "m1 lru_head \<noteq> None" using 1(4) live live_dat by metis
  then obtain m2 where 2: "set_prev m1 lru_head lru_head = Some m2" "next_of m2 = next_of m1"
      "prev_of m2 = (prev_of m1)(lru_head := Some lru_head)" "dat m2 = dat m1" "nh_of m2 = nh_of m1"
    by (rule set_prev_fields)
  have "m2 in_use_head \<noteq> None" using 1(4) 2(4) live live_dat by metis
  then obtain m3 where 3: "set_next m2 in_use_head in_use_head = Some m3" "next_of m3 = (next_of m2)(in_use_head := Some in_use_head)"
      "prev_of m3 = prev_of m2" "dat m3 = dat m2" "nh_of m3 = nh_of m2"
    by (rule set_next_fields)
  have "m3 in_use_head \<noteq> None" using 1(4) 2(4) 3(4) live live_dat by metis
  then obtain m4 where 4: "set_prev m3 in_use_head in_use_head = Some m4" "next_of m4 = next_of m3"
      "prev_of m4 = (prev_of m3)(in_use_head := Some in_use_head)" "dat m4 = dat m3" "nh_of m4 = nh_of m3"
    by (rule set_prev_fields)
  have dat: "dat m4 = dat ?m0" using 1(4) 2(4) 3(4) 4(4) by simp
  have "m4 lru_head \<noteq> None" "m4 in_use_head \<noteq> None" using dat live live_dat by metis+
  moreover have "next_of ?m0 a = None" "a \<noteq> lru_head \<Longrightarrow> a \<noteq> in_use_head \<Longrightarrow> dat ?m0 a = None" for a
    by (simp_all add: next_of_def dat_def LRUHandle_default_def)
  ultimately have "mem_rel m4 (spec_new capacity)"
    using dat by (auto simp: mem_rel_def two_lists_def spec_new_def spec_dat_def 1 2 3 4)
  moreover have "table_holds m4 t {}" by (rule table_holds_dat [OF t(2)]) simp
  ultimately have "lru_rel (SetCapacity \<lparr>c_mem = m4, c_capacity = 0, c_usage = 0, c_table = t, c_deleted = []\<rparr> capacity) (spec_new capacity)"
    by (simp add: lru_rel_def rel_def SetCapacity_def lru_inv_def spec_new_def cached_def spec_usage_def)
  moreover have "LRUCache_new = Some \<lparr>c_mem = m4, c_capacity = 0, c_usage = 0, c_table = t, c_deleted = []\<rparr>"
    using t(1) 1(1) 2(1) 3(1) 4(1) by (simp add: LRUCache_new_def)
  ultimately show ?thesis by blast
qed

text \<open>The destructor follows the forward pointers and frees what it leaves.\<close>

fun forward :: "(addr \<Rightarrow> addr option) \<Rightarrow> addr list \<Rightarrow> addr \<Rightarrow> bool" where
  "forward nx [] b \<longleftrightarrow> True"
| "forward nx (x # xs) b \<longleftrightarrow> nx x = Some (hd (xs @ [b])) \<and> forward nx xs b"

lemma dl_forward: "dl nx pv a xs b \<Longrightarrow> forward nx xs b"
  by (induction xs arbitrary: a) (auto dest: dl_first)

lemma forward_cong: "forward nx xs b \<Longrightarrow> (\<And>x. x \<in> set xs \<Longrightarrow> nx' x = nx x) \<Longrightarrow> forward nx' xs b"
  by (induction xs) auto

definition dead_call :: "entry \<Rightarrow> nat \<times> bytes \<times> nat" where
  "dead_call en = (e_deleter en, e_key en, e_value en)"

lemma destroy_loop_ok:
  assumes "forward (next_of (c_mem c)) xs lru_head" "distinct (lru_head # xs)"
    and "\<And>a. a \<in> set xs \<Longrightarrow> dat (c_mem c) a = Some (ents a, True, 1)"
    and "\<And>a. a \<in> set xs \<Longrightarrow> next_of (c_mem c) a \<noteq> Some a"
  shows "\<exists>c'. destroy_loop c (hd (xs @ [lru_head])) = Some c'
    \<and> c_deleted c' = c_deleted c @ map (\<lambda>a. dead_call (ents a)) xs
    \<and> (\<forall>a. c_mem c' a = (if a \<in> set xs then None else c_mem c a))"
  using assms
proof (induction xs arbitrary: c)
  case Nil
  then show ?case by (subst destroy_loop.simps) simp
next
  case (Cons x xs)
  have dat: "dat (c_mem c) x = Some (ents x, True, 1)" using Cons.prems(3) by simp
  then obtain y where y: "c_mem c x = Some y" "h_in_cache y" "h_refs y = 1" by (auto simp: dat_def)
  obtain m1 where m1: "set_in_cache (c_mem c) x False = Some m1" "next_of m1 = next_of (c_mem c)" "prev_of m1 = prev_of (c_mem c)"
      "dat m1 = (dat (c_mem c))(x := Some (ents x, False, 1))" "nh_of m1 = nh_of (c_mem c)"
    by (rule set_in_cache_fields [OF dat])
  have m1': "m1(x := None) = (c_mem c)(x := None)" using m1(1) y(1) by (auto simp: set_in_cache_def)
  let ?c = "c\<lparr>c_mem := m1\<rparr>" and ?c' = "c\<lparr>c_mem := (c_mem c)(x := None), c_deleted := c_deleted c @ [dead_call (ents x)]\<rparr>"
  have "dat (c_mem ?c) x = Some (ents x, False, 1)" "(1 :: u32) \<noteq> 0" "next_of (c_mem ?c) x \<noteq> Some x"
    using m1(2,4) Cons.prems(4) by simp_all
  then have unref: "LRUCache_Unref ?c x = Some ?c'"
    by (cases rule: Unref_outside [case_names last more]) (use m1' in \<open>simp_all add: dead_call_def\<close>)
  have other: "next_of (c_mem ?c') a = next_of (c_mem c) a" "dat (c_mem ?c') a = dat (c_mem c) a" if "a \<in> set xs" for a
    using that Cons.prems(2) by (auto simp: next_of_def dat_def)
  have "\<exists>c'. destroy_loop ?c' (hd (xs @ [lru_head])) = Some c'
    \<and> c_deleted c' = c_deleted ?c' @ map (\<lambda>a. dead_call (ents a)) xs
    \<and> (\<forall>a. c_mem c' a = (if a \<in> set xs then None else c_mem ?c' a))"
  proof (rule Cons.IH)
    show "forward (next_of (c_mem ?c')) xs lru_head"
      by (rule forward_cong [where nx = "next_of (c_mem c)"]) (use Cons.prems(1) other in simp_all)
    show "distinct (lru_head # xs)" using Cons.prems(2) by simp
    show "dat (c_mem ?c') a = Some (ents a, True, 1)" if "a \<in> set xs" for a
      unfolding other(2) [OF that] using Cons.prems(3) that by simp
    show "next_of (c_mem ?c') a \<noteq> Some a" if "a \<in> set xs" for a
      unfolding other(1) [OF that] using Cons.prems(4) that by simp
  qed
  moreover have "destroy_loop c x = destroy_loop ?c' (hd (xs @ [lru_head]))"
    using Cons.prems(1,2) y m1(1) unref by (subst destroy_loop.simps) simp
  ultimately show ?case by (auto split: if_splits)
qed

lemma destroy_ok:
  assumes "lru_rel c s" "\<And>a. s_held s a = 0"
  shows "\<exists>c'. LRUCache_destroy c = Some c'
    \<and> c_deleted c' = s_dead s @ map (\<lambda>a. dead_call (the (s_entry s a))) (s_lru s)
    \<and> (\<forall>a. c_mem c' a \<noteq> None \<longrightarrow> a = lru_head \<or> a = in_use_head)"
proof -
  have rel: "rel (cached s) c s" and inv: "lru_inv s" using assms(1) lru_rel_inv by (simp_all add: lru_rel_def)
  have use: "s_use s = []" using inv assms(2) by (cases "s_use s") (auto simp: lru_inv_def)
  have lists: "two_lists (c_mem c) lru_head (s_lru s) in_use_head []" using rel_lists [OF rel] use by simp
  have cell: "dat (c_mem c) a = Some (the (s_entry s a), True, 1)" if "a \<in> set (s_lru s)" for a
    using rel_live(1) [OF inv, of "c_mem c" a "the (s_entry s a)"] rel that inv assms(2)
    by (auto simp: rel_def lru_inv_def cached_def)
  have "\<exists>c'. destroy_loop c (hd (s_lru s @ [lru_head])) = Some c'
      \<and> c_deleted c' = c_deleted c @ map (\<lambda>a. dead_call (the (s_entry s a))) (s_lru s)
      \<and> (\<forall>a. c_mem c' a = (if a \<in> set (s_lru s) then None else c_mem c a))"
  proof (rule destroy_loop_ok)
    show "next_of (c_mem c) a \<noteq> Some a" if "a \<in> set (s_lru s)" for a
    proof -
      have "a \<noteq> lru_head" "a \<noteq> in_use_head" using inv that by (auto simp: lru_inv_def)
      with lists show ?thesis by (simp add: two_lists_def)
    qed
  qed (use lists cell in \<open>auto simp: two_lists_def dest: dl_forward\<close>)
  then obtain c' where c': "destroy_loop c (hd (s_lru s @ [lru_head])) = Some c'"
      "c_deleted c' = c_deleted c @ map (\<lambda>a. dead_call (the (s_entry s a))) (s_lru s)"
      "\<forall>a. c_mem c' a = (if a \<in> set (s_lru s) then None else c_mem c a)" by blast
  have "LRUCache_destroy c = Some c'"
    using c'(1) lists next_of_lru_head [OF assms(1)] by (simp add: LRUCache_destroy_def two_lists_def)
  moreover have "c_mem c' a \<noteq> None \<longrightarrow> a = lru_head \<or> a = in_use_head" for a
  proof (cases "a \<in> set (s_lru s)")
    case False
    then have "s_entry s a = None" using inv assms(2) by (auto simp: lru_inv_def)
    then have "a = lru_head \<or> a = in_use_head \<or> dat (c_mem c) a = None"
      using rel by (auto simp: rel_def mem_rel_def spec_dat_def)
    then show ?thesis using c'(3) False by (auto simp: dat_def)
  qed (use c'(3) in simp)
  moreover have "c_deleted c' = s_dead s @ map (\<lambda>a. dead_call (the (s_entry s a))) (s_lru s)"
    using c'(2) rel by (simp add: rel_def)
  ultimately show ?thesis by (intro exI [of _ c'] conjI) auto
qed

section \<open>Eviction\<close>

text \<open>The charges of what is cached when the \<open>j\<close> oldest unused entries are gone.\<close>

definition usage_without :: "lru_state \<Rightarrow> nat \<Rightarrow> u64" where
  "usage_without s j = sum_list (map (charge_of (s_entry s)) (drop j (s_lru s) @ s_use s))"

lemma usage_without_drop:
  assumes "lru_inv s" "s_lru s = a # xs"
  shows "usage_without (spec_drop s a) j = usage_without s (Suc j)"
proof -
  have a: "a \<notin> set xs" "a \<notin> set (s_use s)" using assms lru_distinct [OF assms(1)] by auto
  have "charge_of (s_entry (spec_drop s a)) b = charge_of (s_entry s) b" if "b \<noteq> a" for b
    using that by (simp add: charge_of_def spec_drop_def Let_def spec_free_def split: option.splits)
  moreover have "b \<noteq> a" if "b \<in> set (drop j xs @ s_use s)" for b
    using that a set_drop_subset [of j xs] by auto
  ultimately have "map (charge_of (s_entry (spec_drop s a))) (drop j xs @ s_use s) = map (charge_of (s_entry s)) (drop j xs @ s_use s)"
    by (intro map_cong) auto
  then show ?thesis using assms(2) a(2) unfolding usage_without_def spec_drop_lists
    by (simp add: remove1_idem del: map_eq_conv)
qed

text \<open>Eviction takes the oldest entries, as many as needed and not one more.\<close>

lemma spec_evict_drops:
  assumes "lru_inv s"
  shows "\<exists>k. k \<le> length (s_lru s) \<and> s_lru (spec_evict s) = drop k (s_lru s) \<and> s_use (spec_evict s) = s_use s
    \<and> spec_usage (spec_evict s) = usage_without s k \<and> lru_inv (spec_evict s)
    \<and> (\<forall>j<k. usage_without s j > s_capacity s)
    \<and> (usage_without s k \<le> s_capacity s \<or> k = length (s_lru s))"
  using assms
proof (induction s rule: spec_evict.induct)
  case (1 s)
  have now: "spec_usage s = usage_without s 0" by (simp add: spec_usage_def usage_without_def)
  show ?case
  proof (cases "spec_usage s > s_capacity s \<and> s_lru s \<noteq> []")
    case True
    then obtain a xs where xs: "s_lru s = a # xs" by (cases "s_lru s") auto
    have a: "a \<in> cached s" "a \<notin> set (s_use s)" using xs lru_distinct [OF "1.prems"] by (auto simp: cached_def)
    have inv: "lru_inv (spec_drop s a)" by (rule lru_inv_drop [OF "1.prems" a(1)])
    have "spec_evict s = spec_evict (spec_drop s a)" using True xs by (subst spec_evict.simps) simp
    moreover obtain k where "k \<le> length xs" "s_lru (spec_evict (spec_drop s a)) = drop k xs"
        "s_use (spec_evict (spec_drop s a)) = s_use s" "spec_usage (spec_evict (spec_drop s a)) = usage_without s (Suc k)"
        "lru_inv (spec_evict (spec_drop s a))" "\<forall>j<k. usage_without s (Suc j) > s_capacity s"
        "usage_without s (Suc k) \<le> s_capacity s \<or> k = length xs"
      using "1.IH" [OF True] inv a(2) xs by (auto simp: usage_without_drop [OF "1.prems" xs] remove1_idem)
    ultimately show ?thesis
      using True now xs by (intro exI [of _ "Suc k"]) (auto simp: less_Suc_eq_0_disj)
  next
    case False
    then have "spec_evict s = s" by (subst spec_evict.simps) auto
    with False now "1.prems" show ?thesis by (intro exI [of _ 0]) auto
  qed
qed

section \<open>Properties\<close>

text \<open>C36. \<open>LRUCache\<close> refines its specification.  A new cache represents the empty state.  On every memory that
  represents a state of the specification, \<open>Lookup\<close> (while no entry has \<open>2 ^ 32 - 2\<close> handles), \<open>Insert\<close> (with fewer
  than \<open>2 ^ 31\<close> entries cached, into free memory), \<open>Release\<close> of a held handle, and always \<open>Erase\<close> and
  \<open>Prune\<close> return (no assertion fails, no freed memory is touched, every loop ends), and the memory they leave
  represents the state that the specification computes; \<open>Lookup\<close> returns the handle of the cached
  entry of the key, and \<open>TotalCharge\<close> the charge of the cached entries.\<close>

theorem lru_cache_refines_spec:
  assumes "lru_rel c s"
  shows "(\<exists>c0. LRUCache_new = Some c0 \<and> lru_rel (SetCapacity c0 capacity) (spec_new capacity))
    \<and> ((\<forall>a. s_held s a + 1 < 2 ^ 32 - 1) \<longrightarrow>
        (\<exists>c'. LRUCache_Lookup c key hash = Some (c', spec_find s key hash) \<and> lru_rel c' (spec_lookup s key hash)))
    \<and> (card (cached s) < 2 ^ 31 \<and> c_mem c e = None \<longrightarrow>
        (\<exists>c'. LRUCache_Insert c key hash val charge deleter e = Some (c', e)
           \<and> lru_rel c' (spec_insert s e \<lparr>e_key = key, e_hash = hash, e_value = val, e_deleter = deleter, e_charge = charge\<rparr>)))
    \<and> (s_held s h > 0 \<longrightarrow> (\<exists>c'. LRUCache_Release c h = Some c' \<and> lru_rel c' (spec_release s h)))
    \<and> (\<exists>c'. LRUCache_Erase c key hash = Some c' \<and> lru_rel c' (spec_erase s key hash))
    \<and> (\<exists>c'. LRUCache_Prune c = Some c' \<and> lru_rel c' (spec_prune s))
    \<and> LRUCache_TotalCharge c = spec_usage s"
proof -
  have "s_held s h > 0 \<longrightarrow> (\<exists>c'. LRUCache_Release c h = Some c' \<and> lru_rel c' (spec_release s h))"
    using Release_ok [of "cached s" c s h] assms cached_release [OF lru_rel_inv [OF assms]] by (simp add: lru_rel_def)
  moreover have "LRUCache_TotalCharge c = spec_usage s"
    using assms(1) by (simp add: LRUCache_TotalCharge_def lru_rel_def rel_def)
  ultimately show ?thesis
    using new_ok [of capacity] Lookup_ok [OF assms] Insert_ok [OF assms _ _ refl]
      remove_and_finish_ok [OF assms] prune_ok [OF assms]
    by (simp add: LRUCache_Erase_def)
qed

lemma example_state:
  obtains c c1 where "LRUCache_new = Some c"
    "LRUCache_Insert (SetCapacity c 10) [1] 7 5 3 0 2 = Some (c1, 2)"
    "lru_rel c1 (spec_insert (spec_new 10) 2 \<lparr>e_key = [1], e_hash = 7, e_value = 5, e_deleter = 0, e_charge = 3\<rparr>)"
    "c_mem (SetCapacity c 10) 2 = None" "lru_rel (SetCapacity c 10) (spec_new 10)"
proof -
  obtain c where c: "LRUCache_new = Some c" "lru_rel (SetCapacity c 10) (spec_new 10)" using new_ok by blast
  have "dat (c_mem (SetCapacity c 10)) 2 = spec_dat (spec_new 10) 2"
    using c(2) by (simp add: lru_rel_def rel_def mem_rel_def lru_head_def in_use_head_def)
  then have "c_mem (SetCapacity c 10) 2 = None" by (simp add: spec_dat_def spec_new_def dat_def)
  with that c Insert_ok [OF c(2) this _ refl, of "[1]" 7 5 3 0] show thesis by (auto simp: cached_def spec_new_def)
qed

lemma example_spec:
  "spec_insert (spec_new 10) 2 \<lparr>e_key = [1], e_hash = 7, e_value = 5, e_deleter = 0, e_charge = 3\<rparr> =
     (spec_new_entry (spec_new 10) 2 \<lparr>e_key = [1], e_hash = 7, e_value = 5, e_deleter = 0, e_charge = 3\<rparr>)\<lparr>s_use := [2]\<rparr>"
  by (simp add: spec_insert_def spec_new_def spec_find_def spec_new_entry_def spec_evict.simps spec_usage_def charge_of_def)

text \<open>From a new cache, with no handle out.\<close>

theorem lru_cache_refines_spec_witness:
  "\<exists>c c1. LRUCache_new = Some c \<and> LRUCache_Insert (SetCapacity c 10) [1] 7 5 3 0 2 = Some (c1, 2)
    \<and> (\<exists>c2. LRUCache_Lookup (SetCapacity c 10) [1] 7 = Some (c2, None))
    \<and> (\<exists>c2. LRUCache_Lookup c1 [1] 7 = Some (c2, Some 2)) \<and> (\<exists>c2. LRUCache_Release c1 2 = Some c2)
    \<and> (\<exists>c2. LRUCache_Erase c1 [1] 7 = Some c2) \<and> LRUCache_TotalCharge c1 = 3"
proof -
  let ?s = "spec_insert (spec_new 10) 2 \<lparr>e_key = [1], e_hash = 7, e_value = 5, e_deleter = 0, e_charge = 3\<rparr>"
  obtain c c1 where c: "LRUCache_new = Some c" "LRUCache_Insert (SetCapacity c 10) [1] 7 5 3 0 2 = Some (c1, 2)" "lru_rel c1 ?s"
    "lru_rel (SetCapacity c 10) (spec_new 10)"
    by (rule example_state)
  have held: "\<forall>a. s_held ?s a + 1 < 2 ^ 32 - 1" "s_held ?s 2 > 0" "\<forall>a. s_held (spec_new 10) a + 1 < 2 ^ 32 - 1"
    unfolding example_spec by (simp_all add: spec_new_entry_def spec_new_def)
  have spec: "spec_find ?s [1] 7 = Some 2" "spec_usage ?s = 3" "spec_find (spec_new 10) [1] 7 = None"
    unfolding example_spec by (simp_all add: spec_find_def spec_new_entry_def spec_new_def has_key_def spec_usage_def charge_of_def)
  note one = lru_cache_refines_spec [OF c(3), where key = "[1]" and hash = 7 and h = 2, unfolded spec]
    and empty = lru_cache_refines_spec [OF c(4), where key = "[1]" and hash = 7, unfolded spec]
  have "\<exists>c2. LRUCache_Lookup (SetCapacity c 10) [1] 7 = Some (c2, None)" using empty held(3) by blast
  moreover have "\<exists>c2. LRUCache_Lookup c1 [1] 7 = Some (c2, Some 2)" using one held(1) by blast
  moreover have "\<exists>c2. LRUCache_Release c1 2 = Some c2" using one held(2) by blast
  moreover have "\<exists>c2. LRUCache_Erase c1 [1] 7 = Some c2" "LRUCache_TotalCharge c1 = 3" using one by blast+
  ultimately show ?thesis using c(1,2) by blast
qed

lemma filter_other_keys:
  assumes "lru_rel c s" "xs = s_lru s \<or> xs = s_use s"
  shows "filter (\<lambda>a. \<not> has_key s key hash a) xs = (case spec_find s key hash of None \<Rightarrow> xs | Some a \<Rightarrow> remove1 a xs)"
proof -
  have sub: "set xs \<subseteq> cached s" and dist: "distinct xs"
    using assms(2) lru_distinct [OF lru_rel_inv [OF assms(1)]] by (auto simp: cached_def)
  have unique: "spec_find s key hash = Some a" if "a \<in> set xs" "has_key s key hash a" for a
    using that sub spec_find_own_key [OF assms(1), of a] by (auto simp: has_key_def split: option.splits)
  show ?thesis
  proof (cases "spec_find s key hash")
    case None
    with unique have "\<forall>a\<in>set xs. \<not> has_key s key hash a" by auto
    with None show ?thesis by (simp add: filter_id_conv)
  next
    case (Some b)
    have "has_key s key hash b" using spec_find_cached [OF Some] by blast
    then have "has_key s key hash a \<longleftrightarrow> a = b" if "a \<in> set xs" for a
      using that unique [OF that] Some by auto
    then have "filter (\<lambda>a. \<not> has_key s key hash a) xs = filter (\<lambda>a. b \<noteq> a) xs" by (intro filter_cong) auto
    with Some dist show ?thesis by (simp add: distinct_remove1_removeAll removeAll_filter_not_eq)
  qed
qed

lemma usage_without_Suc:
  "0 < k \<Longrightarrow> k \<le> length (s_lru s) \<Longrightarrow> usage_without s (k - 1) = charge_of (s_entry s) (s_lru s ! (k - 1)) + usage_without s k"
  using Cons_nth_drop_Suc [of "k - 1" "s_lru s", symmetric] by (simp add: usage_without_def add.assoc)

text \<open>C37. Capacity and eviction order: after \<open>Insert\<close> the total charge is at most the capacity, or every
  cached entry is in use.  The entries that go are the one with the same key and a number of the oldest
  unused ones, and not one more than needed: with one less the charge would still exceed the capacity.
  Entries in use are not evicted.\<close>

theorem insert_evicts_oldest_first:
  assumes "lru_rel c s" and "c_mem c e = None" and "card (cached s) < 2 ^ 31" and "c_capacity c > 0"
  shows "\<exists>c' s' k. LRUCache_Insert c key hash val charge deleter e = Some (c', e) \<and> lru_rel c' s'
    \<and> (LRUCache_TotalCharge c' \<le> c_capacity c \<or> s_lru s' = [])
    \<and> s_lru s' = drop k (filter (\<lambda>a. \<not> has_key s key hash a) (s_lru s))
    \<and> s_use s' = filter (\<lambda>a. \<not> has_key s key hash a) (s_use s) @ [e]
    \<and> (k > 0 \<longrightarrow> LRUCache_TotalCharge c'
        + charge_of (s_entry s) (filter (\<lambda>a. \<not> has_key s key hash a) (s_lru s) ! (k - 1)) > c_capacity c)"
proof -
  let ?en = "\<lparr>e_key = key, e_hash = hash, e_value = val, e_deleter = deleter, e_charge = charge\<rparr>"
  let ?L = "filter (\<lambda>a. \<not> has_key s key hash a) (s_lru s)" and ?U = "filter (\<lambda>a. \<not> has_key s key hash a) (s_use s)"
  let ?s0 = "(spec_new_entry s e ?en)\<lparr>s_use := s_use s @ [e]\<rparr>"
  define s1 where "s1 = (case spec_find s key hash of None \<Rightarrow> ?s0 | Some a \<Rightarrow> spec_drop ?s0 a)"
  note fresh = fresh_address [OF assms(1,2)]
  have cap: "s_capacity s = c_capacity c" using assms(1) by (simp add: lru_rel_def rel_def)
  then have s': "spec_insert s e ?en = spec_evict s1" using assms(4) by (simp add: spec_insert_def Let_def s1_def)
  have old: "a \<noteq> e \<and> a \<in> cached ?s0" if "spec_find s key hash = Some a" for a
    using spec_find_cached [OF that] fresh(4) by (auto simp: cached_def spec_new_entry_def)
  have inv0: "lru_inv ?s0" by (rule lru_inv_new_cached [OF lru_rel_inv [OF assms(1)] fresh(1-3)])
  have inv: "lru_inv s1"
    unfolding s1_def using inv0 lru_inv_drop [OF inv0] old by (simp split: option.splits)
  have snoc: "remove1 a (s_use s @ [e]) = remove1 a (s_use s) @ [e]" if "spec_find s key hash = Some a" for a
    using old [OF that] by (simp add: remove1_append remove1_idem)
  have lists: "s_lru s1 = ?L" "s_use s1 = ?U @ [e]" "s_capacity s1 = c_capacity c"
    using cap snoc unfolding filter_other_keys [OF assms(1), of "s_lru s", OF disjI1 [OF refl]]
      filter_other_keys [OF assms(1), of "s_use s", OF disjI2 [OF refl]]
    by (simp_all add: s1_def spec_new_entry_def split: option.splits)
  have charge: "charge_of (s_entry s1) a = charge_of (s_entry s) a" if "a \<in> set ?L" for a
  proof -
    have "a \<noteq> e" "spec_find s key hash \<noteq> Some a" using that fresh(4) spec_find_cached by (auto simp: cached_def)
    then show ?thesis
      by (auto simp: s1_def charge_of_def spec_drop_def spec_free_def spec_new_entry_def Let_def split: option.splits)
  qed
  obtain c' where c': "LRUCache_Insert c key hash val charge deleter e = Some (c', e)" "lru_rel c' (spec_evict s1)"
    using Insert_ok [OF assms(1-3), of ?en key hash val deleter charge] s' by auto
  obtain k where k: "k \<le> length ?L" "s_lru (spec_evict s1) = drop k ?L" "s_use (spec_evict s1) = ?U @ [e]"
      "spec_usage (spec_evict s1) = usage_without s1 k" "\<forall>j<k. usage_without s1 j > c_capacity c"
      "usage_without s1 k \<le> c_capacity c \<or> k = length ?L"
    using spec_evict_drops [OF inv] unfolding lists by blast
  have total: "LRUCache_TotalCharge c' = usage_without s1 k"
    using c'(2) k(4) by (simp add: LRUCache_TotalCharge_def lru_rel_def rel_def)
  have "LRUCache_TotalCharge c' + charge_of (s_entry s) (?L ! (k - 1)) > c_capacity c" if "k > 0"
  proof -
    have "?L ! (k - 1) \<in> set ?L" using that k(1) by (intro nth_mem) simp
    note charge [OF this]
    with k(5) [rule_format, of "k - 1"] that usage_without_Suc [of k s1] k(1) show ?thesis
      unfolding total lists(1) by (simp add: add.commute)
  qed
  with c' k total show ?thesis by (intro exI [of _ c'] exI [of _ "spec_evict s1"] exI [of _ k]) auto
qed

theorem insert_evicts_oldest_first_witness:
  "\<exists>c c1. LRUCache_new = Some c \<and> LRUCache_Insert (SetCapacity c 10) [1] 7 5 3 0 2 = Some (c1, 2)
    \<and> LRUCache_TotalCharge c1 \<le> 10"
proof -
  obtain c c1 where c: "LRUCache_new = Some c" "LRUCache_Insert (SetCapacity c 10) [1] 7 5 3 0 2 = Some (c1, 2)"
      "c_mem (SetCapacity c 10) 2 = None" "lru_rel (SetCapacity c 10) (spec_new 10)"
      "lru_rel c1 (spec_insert (spec_new 10) 2 \<lparr>e_key = [1], e_hash = 7, e_value = 5, e_deleter = 0, e_charge = 3\<rparr>)"
    by (rule example_state)
  have "c_capacity (SetCapacity c 10) = 10" by (simp add: SetCapacity_def)
  moreover have "LRUCache_TotalCharge c1 = 3"
    using c(5) unfolding example_spec
    by (simp add: LRUCache_TotalCharge_def lru_rel_def rel_def spec_usage_def spec_new_entry_def spec_new_def charge_of_def)
  ultimately show ?thesis
    using insert_evicts_oldest_first [OF c(4,3), of "[1]" 7 5 3 0] c(1,2) by (auto simp: cached_def spec_new_def)
qed

end
