(* ===== verification/Sharded_Cache.thy ===== *)
theory Sharded_Cache
  imports Lru_Refine Hash "HOL-Library.Multiset"
begin

text \<open>
  The cache that clients use, \<open>ShardedLRUCache\<close> of \<open>cache/cache.cpp\<close> behind the interface of
  \<open>cache/cache.h\<close>: sixteen shards, chosen by the upper four bits of the hash of the key.

  Each shard has a memory of its own, and a handle is an address in the memory of the shard that
  allocated it.  \<open>Release\<close> finds the shard from the hash stored in the handle, as the code does; passing
  a handle to another shard than its own is \<open>None\<close>.

  \<open>cache_run\<close> is the client: any sequence of calls that releases only handles it holds.
\<close>

section \<open>Definitions\<close>

definition kNumShardBits :: nat where
  "kNumShardBits = 4"

definition kNumShards :: nat where
  "kNumShards = 2 ^ kNumShardBits"

type_synonym handle = "nat \<times> addr"

record ShardedLRUCache =
  sh_shards :: "LRUCache list"
  sh_last_id :: u64

definition HashSlice :: "bytes \<Rightarrow> u32" where
  "HashSlice s = Hash s 0"

definition Shard :: "u32 \<Rightarrow> nat" where
  "Shard hash = unat (drop_bit (32 - kNumShardBits) hash)"

definition per_shard :: "u64 \<Rightarrow> u64" where
  "per_shard capacity = (capacity + (of_nat kNumShards - 1)) div of_nat kNumShards"

text \<open>The shards are constructed one by one; every construction gives the same object.\<close>

definition ShardedLRUCache_new :: "u64 \<Rightarrow> ShardedLRUCache option" where
  "ShardedLRUCache_new capacity =
     do {
       c \<leftarrow> LRUCache_new;
       Some \<lparr>sh_shards = replicate kNumShards (SetCapacity c (per_shard capacity)), sh_last_id = 0\<rparr>
     }"

definition NewLRUCache :: "u64 \<Rightarrow> ShardedLRUCache option" where
  "NewLRUCache capacity = ShardedLRUCache_new capacity"

definition set_shard :: "ShardedLRUCache \<Rightarrow> nat \<Rightarrow> LRUCache \<Rightarrow> ShardedLRUCache" where
  "set_shard s i c = s\<lparr>sh_shards := (sh_shards s)[i := c]\<rparr>"

definition Cache_Insert ::
  "ShardedLRUCache \<Rightarrow> bytes \<Rightarrow> nat \<Rightarrow> u64 \<Rightarrow> nat \<Rightarrow> addr \<Rightarrow> (ShardedLRUCache \<times> handle) option" where
  "Cache_Insert s key val charge deleter e =
     (let hash = HashSlice key; i = Shard hash in
      do {
        (c, h) \<leftarrow> LRUCache_Insert (sh_shards s ! i) key hash val charge deleter e;
        Some (set_shard s i c, (i, h))
      })"

definition Cache_Lookup :: "ShardedLRUCache \<Rightarrow> bytes \<Rightarrow> (ShardedLRUCache \<times> handle option) option" where
  "Cache_Lookup s key =
     (let hash = HashSlice key; i = Shard hash in
      do {
        (c, r) \<leftarrow> LRUCache_Lookup (sh_shards s ! i) key hash;
        Some (set_shard s i c, map_option (\<lambda>a. (i, a)) r)
      })"

fun Cache_Release :: "ShardedLRUCache \<Rightarrow> handle \<Rightarrow> ShardedLRUCache option" where
  "Cache_Release s (i, a) =
     do {
       x \<leftarrow> c_mem (sh_shards s ! i) a;
       if Shard (h_hash x) \<noteq> i then None
       else do { c \<leftarrow> LRUCache_Release (sh_shards s ! i) a; Some (set_shard s i c) }
     }"

fun Cache_Value :: "ShardedLRUCache \<Rightarrow> handle \<Rightarrow> nat option" where
  "Cache_Value s (i, a) = map_option h_value (c_mem (sh_shards s ! i) a)"

definition Cache_Erase :: "ShardedLRUCache \<Rightarrow> bytes \<Rightarrow> ShardedLRUCache option" where
  "Cache_Erase s key =
     (let hash = HashSlice key; i = Shard hash in
      do { c \<leftarrow> LRUCache_Erase (sh_shards s ! i) key hash; Some (set_shard s i c) })"

definition Cache_NewId :: "ShardedLRUCache \<Rightarrow> ShardedLRUCache \<times> u64" where
  "Cache_NewId s = (s\<lparr>sh_last_id := sh_last_id s + 1\<rparr>, sh_last_id s + 1)"

primrec Prune_loop :: "LRUCache list \<Rightarrow> LRUCache list option" where
  "Prune_loop [] = Some []"
| "Prune_loop (c # cs) = do { c \<leftarrow> LRUCache_Prune c; cs \<leftarrow> Prune_loop cs; Some (c # cs) }"

definition Cache_Prune :: "ShardedLRUCache \<Rightarrow> ShardedLRUCache option" where
  "Cache_Prune s = do { cs \<leftarrow> Prune_loop (sh_shards s); Some (s\<lparr>sh_shards := cs\<rparr>) }"

definition Cache_TotalCharge :: "ShardedLRUCache \<Rightarrow> u64" where
  "Cache_TotalCharge s = foldl (\<lambda>total c. total + LRUCache_TotalCharge c) 0 (sh_shards s)"

text \<open>The destructor destroys the shards: the deleter calls of all of them.\<close>

primrec destroy_shards :: "LRUCache list \<Rightarrow> LRUCache list option" where
  "destroy_shards [] = Some []"
| "destroy_shards (c # cs) = do { cs \<leftarrow> destroy_shards cs; c \<leftarrow> LRUCache_destroy c; Some (c # cs) }"

section \<open>The client\<close>

text \<open>
  Ghost state of a run: the specification of each shard, the value that was lst inserted for a key and
  not erased since, and all entries inserted.
\<close>

definition new_entry :: "bytes \<Rightarrow> nat \<Rightarrow> u64 \<Rightarrow> nat \<Rightarrow> entry" where
  "new_entry key val charge deleter =
     \<lparr>e_key = key, e_hash = HashSlice key, e_value = val, e_deleter = deleter, e_charge = charge\<rparr>"

abbreviation shard_of :: "bytes \<Rightarrow> nat" where
  "shard_of key \<equiv> Shard (HashSlice key)"

text \<open>Room in the counters: entries of the shard, and handles of one entry.\<close>

definition room :: "lru_state \<Rightarrow> bool" where
  "room s \<longleftrightarrow> card (cached s) < 2 ^ 31 \<and> (\<forall>a. s_held s a + 1 < 2 ^ 32 - 1)"

inductive cache_run ::
  "u64 \<Rightarrow> ShardedLRUCache \<Rightarrow> lru_state list \<Rightarrow> (bytes \<Rightarrow> nat option) \<Rightarrow> entry list \<Rightarrow> bool"
  for capacity where
  run_new: "ShardedLRUCache_new capacity = Some c \<Longrightarrow>
    cache_run capacity c (replicate kNumShards (spec_new (per_shard capacity))) (\<lambda>_. None) []"
| run_insert: "cache_run capacity c ss lst ins \<Longrightarrow> room (ss ! shard_of key) \<Longrightarrow>
    c_mem (sh_shards c ! shard_of key) e = None \<Longrightarrow>
    Cache_Insert c key val charge deleter e = Some (c', h) \<Longrightarrow>
    cache_run capacity c'
      (ss[shard_of key := spec_insert (ss ! shard_of key) e (new_entry key val charge deleter)])
      (lst(key \<mapsto> val)) (ins @ [new_entry key val charge deleter])"
| run_lookup: "cache_run capacity c ss lst ins \<Longrightarrow> room (ss ! shard_of key) \<Longrightarrow>
    Cache_Lookup c key = Some (c', r) \<Longrightarrow>
    cache_run capacity c' (ss[shard_of key := spec_lookup (ss ! shard_of key) key (HashSlice key)]) lst ins"
| run_release: "cache_run capacity c ss lst ins \<Longrightarrow> i < kNumShards \<Longrightarrow> s_held (ss ! i) a > 0 \<Longrightarrow>
    Cache_Release c (i, a) = Some c' \<Longrightarrow>
    cache_run capacity c' (ss[i := spec_release (ss ! i) a]) lst ins"
| run_erase: "cache_run capacity c ss lst ins \<Longrightarrow> Cache_Erase c key = Some c' \<Longrightarrow>
    cache_run capacity c' (ss[shard_of key := spec_erase (ss ! shard_of key) key (HashSlice key)])
      (lst(key := None)) ins"
| run_prune: "cache_run capacity c ss lst ins \<Longrightarrow> Cache_Prune c = Some c' \<Longrightarrow>
    cache_run capacity c' (map spec_prune ss) lst ins"
| run_new_id: "cache_run capacity c ss lst ins \<Longrightarrow> cache_run capacity (fst (Cache_NewId c)) ss lst ins"

inductive_cases cache_runE: "cache_run capacity c ss lst ins"

section \<open>What the operations of a shard keep\<close>

text \<open>Entries and cached entries only disappear.\<close>

definition shrinks :: "lru_state \<Rightarrow> lru_state \<Rightarrow> bool" where
  "shrinks s s' \<longleftrightarrow> cached s' \<subseteq> cached s \<and> s_capacity s' = s_capacity s
     \<and> (\<forall>a. s_entry s' a = s_entry s a \<or> s_entry s' a = None)"

lemma shrinks_refl [simp]: "shrinks s s"
  by (simp add: shrinks_def)

lemma shrinks_trans: "shrinks s s' \<Longrightarrow> shrinks s' s'' \<Longrightarrow> shrinks s s''"
  unfolding shrinks_def by (metis subset_trans)

lemma shrinks_take: "shrinks s (spec_take s a)"
  by (simp add: shrinks_def cached_take)

lemma entry_free: "s_entry (spec_free s a) = (s_entry s)(a := None)"
  by (auto simp: spec_free_def split: option.splits)

lemma entry_drop: "s_entry (spec_drop s a) = (if s_held s a = 0 then (s_entry s)(a := None) else s_entry s)"
  by (simp add: spec_drop_def Let_def entry_free)

lemma entry_release:
  "s_entry (spec_release s a) = (if s_held s a - 1 > 0 \<or> a \<in> set (s_use s) then s_entry s else (s_entry s)(a := None))"
  by (simp add: spec_release_def Let_def entry_free)

lemma shrinks_drop: "lru_inv s \<Longrightarrow> shrinks s (spec_drop s a)"
  by (auto simp: shrinks_def cached_drop entry_drop)

lemma shrinks_release: "lru_inv s \<Longrightarrow> shrinks s (spec_release s a)"
proof -
  assume "lru_inv s"
  moreover have "s_capacity (spec_release s a) = s_capacity s" by (simp add: spec_release_def Let_def)
  ultimately show ?thesis by (auto simp: shrinks_def cached_release entry_release)
qed

lemma shrinks_evict: "lru_inv s \<Longrightarrow> shrinks s (spec_evict s)"
proof (induction s rule: spec_evict.induct)
  case (1 s)
  show ?case
  proof (cases "spec_usage s > s_capacity s \<and> s_lru s \<noteq> []")
    case True
    have "hd (s_lru s) \<in> cached s" using True by (simp add: cached_def)
    then have "lru_inv (spec_drop s (hd (s_lru s)))" by (rule lru_inv_drop [OF "1.prems"])
    with "1.IH" [OF True] have "shrinks s (spec_evict (spec_drop s (hd (s_lru s))))"
      using shrinks_trans [OF shrinks_drop [OF "1.prems"]] by blast
    with True show ?thesis by (subst spec_evict.simps) simp
  next
    case False
    then show ?thesis by (subst spec_evict.simps) auto
  qed
qed

lemma prune_step:
  assumes "lru_inv s"
  shows "lru_inv (spec_prune s) \<and> shrinks s (spec_prune s)"
proof -
  have "lru_inv (fold (\<lambda>a s. spec_drop s a) xs s) \<and> shrinks s (fold (\<lambda>a s. spec_drop s a) xs s)"
    if "lru_inv s" "s_lru s = xs" for s xs
    using that
  proof (induction xs arbitrary: s)
    case (Cons a xs)
    have inv: "lru_inv (spec_drop s a)"
      by (rule lru_inv_drop [OF Cons.prems(1)]) (simp add: cached_def Cons.prems(2))
    have "s_lru (spec_drop s a) = xs" using Cons.prems(2) by simp
    from Cons.IH [OF inv this] shrinks_trans [OF shrinks_drop [OF Cons.prems(1)]] show ?case by auto
  qed simp
  with assms show ?thesis by (simp add: spec_prune_def)
qed

lemma shrinks_lookup: "shrinks s (spec_lookup s key hash)"
  by (simp add: spec_lookup_def shrinks_take split: option.splits)

lemma shrinks_erase: "lru_inv s \<Longrightarrow> shrinks s (spec_erase s key hash)"
  by (simp add: spec_erase_def shrinks_drop split: option.splits)

subsection \<open>Deleter calls\<close>

text \<open>The calls made so far and those the live entries will get.\<close>

definition live_calls :: "lru_state \<Rightarrow> (nat \<times> bytes \<times> nat) multiset" where
  "live_calls s = image_mset (\<lambda>a. dead_call (the (s_entry s a))) (mset_set (dom (s_entry s)))"

definition all_calls :: "lru_state \<Rightarrow> (nat \<times> bytes \<times> nat) multiset" where
  "all_calls s = mset (s_dead s) + live_calls s"

lemma all_calls_cong: "s_entry s' = s_entry s \<Longrightarrow> s_dead s' = s_dead s \<Longrightarrow> all_calls s' = all_calls s"
  by (simp add: all_calls_def live_calls_def)

lemma live_calls_upd:
  assumes "finite (dom ents)" "ents a = None"
  shows "image_mset (\<lambda>b. dead_call (the ((ents(a \<mapsto> en)) b))) (mset_set (dom (ents(a \<mapsto> en))))
    = add_mset (dead_call en) (image_mset (\<lambda>b. dead_call (the (ents b))) (mset_set (dom ents)))"
proof -
  have "a \<notin> dom ents" using assms(2) by auto
  moreover have "image_mset (\<lambda>b. dead_call (the ((ents(a \<mapsto> en)) b))) (mset_set (dom ents))
      = image_mset (\<lambda>b. dead_call (the (ents b))) (mset_set (dom ents))"
    using assms calculation by (intro image_mset_cong) auto
  ultimately show ?thesis using assms(1) by simp
qed

lemma all_calls_free:
  assumes "finite (dom (s_entry s))"
  shows "all_calls (spec_free s a) = all_calls s"
proof (cases "s_entry s a")
  case (Some en)
  let ?ents = "(s_entry s)(a := None)"
  have "s_entry s = ?ents(a \<mapsto> en)" using Some by (auto simp: fun_eq_iff)
  then have "live_calls s = add_mset (dead_call en) (image_mset (\<lambda>b. dead_call (the (?ents b))) (mset_set (dom ?ents)))"
    using live_calls_upd [of ?ents a en] assms unfolding live_calls_def by simp
  with Some show ?thesis by (simp add: all_calls_def live_calls_def spec_free_Some dead_call_def)
qed (simp add: spec_free_def)

lemma all_calls_take: "all_calls (spec_take s a) = all_calls s"
  by (rule all_calls_cong) simp_all

lemma all_calls_drop:
  assumes "finite (dom (s_entry s))"
  shows "all_calls (spec_drop s a) = all_calls s"
proof -
  let ?s = "s\<lparr>s_lru := remove1 a (s_lru s), s_use := remove1 a (s_use s)\<rparr>"
  have "all_calls ?s = all_calls s" by (rule all_calls_cong) simp_all
  moreover have "all_calls (spec_free ?s a) = all_calls ?s" by (rule all_calls_free) (simp add: assms)
  ultimately show ?thesis by (simp add: spec_drop_def Let_def)
qed

lemma all_calls_release:
  assumes "finite (dom (s_entry s))"
  shows "all_calls (spec_release s a) = all_calls s"
proof -
  have same: "all_calls (s\<lparr>s_held := f\<rparr>) = all_calls s" "all_calls (s\<lparr>s_held := f, s_use := us, s_lru := ls\<rparr>) = all_calls s" for f us ls
    by (rule all_calls_cong; simp)+
  moreover have "all_calls (spec_free (s\<lparr>s_held := f\<rparr>) a) = all_calls s" for f
    using all_calls_free [of "s\<lparr>s_held := f\<rparr>" a] assms same(1) by simp
  ultimately show ?thesis by (simp add: spec_release_def Let_def)
qed

lemma shrinks_finite: "shrinks s s' \<Longrightarrow> finite (dom (s_entry s)) \<Longrightarrow> finite (dom (s_entry s'))"
  by (rule finite_subset [of _ "dom (s_entry s)"]) (auto simp: shrinks_def dom_def, metis option.distinct(1))

lemma all_calls_evict: "lru_inv s \<Longrightarrow> finite (dom (s_entry s)) \<Longrightarrow> all_calls (spec_evict s) = all_calls s"
proof (induction s rule: spec_evict.induct)
  case (1 s)
  show ?case
  proof (cases "spec_usage s > s_capacity s \<and> s_lru s \<noteq> []")
    case True
    have "hd (s_lru s) \<in> cached s" using True by (simp add: cached_def)
    then have "lru_inv (spec_drop s (hd (s_lru s)))" by (rule lru_inv_drop [OF "1.prems"(1)])
    moreover have "finite (dom (s_entry (spec_drop s (hd (s_lru s)))))"
      by (rule shrinks_finite [OF shrinks_drop [OF "1.prems"(1)] "1.prems"(2)])
    ultimately show ?thesis
      using "1.IH" [OF True] True all_calls_drop [OF "1.prems"(2)] by (subst spec_evict.simps) simp
  next
    case False
    then show ?thesis by (subst spec_evict.simps) auto
  qed
qed

lemma all_calls_prune:
  assumes "lru_inv s" "finite (dom (s_entry s))"
  shows "all_calls (spec_prune s) = all_calls s"
proof -
  have "all_calls (fold (\<lambda>a s. spec_drop s a) xs s) = all_calls s" if "lru_inv s" "finite (dom (s_entry s))" "s_lru s = xs" for s xs
    using that
  proof (induction xs arbitrary: s)
    case (Cons a xs)
    have inv: "lru_inv (spec_drop s a)"
      by (rule lru_inv_drop [OF Cons.prems(1)]) (simp add: cached_def Cons.prems(3))
    have "s_lru (spec_drop s a) = xs" using Cons.prems(3) by simp
    from Cons.IH [OF inv shrinks_finite [OF shrinks_drop [OF Cons.prems(1)] Cons.prems(2)] this] all_calls_drop [OF Cons.prems(2)]
    show ?case by simp
  qed simp
  with assms show ?thesis by (simp add: spec_prune_def)
qed

lemma has_key_iff_find:
  assumes "lru_rel c s" "a \<in> cached s"
  shows "has_key s key hash a \<longleftrightarrow> spec_find s key hash = Some a"
proof
  assume "has_key s key hash a"
  then obtain en where "s_entry s a = Some en" "e_key en = key" "e_hash en = hash"
    by (auto simp: has_key_def split: option.splits)
  with spec_find_own_key [OF assms] show "spec_find s key hash = Some a" by blast
next
  assume "spec_find s key hash = Some a"
  then show "has_key s key hash a" using spec_find_cached by blast
qed

lemma insert_state:
  assumes "lru_rel c s" "c_mem c e = None"
  obtains s1 where "spec_insert s e en = spec_evict s1" "lru_inv s1" "s_capacity s1 = s_capacity s"
    "\<And>a. a \<in> cached s1 \<Longrightarrow> a = e \<and> s_capacity s > 0 \<or> a \<in> cached s \<and> (s_capacity s > 0 \<longrightarrow> \<not> has_key s (e_key en) (e_hash en) a)"
    "\<And>a. s_entry s1 a = s_entry s a \<or> s_entry s1 a = None \<or> a = e \<and> s_entry s1 a = Some en"
    "finite (dom (s_entry s)) \<Longrightarrow> finite (dom (s_entry s1)) \<and> all_calls s1 = add_mset (dead_call en) (all_calls s)"
proof -
  note fresh = fresh_address [OF assms]
  have inv: "lru_inv s" by (rule lru_rel_inv [OF assms(1)])
  let ?n = "spec_new_entry s e en"
  have calls: "all_calls ?n = add_mset (dead_call en) (all_calls s)" "finite (dom (s_entry ?n))" if "finite (dom (s_entry s))"
    using live_calls_upd [OF that fresh(1), of en] that by (simp_all add: all_calls_def live_calls_def spec_new_entry_def)
  show thesis
  proof (cases "s_capacity s > 0")
    case False
    show thesis
    proof (rule that [of ?n])
      show "spec_insert s e en = spec_evict ?n" using False by (simp add: spec_insert_def)
      show "lru_inv ?n" by (rule lru_inv_new [OF inv fresh(1-3)])
    qed (use calls False in \<open>auto simp: spec_new_entry_def cached_def\<close>)
  next
    case True
    let ?s0 = "?n\<lparr>s_use := s_use s @ [e]\<rparr>"
    define s1 where "s1 = (case spec_find s (e_key en) (e_hash en) of None \<Rightarrow> ?s0 | Some a \<Rightarrow> spec_drop ?s0 a)"
    have inv0: "lru_inv ?s0" by (rule lru_inv_new_cached [OF inv fresh(1-3)])
    have cached0: "cached ?s0 = insert e (cached s)" by (auto simp: cached_def spec_new_entry_def)
    have calls0: "all_calls ?s0 = all_calls ?n" by (rule all_calls_cong) simp_all
    have other: "has_key s (e_key en) (e_hash en) a \<longleftrightarrow> spec_find s (e_key en) (e_hash en) = Some a" if "a \<in> cached s" for a
      by (rule has_key_iff_find [OF assms(1) that])
    have old: "a \<in> cached s \<and> a \<noteq> e" if "spec_find s (e_key en) (e_hash en) = Some a" for a
      using spec_find_cached [OF that] fresh(4) by auto
    show thesis
    proof (rule that [of s1])
      show "spec_insert s e en = spec_evict s1" using True by (simp add: spec_insert_def s1_def Let_def)
      show "lru_inv s1" unfolding s1_def using inv0 lru_inv_drop [OF inv0] old cached0 by (auto split: option.splits)
      show "s_capacity s1 = s_capacity s" by (simp add: s1_def spec_new_entry_def split: option.splits)
      have "cached s1 = insert e (cached s) - set_option (spec_find s (e_key en) (e_hash en))"
        unfolding s1_def using cached0 cached_drop [OF inv0] by (auto split: option.splits)
      then show "a = e \<and> s_capacity s > 0 \<or> a \<in> cached s \<and> (s_capacity s > 0 \<longrightarrow> \<not> has_key s (e_key en) (e_hash en) a)"
        if "a \<in> cached s1" for a
        using that True other by auto
      show "s_entry s1 a = s_entry s a \<or> s_entry s1 a = None \<or> a = e \<and> s_entry s1 a = Some en" for a
        by (auto simp: s1_def entry_drop spec_new_entry_def split: option.splits)
      show "finite (dom (s_entry s1)) \<and> all_calls s1 = add_mset (dead_call en) (all_calls s)" if "finite (dom (s_entry s))"
      proof -
        have fin: "finite (dom (s_entry ?s0))" using calls(2) [OF that] by simp
        have "all_calls s1 = all_calls ?s0" unfolding s1_def using all_calls_drop [OF fin] by (simp split: option.splits)
        moreover have "finite (dom (s_entry s1))"
          unfolding s1_def using fin shrinks_finite [OF shrinks_drop [OF inv0] fin] by (simp split: option.splits)
        ultimately show ?thesis using calls(1) [OF that] calls0 by simp
      qed
    qed
  qed
qed

section \<open>The invariant of a run\<close>

text \<open>
  The entries of shard \<open>i\<close> have their hash and belong to it; the cached ones carry the value last
  inserted for their key.
\<close>

definition shard_inv :: "nat \<Rightarrow> lru_state \<Rightarrow> (bytes \<Rightarrow> nat option) \<Rightarrow> bool" where
  "shard_inv i s lst \<longleftrightarrow>
     finite (dom (s_entry s)) \<and> (s_capacity s = 0 \<longrightarrow> cached s = {})
     \<and> (\<forall>a en. s_entry s a = Some en \<longrightarrow> e_hash en = HashSlice (e_key en) \<and> shard_of (e_key en) = i)
     \<and> (\<forall>a en. a \<in> cached s \<longrightarrow> s_entry s a = Some en \<longrightarrow> lst (e_key en) = Some (e_value en))"

definition run_inv :: "ShardedLRUCache \<Rightarrow> lru_state list \<Rightarrow> (bytes \<Rightarrow> nat option) \<Rightarrow> entry list \<Rightarrow> bool" where
  "run_inv c ss lst ins \<longleftrightarrow>
     length (sh_shards c) = kNumShards \<and> length ss = kNumShards
     \<and> (\<forall>i<kNumShards. lru_rel (sh_shards c ! i) (ss ! i) \<and> shard_inv i (ss ! i) lst)
     \<and> sum_list (map all_calls ss) = image_mset dead_call (mset ins)"

lemma Shard_less [simp]: "Shard hash < kNumShards"
proof -
  have "unat hash < 2 ^ 28 * 2 ^ 4" using unsigned_less [of hash] by simp
  then have "unat hash div 2 ^ 28 < 2 ^ 4" by (simp add: less_mult_imp_div_less)
  moreover have "Shard hash = unat hash div 2 ^ 28"
    by (simp add: Shard_def kNumShardBits_def unat_drop_bit_eq drop_bit_eq_div unat_div)
  ultimately show ?thesis by (simp add: kNumShards_def kNumShardBits_def)
qed

lemma shard_inv_other:
  "shard_inv j s lst \<Longrightarrow> j \<noteq> shard_of key \<Longrightarrow> shard_inv j s (lst(key := x))"
  unfolding shard_inv_def by auto

lemma shard_inv_shrinks:
  assumes "shard_inv i s lst" "shrinks s s'"
  shows "shard_inv i s' lst"
proof -
  have same: "s_entry s a = Some en" if "s_entry s' a = Some en" for a en
    using assms(2) that unfolding shrinks_def by (metis option.distinct(1))
  have sub: "cached s' \<subseteq> cached s" "s_capacity s' = s_capacity s" using assms(2) by (simp_all add: shrinks_def)
  have fin: "finite (dom (s_entry s'))"
    using shrinks_finite [OF assms(2)] assms(1) by (simp add: shard_inv_def)
  show ?thesis
    unfolding shard_inv_def
  proof (intro conjI allI impI)
    show "cached s' = {}" if "s_capacity s' = 0" using that assms(1) sub by (auto simp: shard_inv_def)
    show "lst (e_key en) = Some (e_value en)" if "a \<in> cached s'" "s_entry s' a = Some en" for a en
      using that assms(1) same sub(1) unfolding shard_inv_def by blast
  qed (use fin assms(1) same in \<open>auto simp: shard_inv_def\<close>)
qed

lemma sum_list_map_update:
  fixes f :: "'a \<Rightarrow> 'b :: comm_monoid_add"
  assumes "i < length xs"
  shows "sum_list (map f (xs[i := y])) + f (xs ! i) = sum_list (map f xs) + f y"
  using assms
proof (induction xs arbitrary: i)
  case (Cons x xs)
  then show ?case by (cases i) (simp_all add: ac_simps)
qed simp

lemma run_step:
  assumes "run_inv c ss lst ins" "i < kNumShards" "lru_rel c' s'" "shard_inv i s' lst'"
    and "\<And>j. j < kNumShards \<Longrightarrow> j \<noteq> i \<Longrightarrow> shard_inv j (ss ! j) lst'"
    and "all_calls s' = all_calls (ss ! i) + calls" "image_mset dead_call (mset ins') = image_mset dead_call (mset ins) + calls"
  shows "run_inv (set_shard c i c') (ss[i := s']) lst' ins'"
proof -
  have len: "length ss = kNumShards" "length (sh_shards c) = kNumShards" using assms(1) by (simp_all add: run_inv_def)
  have "sum_list (map all_calls (ss[i := s'])) + all_calls (ss ! i) = image_mset dead_call (mset ins') + all_calls (ss ! i)"
    using sum_list_map_update [of i ss all_calls s'] assms(1,2,6,7) len by (simp add: run_inv_def ac_simps)
  then have "sum_list (map all_calls (ss[i := s'])) = image_mset dead_call (mset ins')" by simp
  with assms(1-5) len show ?thesis
    by (simp add: run_inv_def set_shard_def nth_list_update)
qed

lemma run_step_same:
  assumes "run_inv c ss lst ins" "i < kNumShards" "lru_rel c' s'" "shrinks (ss ! i) s'" "all_calls s' = all_calls (ss ! i)"
  shows "run_inv (set_shard c i c') (ss[i := s']) lst ins"
  using assms run_step [of c ss lst ins i c' s' lst "{#}" ins] shard_inv_shrinks [of i "ss ! i" lst s']
  by (simp add: run_inv_def)

lemma run_shard: "run_inv c ss lst ins \<Longrightarrow> i < kNumShards \<Longrightarrow> lru_rel (sh_shards c ! i) (ss ! i) \<and> shard_inv i (ss ! i) lst"
  by (simp add: run_inv_def)

lemma run_new_ok:
  assumes "ShardedLRUCache_new capacity = Some c"
  shows "run_inv c (replicate kNumShards (spec_new (per_shard capacity))) (\<lambda>_. None) []"
proof -
  obtain c0 where c0: "LRUCache_new = Some c0" "lru_rel (SetCapacity c0 (per_shard capacity)) (spec_new (per_shard capacity))"
    using new_ok by blast
  have "all_calls (spec_new x) = {#}" for x by (simp add: all_calls_def live_calls_def spec_new_def)
  then have "sum_list (map all_calls (replicate n (spec_new x))) = {#}" for n x by (induction n) simp_all
  moreover have "c = \<lparr>sh_shards = replicate kNumShards (SetCapacity c0 (per_shard capacity)), sh_last_id = 0\<rparr>"
    using assms unfolding ShardedLRUCache_new_def c0(1) by simp
  moreover have "shard_inv i (spec_new x) (\<lambda>_. None)" for i x by (simp add: shard_inv_def spec_new_def cached_def)
  ultimately show ?thesis using c0(2) by (simp add: run_inv_def)
qed

lemma shard_inv_insert:
  fixes val deleter :: nat and charge :: u64
  assumes "lru_rel c s" "shard_inv i s lst" "c_mem c e = None" "i = shard_of key"
  defines "s' \<equiv> spec_insert s e (new_entry key val charge deleter)"
  shows "shard_inv i s' (lst(key \<mapsto> val)) \<and> all_calls s' = all_calls s + {#dead_call (new_entry key val charge deleter)#}"
proof -
  let ?en = "new_entry key val charge deleter"
  obtain s1 where s1: "s' = spec_evict s1" "lru_inv s1" "s_capacity s1 = s_capacity s"
    and cached1: "\<And>a. a \<in> cached s1 \<Longrightarrow> a = e \<and> s_capacity s > 0 \<or> a \<in> cached s \<and> (s_capacity s > 0 \<longrightarrow> \<not> has_key s key (HashSlice key) a)"
    and entry1: "\<And>a. s_entry s1 a = s_entry s a \<or> s_entry s1 a = None \<or> a = e \<and> s_entry s1 a = Some ?en"
    and calls1: "finite (dom (s_entry s1))" "all_calls s1 = add_mset (dead_call ?en) (all_calls s)"
  proof (rule insert_state [OF assms(1,3), of ?en])
    fix s1
    assume 1: "spec_insert s e ?en = spec_evict s1" "lru_inv s1" "s_capacity s1 = s_capacity s"
      "\<And>a. a \<in> cached s1 \<Longrightarrow> a = e \<and> s_capacity s > 0 \<or> a \<in> cached s \<and> (s_capacity s > 0 \<longrightarrow> \<not> has_key s (e_key ?en) (e_hash ?en) a)"
      "\<And>a. s_entry s1 a = s_entry s a \<or> s_entry s1 a = None \<or> a = e \<and> s_entry s1 a = Some ?en"
      "finite (dom (s_entry s)) \<Longrightarrow> finite (dom (s_entry s1)) \<and> all_calls s1 = add_mset (dead_call ?en) (all_calls s)"
    have fin: "finite (dom (s_entry s))" using assms(2) by (simp add: shard_inv_def)
    have en: "e_key ?en = key" "e_hash ?en = HashSlice key" by (simp_all add: new_entry_def)
    show thesis
      by (rule that [OF _ 1(2,3) 1(4) [unfolded en] 1(5)]) (use 1(1,6) fin s'_def in simp_all)
  qed
  have fresh: "s_entry s e = None" "e \<notin> cached s" using fresh_address [OF assms(1,3)] by simp_all
  have "shard_inv i s1 (lst(key \<mapsto> val))"
    unfolding shard_inv_def
  proof (intro conjI allI impI)
    show "cached s1 = {}" if "s_capacity s1 = 0"
      using that cached1 s1(3) assms(2) by (auto simp: shard_inv_def)
    show "e_hash en = HashSlice (e_key en)" "shard_of (e_key en) = i" if "s_entry s1 a = Some en" for a en
      using entry1 [of a] that assms(2,4) by (auto simp: shard_inv_def new_entry_def)
    show "(lst(key \<mapsto> val)) (e_key en) = Some (e_value en)" if a: "a \<in> cached s1" "s_entry s1 a = Some en" for a en
    proof (cases "a = e")
      case True
      then show ?thesis using entry1 [of a] a(2) fresh by (auto simp: new_entry_def)
    next
      case False
      then have s: "a \<in> cached s" "s_entry s a = Some en" "s_capacity s > 0 \<longrightarrow> \<not> has_key s key (HashSlice key) a"
        using cached1 [OF a(1)] entry1 [of a] a(2) by auto
      have cap: "s_capacity s > 0"
        using s(1) assms(2) by (auto simp: shard_inv_def word_neq_0_conv)
      have "e_hash en = HashSlice (e_key en)" using assms(2) s(2) by (simp add: shard_inv_def)
      then have "e_key en \<noteq> key" using s(2,3) cap by (auto simp: has_key_def)
      then show ?thesis using assms(2) s by (simp add: shard_inv_def)
    qed
  qed (rule calls1(1))
  then have "shard_inv i s' (lst(key \<mapsto> val))"
    unfolding s1(1) by (rule shard_inv_shrinks) (rule shrinks_evict [OF s1(2)])
  then show ?thesis using calls1 all_calls_evict [OF s1(2) calls1(1)] s1(1) by simp
qed

lemma shard_inv_erase:
  assumes "lru_rel c s" "shard_inv i s lst"
  shows "shard_inv i (spec_erase s key (HashSlice key)) (lst(key := None))"
proof -
  let ?s = "spec_erase s key (HashSlice key)"
  have inv: "lru_inv s" by (rule lru_rel_inv [OF assms(1)])
  have shard: "shard_inv i ?s lst" by (rule shard_inv_shrinks [OF assms(2) shrinks_erase [OF inv]])
  have "e_key en \<noteq> key" if a: "a \<in> cached ?s" "s_entry ?s a = Some en" for a en
  proof
    assume key: "e_key en = key"
    have s: "a \<in> cached s" "s_entry s a = Some en"
      using a shrinks_erase [OF inv, of key "HashSlice key"] unfolding shrinks_def by (blast, metis option.distinct(1))
    then have "has_key s key (HashSlice key) a" using assms(2) key by (auto simp: has_key_def shard_inv_def)
    then have "spec_find s key (HashSlice key) = Some a" using has_key_iff_find [OF assms(1) s(1)] by simp
    with a(1) cached_drop [OF inv, of a] show False by (simp add: spec_erase_def)
  qed
  with shard show ?thesis unfolding shard_inv_def by auto
qed

section \<open>The operations of a run\<close>

lemma Cache_Insert_ok:
  assumes "run_inv c ss lst ins" "room (ss ! shard_of key)" "c_mem (sh_shards c ! shard_of key) e = None"
  shows "\<exists>c'. Cache_Insert c key val charge deleter e = Some (c', (shard_of key, e))
    \<and> run_inv c' (ss[shard_of key := spec_insert (ss ! shard_of key) e (new_entry key val charge deleter)])
        (lst(key \<mapsto> val)) (ins @ [new_entry key val charge deleter])"
proof -
  let ?i = "shard_of key" and ?en = "new_entry key val charge deleter"
  have shard: "lru_rel (sh_shards c ! ?i) (ss ! ?i)" "shard_inv ?i (ss ! ?i) lst"
    using run_shard [OF assms(1)] by simp_all
  obtain c1 where c1: "LRUCache_Insert (sh_shards c ! ?i) key (HashSlice key) val charge deleter e = Some (c1, e)"
      "lru_rel c1 (spec_insert (ss ! ?i) e ?en)"
    using Insert_ok [OF shard(1) assms(3) _ refl] assms(2) unfolding room_def new_entry_def by blast
  have "run_inv (set_shard c ?i c1) (ss[?i := spec_insert (ss ! ?i) e ?en]) (lst(key \<mapsto> val)) (ins @ [?en])"
  proof (rule run_step [OF assms(1) Shard_less c1(2)])
    show "shard_inv ?i (spec_insert (ss ! ?i) e ?en) (lst(key \<mapsto> val))"
      "all_calls (spec_insert (ss ! ?i) e ?en) = all_calls (ss ! ?i) + {#dead_call ?en#}"
      using shard_inv_insert [OF shard assms(3) refl] by blast+
    show "shard_inv j (ss ! j) (lst(key \<mapsto> val))" if "j < kNumShards" "j \<noteq> ?i" for j
      using shard_inv_other run_shard [OF assms(1) that(1)] that(2) by blast
  qed simp
  with c1(1) show ?thesis by (simp add: Cache_Insert_def Let_def)
qed

lemma all_calls_lookup: "all_calls (spec_lookup s key hash) = all_calls s"
  by (simp add: spec_lookup_def all_calls_take split: option.splits)

lemma all_calls_erase: "finite (dom (s_entry s)) \<Longrightarrow> all_calls (spec_erase s key hash) = all_calls s"
  by (simp add: spec_erase_def all_calls_drop split: option.splits)

lemma Cache_Lookup_ok:
  assumes "run_inv c ss lst ins" "room (ss ! shard_of key)"
  shows "\<exists>c'. Cache_Lookup c key
      = Some (c', map_option (\<lambda>a. (shard_of key, a)) (spec_find (ss ! shard_of key) key (HashSlice key)))
    \<and> run_inv c' (ss[shard_of key := spec_lookup (ss ! shard_of key) key (HashSlice key)]) lst ins"
proof -
  let ?i = "shard_of key"
  have shard: "lru_rel (sh_shards c ! ?i) (ss ! ?i)" using run_shard [OF assms(1)] by simp
  obtain c1 where c1: "LRUCache_Lookup (sh_shards c ! ?i) key (HashSlice key) = Some (c1, spec_find (ss ! ?i) key (HashSlice key))"
      "lru_rel c1 (spec_lookup (ss ! ?i) key (HashSlice key))"
    using Lookup_ok [OF shard, of key "HashSlice key"] assms(2) by (auto simp: room_def)
  have "run_inv (set_shard c ?i c1) (ss[?i := spec_lookup (ss ! ?i) key (HashSlice key)]) lst ins"
    by (rule run_step_same [OF assms(1) Shard_less c1(2) shrinks_lookup all_calls_lookup])
  with c1(1) show ?thesis by (simp add: Cache_Lookup_def Let_def)
qed

lemma run_held:
  assumes "run_inv c ss lst ins" "i < kNumShards" "s_held (ss ! i) a > 0"
  shows "\<exists>x en. c_mem (sh_shards c ! i) a = Some x \<and> s_entry (ss ! i) a = Some en
    \<and> h_hash x = e_hash en \<and> h_value x = e_value en \<and> h_key x = e_key en"
proof -
  have rel: "rel (cached (ss ! i)) (sh_shards c ! i) (ss ! i)" and inv: "lru_inv (ss ! i)"
    using run_shard [OF assms(1,2)] lru_rel_inv [of "sh_shards c ! i" "ss ! i"] by (simp_all add: lru_rel_def)
  have "s_entry (ss ! i) a \<noteq> None" "s_entry (ss ! i) lru_head = None" "s_entry (ss ! i) in_use_head = None"
    using inv assms(3) by (auto simp: lru_inv_def)
  then obtain en where en: "s_entry (ss ! i) a = Some en" "a \<noteq> lru_head" "a \<noteq> in_use_head" by fastforce
  have "dat (c_mem (sh_shards c ! i)) a = spec_dat (ss ! i) a" using rel en by (simp add: rel_def mem_rel_def)
  with en(1) show ?thesis by (auto simp: dat_def spec_dat_def entry_of_def)
qed

lemma Cache_Release_ok:
  assumes "run_inv c ss lst ins" "i < kNumShards" "s_held (ss ! i) a > 0"
  shows "\<exists>c'. Cache_Release c (i, a) = Some c' \<and> run_inv c' (ss[i := spec_release (ss ! i) a]) lst ins"
proof -
  have shard: "lru_rel (sh_shards c ! i) (ss ! i)" "shard_inv i (ss ! i) lst"
    using run_shard [OF assms(1,2)] by simp_all
  note inv = lru_rel_inv [OF shard(1)]
  have fin: "finite (dom (s_entry (ss ! i)))" using shard(2) by (simp add: shard_inv_def)
  obtain x en where x: "c_mem (sh_shards c ! i) a = Some x" "s_entry (ss ! i) a = Some en" "h_hash x = e_hash en"
    using run_held [OF assms] by blast
  then have own: "Shard (h_hash x) = i" using shard(2) unfolding shard_inv_def by metis
  obtain c1 where c1: "LRUCache_Release (sh_shards c ! i) a = Some c1" "lru_rel c1 (spec_release (ss ! i) a)"
    using Release_ok [of "cached (ss ! i)" "sh_shards c ! i" "ss ! i" a] shard(1) assms(3) cached_release [OF inv]
    by (auto simp: lru_rel_def)
  have "run_inv (set_shard c i c1) (ss[i := spec_release (ss ! i) a]) lst ins"
    by (rule run_step_same [OF assms(1,2) c1(2) shrinks_release [OF inv] all_calls_release [OF fin]])
  with x(1) own c1(1) show ?thesis by simp
qed

lemma Cache_Erase_ok:
  assumes "run_inv c ss lst ins"
  shows "\<exists>c'. Cache_Erase c key = Some c'
    \<and> run_inv c' (ss[shard_of key := spec_erase (ss ! shard_of key) key (HashSlice key)]) (lst(key := None)) ins"
proof -
  let ?i = "shard_of key" and ?s = "spec_erase (ss ! shard_of key) key (HashSlice key)"
  have shard: "lru_rel (sh_shards c ! ?i) (ss ! ?i)" "shard_inv ?i (ss ! ?i) lst"
    using run_shard [OF assms] by simp_all
  obtain c1 where c1: "LRUCache_Erase (sh_shards c ! ?i) key (HashSlice key) = Some c1" "lru_rel c1 ?s"
    using remove_and_finish_ok [OF shard(1), of key "HashSlice key"] by (auto simp: LRUCache_Erase_def)
  have "run_inv (set_shard c ?i c1) (ss[?i := ?s]) (lst(key := None)) ins"
  proof (rule run_step [OF assms Shard_less c1(2)])
    show "shard_inv ?i ?s (lst(key := None))" by (rule shard_inv_erase [OF shard])
    show "all_calls ?s = all_calls (ss ! ?i) + {#}"
      using all_calls_erase [of "ss ! ?i"] shard(2) by (simp add: shard_inv_def)
    show "shard_inv j (ss ! j) (lst(key := None))" if "j < kNumShards" "j \<noteq> ?i" for j
      using shard_inv_other run_shard [OF assms that(1)] that(2) by blast
  qed simp
  with c1(1) show ?thesis by (simp add: Cache_Erase_def Let_def)
qed

lemma Prune_loop_ok:
  "list_all2 lru_rel cs ss \<Longrightarrow> \<exists>cs'. Prune_loop cs = Some cs' \<and> list_all2 lru_rel cs' (map spec_prune ss)"
proof (induction rule: list_all2_induct)
  case (Cons c cs s ss)
  then show ?case using prune_ok [of c s] by auto
qed simp

lemma Cache_Prune_ok:
  assumes "run_inv c ss lst ins"
  shows "\<exists>c'. Cache_Prune c = Some c' \<and> run_inv c' (map spec_prune ss) lst ins"
proof -
  have "list_all2 lru_rel (sh_shards c) ss" using assms by (simp add: run_inv_def list_all2_conv_all_nth)
  then obtain cs where cs: "Prune_loop (sh_shards c) = Some cs" "list_all2 lru_rel cs (map spec_prune ss)"
    using Prune_loop_ok by blast
  have inv: "lru_inv (ss ! i)" "finite (dom (s_entry (ss ! i)))" "shard_inv i (ss ! i) lst" if "i < kNumShards" for i
    using run_shard [OF assms that] lru_rel_inv by (auto simp: shard_inv_def)
  have "map all_calls (map spec_prune ss) = map all_calls ss"
    using inv(1,2) all_calls_prune assms by (auto simp: list_eq_iff_nth_eq run_inv_def)
  then have "sum_list (map all_calls (map spec_prune ss)) = image_mset dead_call (mset ins)"
    using assms unfolding run_inv_def by metis
  moreover have "length cs = kNumShards" "\<forall>i<kNumShards. lru_rel (cs ! i) (spec_prune (ss ! i))"
    using list_all2_lengthD [OF cs(2)] list_all2_nthD2 [OF cs(2)] assms by (simp_all add: run_inv_def)
  moreover have "shard_inv i (spec_prune (ss ! i)) lst" if "i < kNumShards" for i
    using shard_inv_shrinks [OF inv(3)] prune_step [OF inv(1)] that by blast
  ultimately have "run_inv (c\<lparr>sh_shards := cs\<rparr>) (map spec_prune ss) lst ins"
    using assms unfolding run_inv_def by simp
  with cs(1) show ?thesis by (simp add: Cache_Prune_def)
qed

lemma run_ok: "cache_run capacity c ss lst ins \<Longrightarrow> run_inv c ss lst ins"
proof (induction rule: cache_run.induct)
  case (run_new c)
  then show ?case by (rule run_new_ok)
next
  case (run_insert c ss lst ins key e val charge deleter c' h)
  then show ?case using Cache_Insert_ok [OF run_insert.IH, of key e val charge deleter] by (auto simp: fun_upd_def)
next
  case (run_lookup c ss lst ins key c' r)
  then show ?case using Cache_Lookup_ok [OF run_lookup.IH, of key] by auto
next
  case (run_release c ss lst ins i a c')
  then show ?case using Cache_Release_ok [OF run_release.IH, of i a] by auto
next
  case (run_erase c ss lst ins key c')
  then show ?case using Cache_Erase_ok [OF run_erase.IH, of key] by (auto simp: fun_upd_def)
next
  case (run_prune c ss lst ins c')
  then show ?case using Cache_Prune_ok [OF run_prune.IH] by auto
next
  case (run_new_id c ss lst ins)
  then show ?case by (simp add: run_inv_def Cache_NewId_def)
qed

lemma spec_find_value:
  assumes "run_inv c ss lst ins" "i = shard_of key" "spec_find (ss ! i) key (HashSlice key) = Some a"
  shows "\<exists>en. s_entry (ss ! i) a = Some en \<and> e_key en = key \<and> lst key = Some (e_value en)"
proof -
  have shard: "shard_inv i (ss ! i) lst" using run_shard [OF assms(1)] assms(2) by simp
  have "a \<in> cached (ss ! i)" "has_key (ss ! i) key (HashSlice key) a" using spec_find_cached [OF assms(3)] by simp_all
  then obtain en where "s_entry (ss ! i) a = Some en" "e_key en = key" "a \<in> cached (ss ! i)"
    by (auto simp: has_key_def split: option.splits)
  with shard show ?thesis unfolding shard_inv_def by metis
qed

lemma held_after_lookup:
  "spec_find s key hash = Some a \<Longrightarrow> s_held (spec_lookup s key hash) a > 0 \<and> s_entry (spec_lookup s key hash) a = s_entry s a"
  by (simp add: spec_lookup_def spec_take_def)

text \<open>When no handle is held, what is alive is on the list of unused entries.\<close>

lemma live_unheld:
  assumes "lru_inv s" "\<And>a. s_held s a = 0"
  shows "live_calls s = mset (map (\<lambda>a. dead_call (the (s_entry s a))) (s_lru s))"
proof -
  have "s_use s = []" using assms by (cases "s_use s") (auto simp: lru_inv_def)
  then have "dom (s_entry s) = set (s_lru s)" "distinct (s_lru s)"
    using assms by (auto simp: lru_inv_def cached_def)
  then show ?thesis by (simp add: live_calls_def mset_set_set)
qed

lemma destroy_shards_ok:
  assumes "list_all2 lru_rel cs ss" "\<forall>s\<in>set ss. \<forall>a. s_held s a = 0"
  shows "\<exists>cs'. destroy_shards cs = Some cs' \<and> mset (concat (map c_deleted cs')) = sum_list (map all_calls ss)
    \<and> (\<forall>c\<in>set cs'. \<forall>a. c_mem c a \<noteq> None \<longrightarrow> a = lru_head \<or> a = in_use_head)"
  using assms
proof (induction rule: list_all2_induct)
  case (Cons c cs s ss)
  obtain c' where "LRUCache_destroy c = Some c'"
      "c_deleted c' = s_dead s @ map (\<lambda>a. dead_call (the (s_entry s a))) (s_lru s)"
      "\<forall>a. c_mem c' a \<noteq> None \<longrightarrow> a = lru_head \<or> a = in_use_head"
    using destroy_ok [OF Cons.hyps(1)] Cons.prems by auto
  with Cons.IH Cons.prems live_unheld [OF lru_rel_inv [OF Cons.hyps(1)]] show ?case
    by (auto simp: all_calls_def)
qed simp

lemma calls_so_far:
  "run_inv c ss lst ins \<Longrightarrow> mset (concat (map c_deleted (sh_shards c))) \<subseteq># image_mset dead_call (mset ins)"
proof -
  assume run: "run_inv c ss lst ins"
  have "list_all2 lru_rel (sh_shards c) ss" using run by (simp add: run_inv_def list_all2_conv_all_nth)
  then have "mset (concat (map c_deleted (sh_shards c))) \<subseteq># sum_list (map all_calls ss)"
  proof (induction rule: list_all2_induct)
    case (Cons c cs s ss)
    have "c_deleted c = s_dead s" using Cons.hyps(1) by (simp add: lru_rel_def rel_def)
    then have "mset (c_deleted c) \<subseteq># all_calls s" by (simp add: all_calls_def)
    with Cons.IH show ?case by (simp add: subset_mset.add_mono)
  qed simp
  with run show ?thesis by (simp add: run_inv_def)
qed

subsection \<open>Held handles\<close>

lemma evict_held: "s_held (spec_evict s) = s_held s"
proof (induction s rule: spec_evict.induct)
  case (1 s)
  then show ?case by (subst spec_evict.simps) simp
qed

lemma insert_held: "s_held (spec_insert s e en) = (s_held s)(e := 1)"
  by (simp add: spec_insert_def evict_held Let_def spec_new_entry_def split: option.splits)

lemma erase_held: "s_held (spec_erase s key hash) = s_held s"
  by (simp add: spec_erase_def split: option.splits)

lemma prune_held: "s_held (spec_prune s) = s_held s"
proof -
  have "s_held (fold (\<lambda>a s. spec_drop s a) xs s) = s_held s" for xs
    by (induction xs arbitrary: s) simp_all
  then show ?thesis by (simp add: spec_prune_def)
qed

lemma lookup_held: "s_held s a \<le> s_held (spec_lookup s key hash) a"
  by (simp add: spec_lookup_def spec_take_def split: option.splits)

lemma release_held: "s_held (spec_release s b) = (s_held s)(b := s_held s b - 1)"
  by (simp add: spec_release_def Let_def)

lemma held_value:
  assumes "run_inv c ss lst ins" "i < kNumShards" "s_held (ss ! i) a > 0"
  shows "Cache_Value c (i, a) = map_option e_value (s_entry (ss ! i) a)" "s_entry (ss ! i) a \<noteq> None"
  using run_held [OF assms] by auto

text \<open>An operation that keeps the handle and only removes other entries keeps the value.\<close>

lemma held_value_kept:
  assumes "run_inv c ss lst ins" "i < kNumShards" "s_held (ss ! i) a > 0"
    and "run_inv c' ss' lst' ins'" "s_held (ss' ! i) a > 0"
    and "s_entry (ss' ! i) a = s_entry (ss ! i) a \<or> s_entry (ss' ! i) a = None"
  shows "Cache_Value c' (i, a) = Cache_Value c (i, a)"
  using held_value [OF assms(1-3)] held_value [OF assms(4,2,5)] assms(6) by auto

lemma nth_run: "run_inv c ss lst ins \<Longrightarrow> j < kNumShards \<Longrightarrow> ss[j := s] ! i = (if i = j then s else ss ! i)"
  by (auto simp: run_inv_def nth_list_update)

lemma held_value_kept_at:
  assumes "run_inv c ss lst ins" "i < kNumShards" "s_held (ss ! i) a > 0"
    and "run_inv c' (ss[k := s']) lst' ins'" "k < kNumShards"
    and "i = k \<Longrightarrow> s_held s' a > 0 \<and> (s_entry s' a = s_entry (ss ! k) a \<or> s_entry s' a = None)"
  shows "Cache_Value c' (i, a) = Cache_Value c (i, a)"
  using assms(3,6) by (intro held_value_kept [OF assms(1-4)]) (auto simp: nth_run [OF assms(1,5)])

lemma insert_entry:
  assumes "lru_rel c s" "c_mem c e = None" "a \<noteq> e"
  shows "s_entry (spec_insert s e en) a = s_entry s a \<or> s_entry (spec_insert s e en) a = None"
proof (rule insert_state [OF assms(1,2), of en])
  fix s1
  assume s1: "spec_insert s e en = spec_evict s1" "lru_inv s1"
    and other: "\<And>a. s_entry s1 a = s_entry s a \<or> s_entry s1 a = None \<or> a = e \<and> s_entry s1 a = Some en"
  have "s_entry (spec_evict s1) a = s_entry s1 a \<or> s_entry (spec_evict s1) a = None"
    using shrinks_evict [OF s1(2)] by (simp add: shrinks_def)
  with s1(1) other [of a] assms(3) show ?thesis by auto
qed

section \<open>An example run\<close>

lemma example_run:
  obtains c where "cache_run 160 c
      ((replicate kNumShards (spec_new 10))[shard_of [1] := (spec_new_entry (spec_new 10) 2 (new_entry [1] 5 3 7))\<lparr>s_use := [2]\<rparr>])
      [[1] \<mapsto> 5] [new_entry [1] 5 3 7]"
proof -
  let ?i = "shard_of [1]" and ?ss = "replicate kNumShards (spec_new 10)"
  have per: "per_shard 160 = 10" by (simp add: per_shard_def kNumShards_def kNumShardBits_def)
  obtain c0 where c0: "LRUCache_new = Some c0" using new_ok [of 0] by blast
  obtain c where c: "ShardedLRUCache_new 160 = Some c" unfolding ShardedLRUCache_new_def c0 by simp
  have run: "cache_run 160 c ?ss (\<lambda>_. None) []" using run_new [OF c] by (simp add: per)
  then have inv: "run_inv c ?ss (\<lambda>_. None) []" by (rule run_ok)
  have "lru_rel (sh_shards c ! ?i) (spec_new 10)" using run_shard [OF inv, of ?i] by simp
  then have "dat (c_mem (sh_shards c ! ?i)) 2 = spec_dat (spec_new 10) 2"
    by (simp add: lru_rel_def rel_def mem_rel_def lru_head_def in_use_head_def)
  then have free: "c_mem (sh_shards c ! ?i) 2 = None" by (simp add: spec_dat_def spec_new_def dat_def)
  have room: "room (?ss ! ?i)" by (simp add: room_def spec_new_def cached_def)
  obtain c1 where c1: "Cache_Insert c [1] 5 3 7 2 = Some (c1, (?i, 2))" using Cache_Insert_ok [OF inv room free] by blast
  have "spec_insert (spec_new 10) 2 (new_entry [1] 5 3 7) = (spec_new_entry (spec_new 10) 2 (new_entry [1] 5 3 7))\<lparr>s_use := [2]\<rparr>"
    by (simp add: spec_insert_def spec_new_def spec_find_def spec_new_entry_def spec_evict.simps spec_usage_def charge_of_def new_entry_def)
  then show thesis using that run_insert [OF run room free c1] by simp
qed

section \<open>Properties\<close>

text \<open>C11. A hit returns the value last inserted.  After any sequence of calls on a new cache that releases
  only handles it holds, \<open>Lookup\<close> of a key returns, and when it returns a handle, the key was inserted and
  not erased since, and \<open>Value\<close> of the handle is the value of the last insertion.\<close>

theorem cache_hit_returns_last_value:
  assumes "cache_run capacity c ss lst ins" and "room (ss ! shard_of key)"
  shows "\<exists>c' r. Cache_Lookup c key = Some (c', r)
    \<and> (case r of None \<Rightarrow> True | Some h \<Rightarrow> lst key \<noteq> None \<and> Cache_Value c' h = lst key)"
proof -
  let ?i = "shard_of key"
  have inv: "run_inv c ss lst ins" by (rule run_ok [OF assms(1)])
  obtain c' where c': "Cache_Lookup c key = Some (c', map_option (\<lambda>a. (?i, a)) (spec_find (ss ! ?i) key (HashSlice key)))"
      "run_inv c' (ss[?i := spec_lookup (ss ! ?i) key (HashSlice key)]) lst ins"
    using Cache_Lookup_ok [OF inv assms(2)] by blast
  show ?thesis
  proof (cases "spec_find (ss ! ?i) key (HashSlice key)")
    case None
    with c'(1) show ?thesis by simp
  next
    case (Some a)
    obtain en where "s_entry (ss ! ?i) a = Some en" "lst key = Some (e_value en)"
      using spec_find_value [OF inv refl Some] by blast
    moreover have "Cache_Value c' (?i, a) = map_option e_value (s_entry (ss ! ?i) a)"
      using held_value(1) [OF c'(2), of ?i a] held_after_lookup [OF Some] by (simp add: nth_run [OF inv])
    ultimately show ?thesis using c'(1) Some by (intro exI [of _ c'] exI [of _ "Some (?i, a)"]) simp
  qed
qed

theorem cache_hit_returns_last_value_witness:
  "\<exists>c ss. cache_run 160 c ss [[1] \<mapsto> 5] [new_entry [1] 5 3 7]
    \<and> (\<exists>c' r. Cache_Lookup c [1] = Some (c', r) \<and> (case r of None \<Rightarrow> True | Some h \<Rightarrow> Cache_Value c' h = Some 5))"
proof -
  let ?s = "(spec_new_entry (spec_new 10) 2 (new_entry [1] 5 3 7))\<lparr>s_use := [2]\<rparr>"
  let ?ss = "(replicate kNumShards (spec_new 10))[shard_of [1] := ?s]"
  obtain c where run: "cache_run 160 c ?ss [[1] \<mapsto> 5] [new_entry [1] 5 3 7]" by (rule example_run)
  have "room (?ss ! shard_of [1])" by (simp add: room_def cached_def spec_new_entry_def spec_new_def)
  from cache_hit_returns_last_value [OF run this] run show ?thesis by (fastforce split: option.splits)
qed

text \<open>C12. Every deleter is called exactly once.  While a cache is in use no deleter is called more often
  than its entry was inserted.  When the client has released all its handles, the destructor returns (its
  assertion that nothing is in use holds), the deleter calls of the whole life of the cache are one for
  each insertion, with its key and value, and no entry (\<open>LRUHandle\<close>) is left in memory.\<close>

theorem deleters_called_exactly_once:
  assumes "cache_run capacity c ss lst ins"
  shows "mset (concat (map c_deleted (sh_shards c))) \<subseteq># image_mset dead_call (mset ins)
    \<and> ((\<forall>s\<in>set ss. \<forall>a. s_held s a = 0) \<longrightarrow>
       (\<exists>cs. destroy_shards (sh_shards c) = Some cs
          \<and> mset (concat (map c_deleted cs)) = image_mset dead_call (mset ins)
          \<and> (\<forall>c\<in>set cs. \<forall>a. c_mem c a \<noteq> None \<longrightarrow> a = lru_head \<or> a = in_use_head)))"
proof -
  have inv: "run_inv c ss lst ins" by (rule run_ok [OF assms])
  then have "list_all2 lru_rel (sh_shards c) ss" by (simp add: run_inv_def list_all2_conv_all_nth)
  moreover have "sum_list (map all_calls ss) = image_mset dead_call (mset ins)" using inv by (simp add: run_inv_def)
  ultimately show ?thesis using calls_so_far [OF inv] destroy_shards_ok [of "sh_shards c" ss] by metis
qed

theorem deleters_called_exactly_once_witness:
  "\<exists>c ss cs. cache_run 160 c ss [[1] \<mapsto> 5] [new_entry [1] 5 3 7] \<and> destroy_shards (sh_shards c) = Some cs
    \<and> mset (concat (map c_deleted cs)) = {#(7, [1], 5)#}"
proof -
  let ?s = "(spec_new_entry (spec_new 10) 2 (new_entry [1] 5 3 7))\<lparr>s_use := [2]\<rparr>"
  let ?ss = "(replicate kNumShards (spec_new 10))[shard_of [1] := ?s]"
  obtain c where run: "cache_run 160 c ?ss [[1] \<mapsto> 5] [new_entry [1] 5 3 7]" by (rule example_run)
  have held: "s_held (?ss ! shard_of [1]) 2 > 0" by (simp add: spec_new_entry_def)
  obtain c' where c': "Cache_Release c (shard_of [1], 2) = Some c'"
    using Cache_Release_ok [OF run_ok [OF run] Shard_less held] by blast
  note run' = run_release [OF run Shard_less held c']
  have "s_held s a = 0" if "s \<in> set (?ss[shard_of [1] := spec_release (?ss ! shard_of [1]) 2])" for s a
    using that set_update_subset_insert [of ?ss] set_update_subset_insert [of "replicate kNumShards (spec_new 10)"]
    by (auto simp: release_held spec_new_entry_def spec_new_def dest!: subsetD [OF set_update_subset_insert])
  then have unheld: "\<forall>s\<in>set (?ss[shard_of [1] := spec_release (?ss ! shard_of [1]) 2]). \<forall>a. s_held s a = 0" by blast
  from deleters_called_exactly_once [OF run'] unheld obtain cs where
    "destroy_shards (sh_shards c') = Some cs" "mset (concat (map c_deleted cs)) = image_mset dead_call (mset [new_entry [1] 5 3 7])"
    by blast
  with run' show ?thesis by (auto simp: dead_call_def new_entry_def)
qed

text \<open>The value behind a handle that is kept, for each kind of call.\<close>

lemma insert_keeps_value:
  assumes inv: "run_inv c ss lst ins" and held: "i < kNumShards" "s_held (ss ! i) a > 0"
    and new: "room (ss ! shard_of key)" "c_mem (sh_shards c ! shard_of key) e = None"
  shows "\<exists>c' h. Cache_Insert c key val charge deleter e = Some (c', h) \<and> Cache_Value c' (i, a) = Cache_Value c (i, a)"
proof -
  have rel: "lru_rel (sh_shards c ! shard_of key) (ss ! shard_of key)" using run_shard [OF inv] by simp
  have ne: "a \<noteq> e" if "i = shard_of key" using run_held [OF inv held] new(2) that by auto
  obtain c' h where c': "Cache_Insert c key val charge deleter e = Some (c', h)"
      "run_inv c' (ss[shard_of key := spec_insert (ss ! shard_of key) e (new_entry key val charge deleter)])
        (lst(key \<mapsto> val)) (ins @ [new_entry key val charge deleter])"
    using Cache_Insert_ok [OF inv new, of val charge deleter] by blast
  have "Cache_Value c' (i, a) = Cache_Value c (i, a)"
    by (rule held_value_kept_at [OF inv held c'(2) Shard_less])
      (use ne insert_entry [OF rel new(2)] held(2) in \<open>auto simp: insert_held\<close>)
  with c'(1) show ?thesis by auto
qed

lemma lookup_keeps_value:
  assumes inv: "run_inv c ss lst ins" and held: "i < kNumShards" "s_held (ss ! i) a > 0"
    and "room (ss ! shard_of key)"
  shows "\<exists>c' r. Cache_Lookup c key = Some (c', r) \<and> Cache_Value c' (i, a) = Cache_Value c (i, a)"
proof -
  obtain c' r where c': "Cache_Lookup c key = Some (c', r)"
      "run_inv c' (ss[shard_of key := spec_lookup (ss ! shard_of key) key (HashSlice key)]) lst ins"
    using Cache_Lookup_ok [OF inv assms(4)] by blast
  have "Cache_Value c' (i, a) = Cache_Value c (i, a)"
    by (rule held_value_kept_at [OF inv held c'(2) Shard_less])
      (use lookup_held [of "ss ! i" a key "HashSlice key"] shrinks_lookup held(2) in \<open>auto simp: shrinks_def\<close>)
  with c'(1) show ?thesis by auto
qed

lemma release_keeps_value:
  assumes inv: "run_inv c ss lst ins" and held: "i < kNumShards" "s_held (ss ! i) a > 0"
    and j: "j < kNumShards" "s_held (ss ! j) b > 0" and other: "(j, b) = (i, a) \<longrightarrow> s_held (ss ! i) a > 1"
  shows "\<exists>c'. Cache_Release c (j, b) = Some c' \<and> Cache_Value c' (i, a) = Cache_Value c (i, a)"
proof -
  have lru: "lru_inv (ss ! j)" using run_shard [OF inv j(1)] lru_rel_inv by blast
  obtain c' where c': "Cache_Release c (j, b) = Some c'" "run_inv c' (ss[j := spec_release (ss ! j) b]) lst ins"
    using Cache_Release_ok [OF inv j] by blast
  have "Cache_Value c' (i, a) = Cache_Value c (i, a)"
    by (rule held_value_kept_at [OF inv held c'(2) j(1)])
      (use shrinks_release [OF lru, of b] held(2) other in \<open>auto simp: shrinks_def release_held\<close>)
  with c'(1) show ?thesis by auto
qed

lemma erase_keeps_value:
  assumes inv: "run_inv c ss lst ins" and held: "i < kNumShards" "s_held (ss ! i) a > 0"
  shows "\<exists>c'. Cache_Erase c key = Some c' \<and> Cache_Value c' (i, a) = Cache_Value c (i, a)"
proof -
  have lru: "lru_inv (ss ! i)" using run_shard [OF inv held(1)] lru_rel_inv by blast
  obtain c' where c': "Cache_Erase c key = Some c'"
      "run_inv c' (ss[shard_of key := spec_erase (ss ! shard_of key) key (HashSlice key)]) (lst(key := None)) ins"
    using Cache_Erase_ok [OF inv] by blast
  have "Cache_Value c' (i, a) = Cache_Value c (i, a)"
    by (rule held_value_kept_at [OF inv held c'(2) Shard_less])
      (use shrinks_erase [OF lru] held(2) in \<open>auto simp: shrinks_def erase_held\<close>)
  with c'(1) show ?thesis by auto
qed

lemma prune_keeps_value:
  assumes inv: "run_inv c ss lst ins" and held: "i < kNumShards" "s_held (ss ! i) a > 0"
  shows "\<exists>c'. Cache_Prune c = Some c' \<and> Cache_Value c' (i, a) = Cache_Value c (i, a)"
proof -
  have lru: "lru_inv (ss ! i)" using run_shard [OF inv held(1)] lru_rel_inv by blast
  obtain c' where c': "Cache_Prune c = Some c'" "run_inv c' (map spec_prune ss) lst ins"
    using Cache_Prune_ok [OF inv] by blast
  have "map spec_prune ss ! i = spec_prune (ss ! i)" using inv held(1) by (simp add: run_inv_def)
  then have "Cache_Value c' (i, a) = Cache_Value c (i, a)"
    by (intro held_value_kept [OF inv held c'(2)])
      (use prune_step [OF lru] held(2) in \<open>auto simp: shrinks_def prune_held\<close>)
  with c'(1) show ?thesis by auto
qed

text \<open>C13. An entry is not freed while a client holds a handle of it.  After any sequence of calls, for every handle
  a client holds, also when it is its only one: \<open>Erase\<close> and \<open>Prune\<close> return, \<open>Insert\<close> and \<open>Lookup\<close> do while the
  shard of their key has room in its counters, and \<open>Release\<close> does for any handle held; and the value behind the
  handle is the same before and after the call, whatever is inserted, erased, evicted or pruned, where a
  \<open>Release\<close> of the handle itself must leave another reference to its entry.\<close>

theorem held_handles_stay_valid:
  assumes "cache_run capacity c ss lst ins" and "i < kNumShards" and "s_held (ss ! i) a > 0"
  shows "\<exists>v. Cache_Value c (i, a) = Some v
    \<and> (\<forall>key val charge deleter e. room (ss ! shard_of key) \<and> c_mem (sh_shards c ! shard_of key) e = None \<longrightarrow>
        (\<exists>c' h. Cache_Insert c key val charge deleter e = Some (c', h) \<and> Cache_Value c' (i, a) = Some v))
    \<and> (\<forall>key. room (ss ! shard_of key) \<longrightarrow>
        (\<exists>c' r. Cache_Lookup c key = Some (c', r) \<and> Cache_Value c' (i, a) = Some v))
    \<and> (\<forall>j b. j < kNumShards \<and> s_held (ss ! j) b > 0 \<and> ((j, b) = (i, a) \<longrightarrow> s_held (ss ! i) a > 1) \<longrightarrow>
        (\<exists>c'. Cache_Release c (j, b) = Some c' \<and> Cache_Value c' (i, a) = Some v))
    \<and> (\<forall>key. \<exists>c'. Cache_Erase c key = Some c' \<and> Cache_Value c' (i, a) = Some v)
    \<and> (\<exists>c'. Cache_Prune c = Some c' \<and> Cache_Value c' (i, a) = Some v)"
proof -
  have inv: "run_inv c ss lst ins" by (rule run_ok [OF assms(1)])
  obtain v where v: "Cache_Value c (i, a) = Some v" using held_value [OF inv assms(2,3)] by fastforce
  show ?thesis
    using insert_keeps_value [OF inv assms(2,3)] lookup_keeps_value [OF inv assms(2,3)]
      release_keeps_value [OF inv assms(2,3)] erase_keeps_value [OF inv assms(2,3)]
      prune_keeps_value [OF inv assms(2,3)]
    unfolding v by (intro exI [of _ v] conjI refl allI impI) simp_all
qed

text \<open>A cache whose client holds one handle, and the same cache after a second lookup.\<close>

theorem held_handles_stay_valid_witness:
  "\<exists>c ss c2 r. cache_run 160 c ss [[1] \<mapsto> 5] [new_entry [1] 5 3 7]
    \<and> s_held (ss ! shard_of [1]) 2 = 1 \<and> Cache_Value c (shard_of [1], 2) = Some 5
    \<and> (\<exists>c'. Cache_Erase c [1] = Some c' \<and> Cache_Value c' (shard_of [1], 2) = Some 5)
    \<and> (\<exists>c'. Cache_Prune c = Some c' \<and> Cache_Value c' (shard_of [1], 2) = Some 5)
    \<and> Cache_Lookup c [1] = Some (c2, r) \<and> Cache_Value c2 (shard_of [1], 2) = Some 5
    \<and> (\<exists>c'. Cache_Release c2 (shard_of [1], 2) = Some c' \<and> Cache_Value c' (shard_of [1], 2) = Some 5)"
proof -
  let ?i = "shard_of [1]"
  let ?s = "(spec_new_entry (spec_new 10) 2 (new_entry [1] 5 3 7))\<lparr>s_use := [2]\<rparr>"
  let ?s2 = "spec_lookup ?s [1] (HashSlice [1])"
  let ?ss = "(replicate kNumShards (spec_new 10))[?i := ?s]"
  obtain c where run: "cache_run 160 c ?ss [[1] \<mapsto> 5] [new_entry [1] 5 3 7]" by (rule example_run)
  have room: "room (?ss ! ?i)" by (simp add: room_def cached_def spec_new_entry_def spec_new_def)
  have one: "s_held (?ss ! ?i) 2 = 1" by (simp add: spec_new_entry_def)
  have less: "?i < kNumShards" by (rule Shard_less)
  from one have val: "Cache_Value c (?i, 2) = Some 5"
    using held_value(1) [OF run_ok [OF run] less, of 2] by (simp add: spec_new_entry_def new_entry_def)
  obtain c2 r where c2: "Cache_Lookup c [1] = Some (c2, r)" using Cache_Lookup_ok [OF run_ok [OF run] room] by blast
  have run2: "cache_run 160 c2 (?ss[?i := ?s2]) [[1] \<mapsto> 5] [new_entry [1] 5 3 7]" using run_lookup [OF run room c2] by simp
  have find: "spec_find ?s [1] (HashSlice [1]) = Some 2"
    by (simp add: spec_find_def spec_new_entry_def spec_new_def has_key_def new_entry_def)
  have two: "s_held ((?ss[?i := ?s2]) ! ?i) 2 = 2"
    using find by (simp add: spec_lookup_def spec_take_def spec_new_entry_def)
  have "s_held (?ss ! ?i) 2 > 0" "s_held ((?ss[?i := ?s2]) ! ?i) 2 > 0" unfolding one two by simp_all
  note one_ref = held_handles_stay_valid [OF run less this(1), unfolded val]
    and two_refs = held_handles_stay_valid [OF run2 less this(2), unfolded two]
  have look: "\<exists>c' r. Cache_Lookup c [1] = Some (c', r) \<and> Cache_Value c' (?i, 2) = Some 5"
    using one_ref room by (elim exE conjE) blast
  then have val2: "Cache_Value c2 (?i, 2) = Some 5" using c2 by auto
  have "\<exists>c'. Cache_Release c2 (?i, 2) = Some c' \<and> Cache_Value c' (?i, 2) = Some 5"
    using two_refs [unfolded val2] two less by (elim exE conjE) simp
  moreover have "\<exists>c'. Cache_Erase c [1] = Some c' \<and> Cache_Value c' (?i, 2) = Some 5"
    "\<exists>c'. Cache_Prune c = Some c' \<and> Cache_Value c' (?i, 2) = Some 5"
    using one_ref by (elim exE conjE, blast)+
  ultimately show ?thesis using run one val c2 val2 by blast
qed

end
