(* ===== verification/Background.thy ===== *)
theory Background
  imports Prelude
begin

text \<open>
  The background thread of \<open>PosixEnv\<close> (\<open>env/env_posix.cpp\<close>): \<open>Schedule\<close>, \<open>BackgroundThreadMain\<close> and the
  queue, mutex and condition variable they share.

  The guarded members change only under the mutex, so \<open>Schedule\<close> is one step that needs the mutex free.
  The background thread goes from one point where it may block to the next: taking the lock at the top of
  its loop, waiting on the condition variable, taking the lock again after a notification, running a
  task.  It runs tasks without giving up the mutex.  What a task does is an argument: \<open>calls\<close> gives the calls
  of \<open>Schedule\<close> it makes.
\<close>

section \<open>Definitions\<close>

text \<open>A function and its argument.\<close>

record BackgroundWorkItem =
  bw_function :: nat
  bw_arg :: nat

datatype bg_pc = NotStarted | Locking | Waiting | Notified | Running BackgroundWorkItem "BackgroundWorkItem list"

record background =
  started_background_thread :: bool
  background_work_queue :: "BackgroundWorkItem list"
  background_work_locked :: bool
  bg_thread :: bg_pc
  bg_finished :: "BackgroundWorkItem list"

definition PosixEnv_background_new :: background where
  "PosixEnv_background_new =
     \<lparr>started_background_thread = False, background_work_queue = [], background_work_locked = False,
      bg_thread = NotStarted, bg_finished = []\<rparr>"

text \<open>\<open>notify_one\<close> wakes the thread if it waits, and is lost otherwise.\<close>

definition notify_one :: "background \<Rightarrow> background" where
  "notify_one s = (if bg_thread s = Waiting then s\<lparr>bg_thread := Notified\<rparr> else s)"

text \<open>\<open>None\<close>: the caller blocks, because the mutex is taken.\<close>

definition PosixEnv_Schedule :: "background \<Rightarrow> BackgroundWorkItem \<Rightarrow> background option" where
  "PosixEnv_Schedule s w =
     (if background_work_locked s then None
      else
        let s = (if \<not> started_background_thread s
                 then s\<lparr>started_background_thread := True, bg_thread := Locking\<rparr> else s);
            s = (if background_work_queue s = [] then notify_one s else s) in
        Some (s\<lparr>background_work_queue := background_work_queue s @ [w]\<rparr>))"

text \<open>
  \<open>Locking\<close> and \<open>Notified\<close>: the lock is taken; with an empty queue the thread waits, which gives up the lock,
  else it takes the first item and runs it.  \<open>Running\<close>: the task calls \<open>Schedule\<close>, or ends, and with it the
  body of the loop and the lock.
\<close>

definition take_work :: "(BackgroundWorkItem \<Rightarrow> BackgroundWorkItem list) \<Rightarrow> background \<Rightarrow> background option" where
  "take_work calls s =
     (if background_work_locked s then None
      else
        case background_work_queue s of
          [] \<Rightarrow> Some (s\<lparr>bg_thread := Waiting\<rparr>)
        | w # ws \<Rightarrow> Some (s\<lparr>background_work_queue := ws, background_work_locked := True,
                            bg_thread := Running w (calls w)\<rparr>))"

definition BackgroundThreadMain_step ::
  "(BackgroundWorkItem \<Rightarrow> BackgroundWorkItem list) \<Rightarrow> background \<Rightarrow> background option" where
  "BackgroundThreadMain_step calls s =
     (case bg_thread s of
        NotStarted \<Rightarrow> None
      | Waiting \<Rightarrow> None
      | Locking \<Rightarrow> take_work calls s
      | Notified \<Rightarrow> take_work calls s
      | Running w (c # cs) \<Rightarrow> map_option (bg_thread_update (\<lambda>_. Running w cs)) (PosixEnv_Schedule s c)
      | Running w [] \<Rightarrow>
          Some (s\<lparr>bg_thread := Locking, background_work_locked := False, bg_finished := bg_finished s @ [w]\<rparr>))"

section \<open>Runs\<close>

text \<open>
  Any client calls \<open>Schedule\<close>, the background thread moves, or it wakes up without a notification, as a
  condition variable may.  The list records the items of the calls of \<open>Schedule\<close> that returned.
\<close>

inductive bg_step ::
  "(BackgroundWorkItem \<Rightarrow> BackgroundWorkItem list) \<Rightarrow> background \<Rightarrow> BackgroundWorkItem list \<Rightarrow> background \<Rightarrow> bool"
  for calls where
  client: "PosixEnv_Schedule s w = Some s' \<Longrightarrow> bg_step calls s [w] s'"
| thread: "BackgroundThreadMain_step calls s = Some s' \<Longrightarrow> bg_step calls s [] s'"
| spurious: "bg_thread s = Waiting \<Longrightarrow> bg_step calls s [] (s\<lparr>bg_thread := Notified\<rparr>)"

inductive_cases bg_stepE: "bg_step calls s ws s'"

inductive bg_reachable ::
  "(BackgroundWorkItem \<Rightarrow> BackgroundWorkItem list) \<Rightarrow> BackgroundWorkItem list \<Rightarrow> background \<Rightarrow> bool"
  for calls where
  start: "bg_reachable calls [] PosixEnv_background_new"
| step: "bg_reachable calls hist s \<Longrightarrow> bg_step calls s ws s' \<Longrightarrow> bg_reachable calls (hist @ ws) s'"

text \<open>The item that is being run.\<close>

fun running :: "bg_pc \<Rightarrow> BackgroundWorkItem list" where
  "running (Running w cs) = [w]"
| "running pc = []"

text \<open>
  The mutex is held exactly while a task runs, the thread waits only while the queue is empty, and the
  items finished, running and queued are all the items that were scheduled, in this order.
\<close>

definition bg_inv :: "BackgroundWorkItem list \<Rightarrow> background \<Rightarrow> bool" where
  "bg_inv hist s \<longleftrightarrow>
     (background_work_locked s \<longleftrightarrow> running (bg_thread s) \<noteq> [])
     \<and> (started_background_thread s \<longleftrightarrow> bg_thread s \<noteq> NotStarted)
     \<and> (bg_thread s \<in> {NotStarted, Waiting} \<longrightarrow> background_work_queue s = [])
     \<and> bg_finished s @ running (bg_thread s) @ background_work_queue s = hist"

lemma bg_inv_step:
  assumes "bg_inv hist s" "bg_step calls s ws s'"
  shows "bg_inv (hist @ ws) s'"
  using assms(2)
proof (cases rule: bg_step.cases)
  case (client w)
  then show ?thesis using assms(1)
    by (cases "bg_thread s")
      (auto simp: bg_inv_def PosixEnv_Schedule_def notify_one_def Let_def split: if_splits)
next
  case thread
  then show ?thesis using assms(1)
    by (auto simp: bg_inv_def BackgroundThreadMain_step_def take_work_def PosixEnv_Schedule_def
        split: bg_pc.splits list.splits if_splits)
next
  case spurious
  then show ?thesis using assms(1) by (auto simp: bg_inv_def)
qed

lemma bg_reachable_inv: "bg_reachable calls hist s \<Longrightarrow> bg_inv hist s"
proof (induction rule: bg_reachable.induct)
  case start
  then show ?case by (simp add: bg_inv_def PosixEnv_background_new_def)
next
  case (step hist s ws s')
  then show ?case using bg_inv_step by blast
qed

text \<open>A running task has made none of its calls: the first one blocks.\<close>

lemma running_calls: "bg_reachable calls hist s \<Longrightarrow> bg_thread s = Running w cs \<Longrightarrow> cs = calls w"
proof (induction arbitrary: w cs rule: bg_reachable.induct)
  case (step hist s ws s')
  have inv: "bg_inv hist s" by (rule bg_reachable_inv [OF step.hyps(1)])
  from step.hyps(2) show ?case
  proof (cases rule: bg_step.cases)
    case (client v)
    then show ?thesis using inv step.prems
      by (auto simp: bg_inv_def PosixEnv_Schedule_def notify_one_def Let_def split: if_splits)
  next
    case thread
    then show ?thesis using inv step.prems
      by (auto simp: bg_inv_def BackgroundThreadMain_step_def take_work_def PosixEnv_Schedule_def
          split: bg_pc.splits list.splits if_splits)
  qed (use step.prems in simp)
qed (simp add: PosixEnv_background_new_def)

text \<open>Steps of the background thread alone.\<close>

fun thread_steps :: "(BackgroundWorkItem \<Rightarrow> BackgroundWorkItem list) \<Rightarrow> nat \<Rightarrow> background \<Rightarrow> background option" where
  "thread_steps calls 0 s = Some s"
| "thread_steps calls (Suc n) s = Option.bind (BackgroundThreadMain_step calls s) (thread_steps calls n)"

lemma thread_steps_add:
  "thread_steps calls (m + n) s = Option.bind (thread_steps calls m s) (thread_steps calls n)"
  by (induction m arbitrary: s) (auto simp: Option.bind_assoc intro: Option.bind_cong)

text \<open>Between tasks, two steps run each queued task and one more reaches the wait.\<close>

lemma queue_drains:
  assumes "bg_thread s \<in> {Locking, Notified}" "\<not> background_work_locked s"
    "\<forall>w \<in> set (background_work_queue s). calls w = []"
  shows "thread_steps calls (2 * length (background_work_queue s) + 1) s =
    Some (s\<lparr>bg_thread := Waiting, background_work_queue := [],
       bg_finished := bg_finished s @ background_work_queue s\<rparr>)"
  using assms
proof (induction "background_work_queue s" arbitrary: s)
  case Nil
  then show ?case by (auto simp: BackgroundThreadMain_step_def take_work_def)
next
  case (Cons w ws)
  let ?s = "s\<lparr>bg_thread := Locking, background_work_queue := ws, bg_finished := bg_finished s @ [w]\<rparr>"
  have "thread_steps calls 2 s = Some (s\<lparr>background_work_queue := ws, bg_thread := Locking, background_work_locked := False,
      bg_finished := bg_finished s @ [w]\<rparr>)"
    using Cons.prems Cons.hyps(2) [symmetric]
    by (auto simp: numeral_2_eq_2 BackgroundThreadMain_step_def take_work_def)
  moreover have "s\<lparr>background_work_queue := ws, bg_thread := Locking, background_work_locked := False,
      bg_finished := bg_finished s @ [w]\<rparr> = ?s" using Cons.prems(2) by simp
  ultimately have two: "thread_steps calls 2 s = Some ?s" by metis
  have "2 * length (background_work_queue s) + 1 = 2 + (2 * length (background_work_queue ?s) + 1)"
    using Cons.hyps(2) [symmetric] by simp
  then have "thread_steps calls (2 * length (background_work_queue s) + 1) s
      = thread_steps calls (2 * length (background_work_queue ?s) + 1) ?s"
    by (simp only: thread_steps_add [of calls 2] two Option.bind.simps)
  also have "\<dots> = Some (?s\<lparr>bg_thread := Waiting, background_work_queue := [],
       bg_finished := bg_finished ?s @ background_work_queue ?s\<rparr>)"
    by (rule Cons.hyps(1)) (use Cons.prems Cons.hyps(2) [symmetric] in simp_all)
  finally show ?case using Cons.hyps(2) [symmetric] by simp
qed

lemma running_task_ends:
  assumes "bg_thread s = Running w []"
  shows "thread_steps calls 1 s =
    Some (s\<lparr>bg_thread := Locking, background_work_locked := False, bg_finished := bg_finished s @ [w]\<rparr>)"
  using assms by (simp add: BackgroundThreadMain_step_def)

section \<open>Properties\<close>

text \<open>C10. Every scheduled task is run, once and in the order of the calls, when none of the scheduled tasks calls
  \<open>Schedule\<close> itself.  In every reachable state the tasks finished, the task that runs and those queued are
  the scheduled ones in order; and from there the background thread alone, in at most two steps for each
  task left and two more, finishes all of them: it is never stuck in the wait while there is work, so no
  wake-up is lost although \<open>notify_one\<close> is called before the item is queued and only for an empty queue.\<close>

theorem scheduled_tasks_run_in_order:
  assumes "bg_reachable calls hist s" and "\<forall>w \<in> set hist. calls w = []"
  shows "bg_finished s @ running (bg_thread s) @ background_work_queue s = hist
    \<and> (\<exists>n s'. n \<le> 2 * length (running (bg_thread s) @ background_work_queue s) + 2
         \<and> thread_steps calls n s = Some s' \<and> bg_finished s' = hist \<and> background_work_queue s' = [])"
proof -
  have inv: "bg_inv hist s" by (rule bg_reachable_inv [OF assms(1)])
  then have tasks: "\<forall>w \<in> set (running (bg_thread s) @ background_work_queue s). calls w = []"
    using assms(2) by (auto simp: bg_inv_def)
  have drains: "\<exists>n s'. n \<le> 2 * length (running (bg_thread s) @ background_work_queue s) + 2
         \<and> thread_steps calls n s = Some s' \<and> bg_finished s' = hist \<and> background_work_queue s' = []"
    if "bg_thread s \<in> {Locking, Notified}"
  proof -
    have "thread_steps calls (2 * length (background_work_queue s) + 1) s =
        Some (s\<lparr>bg_thread := Waiting, background_work_queue := [], bg_finished := bg_finished s @ background_work_queue s\<rparr>)"
      using that by (intro queue_drains) (use tasks inv in \<open>auto simp: bg_inv_def\<close>)
    then show ?thesis using inv that
      by (intro exI [of _ "2 * length (background_work_queue s) + 1"] exI conjI) (auto simp: bg_inv_def)
  qed
  have "\<exists>n s'. n \<le> 2 * length (running (bg_thread s) @ background_work_queue s) + 2
         \<and> thread_steps calls n s = Some s' \<and> bg_finished s' = hist \<and> background_work_queue s' = []"
  proof (cases "bg_thread s")
    case (Running w cs)
    have cs: "cs = []" using running_calls [OF assms(1)] Running tasks by simp
    let ?s = "s\<lparr>bg_thread := Locking, background_work_locked := False, bg_finished := bg_finished s @ [w]\<rparr>"
    have "thread_steps calls (1 + (2 * length (background_work_queue ?s) + 1)) s
        = thread_steps calls (2 * length (background_work_queue ?s) + 1) ?s"
      unfolding thread_steps_add [of calls 1] running_task_ends [OF Running [unfolded cs]] by simp
    also have "\<dots> = Some (?s\<lparr>bg_thread := Waiting, background_work_queue := [],
       bg_finished := bg_finished ?s @ background_work_queue ?s\<rparr>)"
      by (rule queue_drains) (use tasks in simp_all)
    finally show ?thesis using inv Running
      by (intro exI [of _ "1 + (2 * length (background_work_queue ?s) + 1)"] exI conjI) (auto simp: bg_inv_def)
  next
    case Locking
    then show ?thesis by (intro drains) simp
  next
    case Notified
    then show ?thesis by (intro drains) simp
  qed (use inv in \<open>auto simp: bg_inv_def intro!: exI [of _ 0]\<close>)
  with inv show ?thesis by (simp add: bg_inv_def)
qed

theorem scheduled_tasks_run_in_order_witness:
  "\<exists>s n s'. bg_reachable (\<lambda>_. []) [\<lparr>bw_function = 1, bw_arg = 2\<rparr>, \<lparr>bw_function = 3, bw_arg = 4\<rparr>] s
    \<and> background_work_queue s = [\<lparr>bw_function = 1, bw_arg = 2\<rparr>, \<lparr>bw_function = 3, bw_arg = 4\<rparr>]
    \<and> thread_steps (\<lambda>_. []) n s = Some s'
    \<and> bg_finished s' = [\<lparr>bw_function = 1, bw_arg = 2\<rparr>, \<lparr>bw_function = 3, bw_arg = 4\<rparr>]"
proof -
  let ?w = "\<lparr>bw_function = 1, bw_arg = 2\<rparr>" and ?v = "\<lparr>bw_function = 3, bw_arg = 4\<rparr>"
  let ?s = "\<lparr>started_background_thread = True, background_work_queue = [?w], background_work_locked = False,
      bg_thread = Locking, bg_finished = []\<rparr>"
  have "PosixEnv_Schedule PosixEnv_background_new ?w = Some ?s"
    by (simp add: PosixEnv_Schedule_def PosixEnv_background_new_def notify_one_def)
  then have one: "bg_reachable (\<lambda>_. []) ([] @ [?w]) ?s" by (intro step [OF start] client)
  have "PosixEnv_Schedule ?s ?v = Some (?s\<lparr>background_work_queue := [?w, ?v]\<rparr>)"
    by (simp add: PosixEnv_Schedule_def)
  then have "bg_reachable (\<lambda>_. []) (([] @ [?w]) @ [?v]) (?s\<lparr>background_work_queue := [?w, ?v]\<rparr>)"
    by (intro step [OF one] client)
  then have run: "bg_reachable (\<lambda>_. []) [?w, ?v] (?s\<lparr>background_work_queue := [?w, ?v]\<rparr>)" by simp
  from scheduled_tasks_run_in_order [OF run] run show ?thesis by fastforce
qed

text \<open>C18. A task that calls \<open>Schedule\<close> stops the environment for ever: the background thread runs it
  with the mutex held, so that its call blocks.  In the state where the task is about to make the call no
  step is possible at all, for the thread or for any caller of \<open>Schedule\<close>, and no other task is ever run.\<close>

theorem task_that_schedules_deadlocks:
  assumes "bg_reachable calls hist s" and "bg_thread s = Running w cs" and "calls w \<noteq> []"
  shows "cs = calls w \<and> \<not> bg_step calls s ws s' \<and> PosixEnv_Schedule s v = None"
proof -
  have cs: "cs = calls w" by (rule running_calls [OF assms(1,2)])
  have "background_work_locked s" using bg_reachable_inv [OF assms(1)] assms(2) by (simp add: bg_inv_def)
  then have "PosixEnv_Schedule s v = None" for v by (simp add: PosixEnv_Schedule_def)
  then show ?thesis using cs assms(2,3)
    by (auto simp: bg_step.simps BackgroundThreadMain_step_def split: list.splits)
qed

theorem task_that_schedules_deadlocks_witness:
  "\<exists>calls hist s. bg_reachable calls hist s \<and> bg_thread s = Running \<lparr>bw_function = 1, bw_arg = 2\<rparr> [\<lparr>bw_function = 1, bw_arg = 2\<rparr>]
    \<and> (\<nexists>ws s'. bg_step calls s ws s')"
proof -
  let ?w = "\<lparr>bw_function = 1, bw_arg = 2\<rparr>"
  let ?s = "\<lparr>started_background_thread = True, background_work_queue = [?w], background_work_locked = False,
      bg_thread = Locking, bg_finished = []\<rparr>"
  let ?r = "\<lparr>started_background_thread = True, background_work_queue = [], background_work_locked = True,
      bg_thread = Running ?w [?w], bg_finished = []\<rparr>"
  have "PosixEnv_Schedule PosixEnv_background_new ?w = Some ?s"
    by (simp add: PosixEnv_Schedule_def PosixEnv_background_new_def notify_one_def)
  then have one: "bg_reachable (\<lambda>w. [w]) ([] @ [?w]) ?s" by (intro step [OF start] client)
  have "BackgroundThreadMain_step (\<lambda>w. [w]) ?s = Some ?r"
    by (simp add: BackgroundThreadMain_step_def take_work_def)
  then have run: "bg_reachable (\<lambda>w. [w]) (([] @ [?w]) @ []) ?r" by (intro step [OF one] thread)
  have "\<not> bg_step (\<lambda>w. [w]) ?r ws s'" for ws s'
    using task_that_schedules_deadlocks [OF run, of ?w "[?w]" ws s' ?w] by simp
  with run show ?thesis by (intro exI [of _ "\<lambda>w. [w]"] exI [of _ "[?w]"] exI [of _ ?r]) simp
qed

end
