(* ===== verification/Limiter.thy ===== *)
theory Limiter
  imports Prelude "HOL-Library.Monad_Syntax"
begin

text \<open>
  \<open>Limiter\<close> of \<open>env/env_posix.cpp\<close>, the counter that bounds the number of memory maps and of
  descriptors kept open, and the globals that give its bounds.

  \<open>Acquire\<close> consists of up to two atomic operations on a shared counter, so that other threads can run
  between them.  The step relation \<open>lim_step\<close> interleaves any number of clients at that grain; a failing
  assertion is \<open>None\<close>.
\<close>

section \<open>Definitions\<close>

type_synonym i32 = "32 word"

definition kDefaultMmapLimit :: i32 where
  "kDefaultMmapLimit = 1000"

text \<open>The process-wide limits, with their initial values.\<close>

record limit_globals =
  g_mmap_limit :: i32
  g_open_read_only_file_limit :: i32

definition limit_globals_init :: limit_globals where
  "limit_globals_init = \<lparr>g_mmap_limit = kDefaultMmapLimit, g_open_read_only_file_limit = -1\<rparr>"

definition MaxMmaps :: "limit_globals \<Rightarrow> i32" where
  "MaxMmaps g = g_mmap_limit g"

text \<open>
  The result of \<open>getrlimit(RLIMIT_NOFILE)\<close> is an argument: \<open>None\<close> when it fails, else \<open>rlim_cur\<close>.  The
  quotient is an \<open>rlim_t\<close> of 64 bits that is converted to \<open>int32_t\<close>.
\<close>

definition RLIM_INFINITY :: u64 where
  "RLIM_INFINITY = - 1"

definition MaxOpenFiles :: "u64 option \<Rightarrow> limit_globals \<Rightarrow> i32 \<times> limit_globals" where
  "MaxOpenFiles rlim g =
     (if sint (g_open_read_only_file_limit g) \<ge> 0 then (g_open_read_only_file_limit g, g)
      else
        let n = (case rlim of
            None \<Rightarrow> 50
          | Some rlim_cur \<Rightarrow> if rlim_cur = RLIM_INFINITY then 0x7fffffff else ucast (rlim_cur div 5)) in
        (n, g\<lparr>g_open_read_only_file_limit := n\<rparr>))"

record Limiter =
  max_acquires :: i32
  acquires_allowed :: i32

definition Limiter_new :: "i32 \<Rightarrow> Limiter option" where
  "Limiter_new n = (if sint n \<ge> 0 then Some \<lparr>max_acquires = n, acquires_allowed = n\<rparr> else None)"

text \<open>The atomic operations: each returns the value before it.\<close>

definition fetch_sub :: "Limiter \<Rightarrow> i32 \<times> Limiter" where
  "fetch_sub l = (acquires_allowed l, l\<lparr>acquires_allowed := acquires_allowed l - 1\<rparr>)"

definition fetch_add :: "Limiter \<Rightarrow> i32 \<times> Limiter" where
  "fetch_add l = (acquires_allowed l, l\<lparr>acquires_allowed := acquires_allowed l + 1\<rparr>)"

text \<open>\<open>Acquire\<close> up to its first return, the rest of it, and both without interruption.\<close>

definition Acquire_first :: "Limiter \<Rightarrow> bool \<times> Limiter" where
  "Acquire_first l = (let (old, l) = fetch_sub l in (sint old > 0, l))"

definition Acquire_undo :: "Limiter \<Rightarrow> Limiter option" where
  "Acquire_undo l = (let (old, l') = fetch_add l in if sint old < sint (max_acquires l) then Some l' else None)"

definition Limiter_Acquire :: "Limiter \<Rightarrow> (bool \<times> Limiter) option" where
  "Limiter_Acquire l =
     (let (got, l) = Acquire_first l in
      if got then Some (True, l) else do { l \<leftarrow> Acquire_undo l; Some (False, l) })"

definition Limiter_Release :: "Limiter \<Rightarrow> Limiter option" where
  "Limiter_Release l = (let (old, l') = fetch_add l in if sint old < sint (max_acquires l) then Some l' else None)"

section \<open>Concurrent clients\<close>

text \<open>
  A client is outside, between the two operations of a failing \<open>Acquire\<close>, or holds a resource.  Clients
  are numbered.
\<close>

datatype client = Outside | Undoing | Holding

inductive lim_step :: "nat \<Rightarrow> Limiter \<times> (nat \<Rightarrow> client) \<Rightarrow> Limiter \<times> (nat \<Rightarrow> client) \<Rightarrow> bool"
  for n where
  acquire: "t < n \<Longrightarrow> cl t = Outside \<Longrightarrow> Acquire_first l = (got, l') \<Longrightarrow>
    lim_step n (l, cl) (l', cl(t := if got then Holding else Undoing))"
| undo: "t < n \<Longrightarrow> cl t = Undoing \<Longrightarrow> Acquire_undo l = Some l' \<Longrightarrow> lim_step n (l, cl) (l', cl(t := Outside))"
| release: "t < n \<Longrightarrow> cl t = Holding \<Longrightarrow> Limiter_Release l = Some l' \<Longrightarrow> lim_step n (l, cl) (l', cl(t := Outside))"

inductive_cases lim_stepE: "lim_step n s s'"

inductive lim_reachable :: "nat \<Rightarrow> i32 \<Rightarrow> Limiter \<times> (nat \<Rightarrow> client) \<Rightarrow> bool"
  for n mx where
  start: "Limiter_new mx = Some l \<Longrightarrow> lim_reachable n mx (l, \<lambda>_. Outside)"
| step: "lim_reachable n mx s \<Longrightarrow> lim_step n s s' \<Longrightarrow> lim_reachable n mx s'"

definition clients :: "nat \<Rightarrow> (nat \<Rightarrow> client) \<Rightarrow> client \<Rightarrow> nat" where
  "clients n cl c = card {t. t < n \<and> cl t = c}"

lemma clients_upd:
  assumes "t < n" "cl t \<noteq> c'"
  shows "clients n (cl(t := c')) c =
    (if c = c' then clients n cl c + 1 else if c = cl t then clients n cl c - 1 else clients n cl c)"
proof -
  have fin: "finite {t. t < n \<and> cl t = c}" by simp
  consider "c = c'" | "c = cl t" | "c \<noteq> c'" "c \<noteq> cl t" by blast
  then show ?thesis
  proof cases
    case 1
    then have "{s. s < n \<and> (cl(t := c')) s = c} = insert t {t. t < n \<and> cl t = c}" using assms by auto
    with 1 assms fin show ?thesis by (simp add: clients_def)
  next
    case 2
    then have "{s. s < n \<and> (cl(t := c')) s = c} = {t. t < n \<and> cl t = c} - {t}" using assms by auto
    with 2 assms fin show ?thesis by (simp add: clients_def)
  next
    case 3
    then have "{s. s < n \<and> (cl(t := c')) s = c} = {t. t < n \<and> cl t = c}" by auto
    with 3 show ?thesis by (simp only: clients_def) simp
  qed
qed

lemma clients_pos: "t < n \<Longrightarrow> cl t = c \<Longrightarrow> clients n cl c > 0"
  by (auto simp: clients_def card_gt_0_iff)

lemma clients_le: "clients n cl Undoing + clients n cl Holding \<le> n"
proof -
  have "{t. t < n \<and> cl t = Undoing} \<inter> {t. t < n \<and> cl t = Holding} = {}" by auto
  then have "clients n cl Undoing + clients n cl Holding
      = card ({t. t < n \<and> cl t = Undoing} \<union> {t. t < n \<and> cl t = Holding})"
    by (simp add: clients_def card_Un_disjoint)
  also have "\<dots> \<le> card {t. t < n}" by (rule card_mono) auto
  finally show ?thesis by simp
qed

lemma sint_of_int32: "- (2 ^ 31) \<le> k \<Longrightarrow> k < 2 ^ 31 \<Longrightarrow> sint (of_int k :: i32) = k"
  by (simp add: signed_of_int signed_take_bit_int_eq_self)

lemma sint_minus_1: "sint x > - (2 ^ 31) \<Longrightarrow> sint (x - 1) = sint x - 1"
  for x :: i32
  using sint_of_int32 [of "sint x - 1"] sint_lt [of x] by simp

text \<open>The counter is the bound less the clients that hold a resource or are about to give up.\<close>

definition lim_inv :: "nat \<Rightarrow> i32 \<Rightarrow> Limiter \<times> (nat \<Rightarrow> client) \<Rightarrow> bool" where
  "lim_inv n mx s \<longleftrightarrow>
     (case s of (l, cl) \<Rightarrow>
        max_acquires l = mx \<and> sint mx \<ge> 0
        \<and> acquires_allowed l = of_int (sint mx - int (clients n cl Holding) - int (clients n cl Undoing))
        \<and> int (clients n cl Holding) \<le> sint mx)"

lemma lim_inv_allowed:
  assumes "lim_inv n mx (l, cl)" "n < 2 ^ 31"
  shows "sint (acquires_allowed l) = sint mx - int (clients n cl Holding) - int (clients n cl Undoing)"
proof -
  have "sint mx < 2 ^ 31" using sint_lt [of mx] by simp
  then have "sint (of_int (sint mx - int (clients n cl Holding) - int (clients n cl Undoing)) :: i32)
      = sint mx - int (clients n cl Holding) - int (clients n cl Undoing)"
    using assms clients_le [of n cl] by (intro sint_of_int32) (auto simp: lim_inv_def)
  then show ?thesis using assms(1) unfolding lim_inv_def by simp
qed

lemma lim_inv_step:
  assumes "lim_inv n mx s" "lim_step n s s'" "n < 2 ^ 31"
  shows "lim_inv n mx s'"
  using assms(2)
proof (cases rule: lim_step.cases)
  case (acquire t cl l got l')
  have inv: "lim_inv n mx (l, cl)" using assms(1) acquire(1) by simp
  note allowed = lim_inv_allowed [OF inv assms(3)]
  show ?thesis
    using inv acquire allowed clients_upd [of t n cl Holding Holding] clients_upd [of t n cl Holding Undoing]
      clients_upd [of t n cl Undoing Holding] clients_upd [of t n cl Undoing Undoing]
    by (auto simp: lim_inv_def Acquire_first_def fetch_sub_def algebra_simps)
next
  case (undo t cl l l')
  have inv: "lim_inv n mx (l, cl)" using assms(1) undo(1) by simp
  show ?thesis
    using inv undo clients_pos [of t n cl Undoing] clients_upd [of t n cl Outside Holding] clients_upd [of t n cl Outside Undoing]
    by (auto simp: lim_inv_def Acquire_undo_def fetch_add_def algebra_simps of_nat_diff split: if_splits)
next
  case (release t cl l l')
  have inv: "lim_inv n mx (l, cl)" using assms(1) release(1) by simp
  show ?thesis
    using inv release clients_pos [of t n cl Holding] clients_upd [of t n cl Outside Holding] clients_upd [of t n cl Outside Undoing]
    by (auto simp: lim_inv_def Limiter_Release_def fetch_add_def algebra_simps of_nat_diff split: if_splits)
qed

lemma lim_reachable_inv: "lim_reachable n mx s \<Longrightarrow> n < 2 ^ 31 \<Longrightarrow> lim_inv n mx s"
proof (induction rule: lim_reachable.induct)
  case (start l)
  then show ?case by (auto simp: lim_inv_def Limiter_new_def clients_def split: if_splits)
next
  case (step s s')
  then show ?case using lim_inv_step by blast
qed

section \<open>Properties\<close>

text \<open>C15. The limiter never hands out more resources than allowed, whatever the interleaving of its
  clients: with fewer than \<open>2 ^ 31\<close> clients, in every reachable state at most \<open>max_acquires\<close> of them hold a
  resource; the assertion of a failing \<open>Acquire\<close> and that of \<open>Release\<close> hold whenever they are reached; and
  when no client is in the middle of a failing \<open>Acquire\<close>, an \<open>Acquire\<close> succeeds exactly if fewer than
  \<open>max_acquires\<close> resources are held.\<close>

theorem limiter_bounds_holders:
  assumes "lim_reachable n mx (l, cl)" and "n < 2 ^ 31"
  shows "int (clients n cl Holding) \<le> sint mx
    \<and> (\<forall>t<n. cl t = Undoing \<longrightarrow> Acquire_undo l \<noteq> None) \<and> (\<forall>t<n. cl t = Holding \<longrightarrow> Limiter_Release l \<noteq> None)
    \<and> (clients n cl Undoing = 0 \<longrightarrow> fst (Acquire_first l) = (int (clients n cl Holding) < sint mx)
        \<and> Limiter_Acquire l \<noteq> None)"
proof -
  have inv: "lim_inv n mx (l, cl)" by (rule lim_reachable_inv [OF assms])
  note allowed = lim_inv_allowed [OF inv assms(2)]
  have "Acquire_undo l \<noteq> None" if "t < n" "cl t = Undoing" for t
    using inv allowed clients_pos [of t n cl] that by (simp add: lim_inv_def Acquire_undo_def fetch_add_def)
  moreover have "Limiter_Release l \<noteq> None" if "t < n" "cl t = Holding" for t
    using inv allowed clients_pos [of t n cl] that by (simp add: lim_inv_def Limiter_Release_def fetch_add_def)
  moreover have "Limiter_Acquire l \<noteq> None"
  proof -
    have "sint (acquires_allowed l - 1) = sint (acquires_allowed l) - 1"
      using inv allowed assms(2) clients_le [of n cl] by (intro sint_minus_1) (simp add: lim_inv_def)
    then have "sint (acquires_allowed l - 1) < sint mx" if "sint (acquires_allowed l) \<le> 0"
      using that inv by (simp add: lim_inv_def)
    then show ?thesis
      using inv by (auto simp: Limiter_Acquire_def Acquire_first_def Acquire_undo_def fetch_sub_def fetch_add_def lim_inv_def)
  qed
  ultimately show ?thesis using inv allowed by (auto simp: lim_inv_def Acquire_first_def fetch_sub_def)
qed

theorem limiter_bounds_holders_witness:
  "\<exists>l. lim_reachable 2 1 (l, (\<lambda>_. Outside)(0 := Holding)) \<and> \<not> fst (Acquire_first l) \<and> Limiter_Release l \<noteq> None"
proof -
  let ?l = "\<lparr>max_acquires = 1, acquires_allowed = 1\<rparr>"
  have "lim_reachable 2 1 (?l, \<lambda>_. Outside)" by (rule start) (simp add: Limiter_new_def)
  moreover have "lim_step 2 (?l, \<lambda>_. Outside) (?l\<lparr>acquires_allowed := 0\<rparr>, (\<lambda>_. Outside)(0 := Holding))"
    using acquire [of 0 2 "\<lambda>_. Outside" ?l True "?l\<lparr>acquires_allowed := 0\<rparr>"] by (simp add: Acquire_first_def fetch_sub_def)
  ultimately have run: "lim_reachable 2 1 (?l\<lparr>acquires_allowed := 0\<rparr>, (\<lambda>_. Outside)(0 := Holding))" by (rule step)
  have "clients 2 ((\<lambda>_. Outside)(0 := Holding)) Holding = 1" "clients 2 ((\<lambda>_. Outside)(0 := Holding)) Undoing = 0"
    using clients_upd [of 0 2 "\<lambda>_. Outside" Holding] by (simp_all add: clients_def)
  then have "\<not> fst (Acquire_first (?l\<lparr>acquires_allowed := 0\<rparr>))" "Limiter_Release (?l\<lparr>acquires_allowed := 0\<rparr>) \<noteq> None"
    using limiter_bounds_holders [OF run] by (auto dest!: spec [of _ "0 :: nat"])
  with run show ?thesis by blast
qed

text \<open>
  The quotient of a large soft limit does not fit an \<open>int32_t\<close>: for example with \<open>rlim_cur = 2 ^ 34\<close> the limit
  is negative and the constructor of the limiter fails its assertion.
\<close>

lemma max_open_files_overflow:
  "Limiter_new (fst (MaxOpenFiles (Some (2 ^ 34)) limit_globals_init)) = None"
  by (simp add: MaxOpenFiles_def limit_globals_init_def RLIM_INFINITY_def Limiter_new_def)

text \<open>With a soft limit below \<open>5 * 2 ^ 31\<close> it is a fifth of it.\<close>

lemma max_open_files_fifth:
  assumes "unat rlim_cur < 5 * 2 ^ 31" "sint (g_open_read_only_file_limit g) < 0"
  shows "sint (fst (MaxOpenFiles (Some rlim_cur) g)) = int (unat rlim_cur div 5)"
proof -
  have "unat RLIM_INFINITY = 2 ^ 64 - 1" by (simp add: RLIM_INFINITY_def unsigned_minus_1_eq_mask mask_eq_exp_minus_1)
  then have "rlim_cur \<noteq> RLIM_INFINITY" using assms(1) by auto
  moreover have "sint (of_int (int (unat rlim_cur div 5)) :: i32) = int (unat rlim_cur div 5)"
    using assms(1) by (intro sint_of_int32) auto
  moreover have "(ucast (rlim_cur div 5) :: i32) = of_nat (unat rlim_cur div 5)"
    using of_nat_unat [of "rlim_cur div 5", where 'a = i32] by (simp only: unat_div) simp
  ultimately show ?thesis using assms(2) by (simp add: MaxOpenFiles_def Let_def)
qed

end
