(* ===== verification/Env_Posix.thy ===== *)
theory Env_Posix
  imports Env_File Limiter Logging
begin

text \<open>
  \<open>PosixEnv\<close> of \<open>env/env_posix.cpp\<close>: opening files of every kind, random access files, directory
  operations and file locks.  The background thread of the environment is in \<open>Background\<close>, its limiter in
  \<open>Limiter\<close>.

  The system calls that are needed beyond those of the file classes extend the record \<open>sys\<close>.  The state of
  the kernel is passed along; a file object that carries it (\<open>Env_File\<close>) gets it when it is used.  A failing
  assertion is \<open>None\<close>.
\<close>

section \<open>System calls\<close>

datatype open_mode = ReadOnly | TruncWriteCreate | AppendWriteCreate | ReadWriteCreate

record 'os env_sys = "'os sys" +
  sys_open :: "bytes \<Rightarrow> open_mode \<Rightarrow> 'os \<Rightarrow> int sysres \<times> 'os"
  sys_pread :: "int \<Rightarrow> nat \<Rightarrow> int \<Rightarrow> 'os \<Rightarrow> bytes sysres \<times> 'os"
  sys_stat_size :: "bytes \<Rightarrow> 'os \<Rightarrow> u64 sysres \<times> 'os"
  sys_mmap :: "int \<Rightarrow> u64 \<Rightarrow> 'os \<Rightarrow> mem sysres \<times> 'os"
  sys_munmap :: "mem \<Rightarrow> u64 \<Rightarrow> 'os \<Rightarrow> unit sysres \<times> 'os"
  sys_access :: "bytes \<Rightarrow> 'os \<Rightarrow> unit sysres \<times> 'os"
  sys_opendir :: "bytes \<Rightarrow> 'os \<Rightarrow> nat sysres \<times> 'os"
  sys_readdir :: "nat \<Rightarrow> 'os \<Rightarrow> bytes option \<times> 'os"
  sys_closedir :: "nat \<Rightarrow> 'os \<Rightarrow> 'os"
  sys_unlink :: "bytes \<Rightarrow> 'os \<Rightarrow> unit sysres \<times> 'os"
  sys_mkdir :: "bytes \<Rightarrow> 'os \<Rightarrow> unit sysres \<times> 'os"
  sys_rmdir :: "bytes \<Rightarrow> 'os \<Rightarrow> unit sysres \<times> 'os"
  sys_rename :: "bytes \<Rightarrow> bytes \<Rightarrow> 'os \<Rightarrow> unit sysres \<times> 'os"
  sys_setlk :: "int \<Rightarrow> bool \<Rightarrow> 'os \<Rightarrow> unit sysres \<times> 'os"
  sys_fdopen :: "int \<Rightarrow> 'os \<Rightarrow> unit sysres \<times> 'os"

abbreviation base_sys :: "'os env_sys \<Rightarrow> 'os sys" where
  "base_sys k \<equiv> sys.truncate k"

text \<open>What the kernel sees of a \<open>std::string\<close> passed by \<open>c_str()\<close>.\<close>

definition c_str :: "bytes \<Rightarrow> bytes" where
  "c_str s = takeWhile (\<lambda>c. c \<noteq> 0) s"

section \<open>Random access files\<close>

record PosixRandomAccessFile =
  ra_has_permanent_fd :: bool
  ra_fd :: int
  ra_filename :: bytes

definition PosixRandomAccessFile_new ::
  "'os env_sys \<Rightarrow> bytes \<Rightarrow> int \<Rightarrow> Limiter \<Rightarrow> 'os \<Rightarrow> (PosixRandomAccessFile \<times> Limiter \<times> 'os) option" where
  "PosixRandomAccessFile_new k filename fd fd_limiter os =
     do {
       (has, fd_limiter) \<leftarrow> Limiter_Acquire fd_limiter;
       let os = (if has then os else snd (sys_close k fd os)) in
       Some (\<lparr>ra_has_permanent_fd = has, ra_fd = (if has then fd else -1), ra_filename = filename\<rparr>,
             fd_limiter, os)
     }"

definition PosixRandomAccessFile_delete ::
  "'os env_sys \<Rightarrow> PosixRandomAccessFile \<Rightarrow> Limiter \<Rightarrow> 'os \<Rightarrow> (Limiter \<times> 'os) option" where
  "PosixRandomAccessFile_delete k f fd_limiter os =
     (if ra_has_permanent_fd f then
        if ra_fd f = -1 then None
        else
          let os = snd (sys_close k (ra_fd f) os) in
          do { fd_limiter \<leftarrow> Limiter_Release fd_limiter; Some (fd_limiter, os) }
      else Some (fd_limiter, os))"

text \<open>The result is \<open>None\<close> where \<open>*result\<close> is not assigned.\<close>

definition PosixRandomAccessFile_Read ::
  "'os env_sys \<Rightarrow> PosixRandomAccessFile \<Rightarrow> u64 \<Rightarrow> nat \<Rightarrow> bytes \<Rightarrow> 'os \<Rightarrow> (Status \<times> slice option \<times> 'os) option" where
  "PosixRandomAccessFile_Read k f offset n scratch os =
     (let (r, os) = (if ra_has_permanent_fd f then (Ret (ra_fd f), os)
                     else sys_open k (c_str (ra_filename f)) ReadOnly os) in
      case r of
        Err e \<Rightarrow> Some (PosixError (sys_strerror k) (ra_filename f) e, None, os)
      | Ret fd \<Rightarrow>
          if fd = -1 then None
          else
            let (r, os) = sys_pread k fd n (sint offset) os;
                result = (case r of Err e \<Rightarrow> Slice_ptr scratch 0
                                  | Ret d \<Rightarrow> Slice_ptr (write_at 0 d scratch) (length d));
                status = (case r of Err e \<Rightarrow> PosixError (sys_strerror k) (ra_filename f) e | Ret _ \<Rightarrow> Status_OK) in
            if ra_has_permanent_fd f then Some (status, Some result, os)
            else if fd = ra_fd f then None
            else Some (status, Some result, snd (sys_close k fd os)))"

text \<open>
  The constructor initialises \<open>filename_\<close> from itself, \<open>filename_(std::move(filename_))\<close>, and never reads its
  parameter: what the member then holds is the argument \<open>self_moved\<close>.
\<close>

record PosixMmapReadableFile =
  mm_base :: mem
  mm_length :: u64
  mm_filename :: bytes

definition PosixMmapReadableFile_new :: "bytes \<Rightarrow> bytes \<Rightarrow> mem \<Rightarrow> u64 \<Rightarrow> PosixMmapReadableFile" where
  "PosixMmapReadableFile_new self_moved filename mmap_base len =
     \<lparr>mm_base = mmap_base, mm_length = len, mm_filename = self_moved\<rparr>"

definition PosixMmapReadableFile_delete ::
  "'os env_sys \<Rightarrow> PosixMmapReadableFile \<Rightarrow> Limiter \<Rightarrow> 'os \<Rightarrow> (Limiter \<times> 'os) option" where
  "PosixMmapReadableFile_delete k f mmap_limiter os =
     (case sys_munmap k (mm_base f) (mm_length f) os of
        (Err _, os) \<Rightarrow> None
      | (Ret _, os) \<Rightarrow> do { mmap_limiter \<leftarrow> Limiter_Release mmap_limiter; Some (mmap_limiter, os) })"

definition PosixMmapReadableFile_Read ::
  "(nat \<Rightarrow> bytes) \<Rightarrow> PosixMmapReadableFile \<Rightarrow> u64 \<Rightarrow> u64 \<Rightarrow> Status \<times> slice" where
  "PosixMmapReadableFile_Read strerror f offset n =
     (if offset + n > mm_length f then (PosixError strerror (mm_filename f) EINVAL, Slice_default)
      else (Status_OK, Slice_ptr (drop (unat offset) (mm_base f)) (unat n)))"

section \<open>Locks\<close>

definition LockOrUnlock :: "'os env_sys \<Rightarrow> int \<Rightarrow> bool \<Rightarrow> 'os \<Rightarrow> unit sysres \<times> 'os" where
  "LockOrUnlock k fd lock os = sys_setlk k fd lock os"

record PosixFileLock =
  fl_fd :: int
  fl_filename :: bytes

text \<open>\<open>PosixLockTable\<close>: a set of names; \<open>Insert\<close> says whether the name is new.\<close>

definition PosixLockTable_Insert :: "bytes set \<Rightarrow> bytes \<Rightarrow> bool \<times> bytes set" where
  "PosixLockTable_Insert locked fname = (fname \<notin> locked, insert fname locked)"

definition PosixLockTable_Remove :: "bytes set \<Rightarrow> bytes \<Rightarrow> bytes set" where
  "PosixLockTable_Remove locked fname = locked - {fname}"

section \<open>PosixEnv\<close>

record 'os PosixEnv =
  env_os :: 'os
  env_locks :: "bytes set"
  env_mmap_limiter :: Limiter
  env_fd_limiter :: Limiter

definition PosixEnv_new :: "u64 option \<Rightarrow> limit_globals \<Rightarrow> 'os \<Rightarrow> ('os PosixEnv \<times> limit_globals) option" where
  "PosixEnv_new rlim g os =
     do {
       mmap_limiter \<leftarrow> Limiter_new (MaxMmaps g);
       let (n, g) = MaxOpenFiles rlim g in
       do {
         fd_limiter \<leftarrow> Limiter_new n;
         Some (\<lparr>env_os = os, env_locks = {}, env_mmap_limiter = mmap_limiter, env_fd_limiter = fd_limiter\<rparr>, g)
       }
     }"

definition PosixEnv_NewSequentialFile ::
  "'os env_sys \<Rightarrow> 'os PosixEnv \<Rightarrow> bytes \<Rightarrow> Status \<times> 'os seqfile option \<times> 'os PosixEnv" where
  "PosixEnv_NewSequentialFile k env filename =
     (case sys_open k (c_str filename) ReadOnly (env_os env) of
        (Err e, os) \<Rightarrow> (PosixError (sys_strerror k) filename e, None, env\<lparr>env_os := os\<rparr>)
      | (Ret fd, os) \<Rightarrow> (Status_OK, Some \<lparr>sf_fd = fd, sf_filename = filename, sf_os = os\<rparr>, env\<lparr>env_os := os\<rparr>))"

definition PosixEnv_GetFileSize ::
  "'os env_sys \<Rightarrow> 'os PosixEnv \<Rightarrow> bytes \<Rightarrow> Status \<times> u64 \<times> 'os PosixEnv" where
  "PosixEnv_GetFileSize k env filename =
     (case sys_stat_size k (c_str filename) (env_os env) of
        (Err e, os) \<Rightarrow> (PosixError (sys_strerror k) filename e, 0, env\<lparr>env_os := os\<rparr>)
      | (Ret n, os) \<Rightarrow> (Status_OK, n, env\<lparr>env_os := os\<rparr>))"

datatype RandomAccessFile = Pread PosixRandomAccessFile | Mmap PosixMmapReadableFile

definition PosixEnv_NewRandomAccessFile ::
  "'os env_sys \<Rightarrow> bytes \<Rightarrow> 'os PosixEnv \<Rightarrow> bytes \<Rightarrow> (Status \<times> RandomAccessFile option \<times> 'os PosixEnv) option" where
  "PosixEnv_NewRandomAccessFile k self_moved env filename =
     (case sys_open k (c_str filename) ReadOnly (env_os env) of
        (Err e, os) \<Rightarrow> Some (PosixError (sys_strerror k) filename e, None, env\<lparr>env_os := os\<rparr>)
      | (Ret fd, os) \<Rightarrow>
          do {
            (got, lim) \<leftarrow> Limiter_Acquire (env_mmap_limiter env);
            let env = env\<lparr>env_os := os, env_mmap_limiter := lim\<rparr> in
            if \<not> got then
              do {
                (f, fd_lim, os) \<leftarrow> PosixRandomAccessFile_new k filename fd (env_fd_limiter env) (env_os env);
                Some (Status_OK, Some (Pread f), env\<lparr>env_os := os, env_fd_limiter := fd_lim\<rparr>)
              }
            else
              let (status, file_size, env) = PosixEnv_GetFileSize k env filename;
                  (status, result, env) =
                    (if Status_ok status then
                       case sys_mmap k fd file_size (env_os env) of
                         (Ret base, os) \<Rightarrow>
                           (status, Some (Mmap (PosixMmapReadableFile_new self_moved filename base file_size)), env\<lparr>env_os := os\<rparr>)
                       | (Err e, os) \<Rightarrow> (PosixError (sys_strerror k) filename e, None, env\<lparr>env_os := os\<rparr>)
                     else (status, None, env));
                  env = env\<lparr>env_os := snd (sys_close k fd (env_os env))\<rparr> in
              if \<not> Status_ok status then
                do { lim \<leftarrow> Limiter_Release (env_mmap_limiter env); Some (status, result, env\<lparr>env_mmap_limiter := lim\<rparr>) }
              else Some (status, result, env)
          })"

definition PosixEnv_NewWritableFile ::
  "'os env_sys \<Rightarrow> (bytes \<Rightarrow> bytes) \<Rightarrow> 'os PosixEnv \<Rightarrow> bytes \<Rightarrow> Status \<times> 'os writefile option \<times> 'os PosixEnv" where
  "PosixEnv_NewWritableFile k moved env filename =
     (case sys_open k (c_str filename) TruncWriteCreate (env_os env) of
        (Err e, os) \<Rightarrow> (PosixError (sys_strerror k) filename e, None, env\<lparr>env_os := os\<rparr>)
      | (Ret fd, os) \<Rightarrow> (Status_OK, Some (PosixWritableFile_new moved filename fd os), env\<lparr>env_os := os\<rparr>))"

definition PosixEnv_NewAppendableFile ::
  "'os env_sys \<Rightarrow> (bytes \<Rightarrow> bytes) \<Rightarrow> 'os PosixEnv \<Rightarrow> bytes \<Rightarrow> Status \<times> 'os writefile option \<times> 'os PosixEnv" where
  "PosixEnv_NewAppendableFile k moved env filename =
     (case sys_open k (c_str filename) AppendWriteCreate (env_os env) of
        (Err e, os) \<Rightarrow> (PosixError (sys_strerror k) filename e, None, env\<lparr>env_os := os\<rparr>)
      | (Ret fd, os) \<Rightarrow> (Status_OK, Some (PosixWritableFile_new moved filename fd os), env\<lparr>env_os := os\<rparr>))"

definition PosixEnv_FileExists :: "'os env_sys \<Rightarrow> 'os PosixEnv \<Rightarrow> bytes \<Rightarrow> bool" where
  "PosixEnv_FileExists k env filename =
     (case sys_access k (c_str filename) (env_os env) of (Ret _, _) \<Rightarrow> True | (Err _, _) \<Rightarrow> False)"

partial_function (option) readdir_loop ::
  "'os env_sys \<Rightarrow> nat \<Rightarrow> bytes list \<Rightarrow> 'os \<Rightarrow> (bytes list \<times> 'os) option" where
  "readdir_loop k dir result os =
     (case sys_readdir k dir os of
        (None, os) \<Rightarrow> Some (result, os)
      | (Some name, os) \<Rightarrow> readdir_loop k dir (result @ [name]) os)"

definition PosixEnv_GetChildren ::
  "'os env_sys \<Rightarrow> 'os PosixEnv \<Rightarrow> bytes \<Rightarrow> (Status \<times> bytes list \<times> 'os PosixEnv) option" where
  "PosixEnv_GetChildren k env directory_path =
     (case sys_opendir k (c_str directory_path) (env_os env) of
        (Err e, os) \<Rightarrow> Some (PosixError (sys_strerror k) directory_path e, [], env\<lparr>env_os := os\<rparr>)
      | (Ret dir, os) \<Rightarrow>
          do {
            (result, os) \<leftarrow> readdir_loop k dir [] os;
            Some (Status_OK, result, env\<lparr>env_os := sys_closedir k dir os\<rparr>)
          })"

text \<open>The operations that are one system call on a path.\<close>

definition path_call ::
  "'os env_sys \<Rightarrow> ('os \<Rightarrow> unit sysres \<times> 'os) \<Rightarrow> 'os PosixEnv \<Rightarrow> bytes \<Rightarrow> Status \<times> 'os PosixEnv" where
  "path_call k call env context =
     (case call (env_os env) of
        (Err e, os) \<Rightarrow> (PosixError (sys_strerror k) context e, env\<lparr>env_os := os\<rparr>)
      | (Ret _, os) \<Rightarrow> (Status_OK, env\<lparr>env_os := os\<rparr>))"

definition PosixEnv_RemoveFile :: "'os env_sys \<Rightarrow> 'os PosixEnv \<Rightarrow> bytes \<Rightarrow> Status \<times> 'os PosixEnv" where
  "PosixEnv_RemoveFile k env filename = path_call k (sys_unlink k (c_str filename)) env filename"

definition PosixEnv_CreateDir :: "'os env_sys \<Rightarrow> 'os PosixEnv \<Rightarrow> bytes \<Rightarrow> Status \<times> 'os PosixEnv" where
  "PosixEnv_CreateDir k env dirname = path_call k (sys_mkdir k (c_str dirname)) env dirname"

definition PosixEnv_RemoveDir :: "'os env_sys \<Rightarrow> 'os PosixEnv \<Rightarrow> bytes \<Rightarrow> Status \<times> 'os PosixEnv" where
  "PosixEnv_RemoveDir k env dirname = path_call k (sys_rmdir k (c_str dirname)) env dirname"

definition PosixEnv_RenameFile :: "'os env_sys \<Rightarrow> 'os PosixEnv \<Rightarrow> bytes \<Rightarrow> bytes \<Rightarrow> Status \<times> 'os PosixEnv" where
  "PosixEnv_RenameFile k env from_name to_name = path_call k (sys_rename k (c_str from_name) (c_str to_name)) env from_name"

definition PosixEnv_LockFile ::
  "'os env_sys \<Rightarrow> 'os PosixEnv \<Rightarrow> bytes \<Rightarrow> Status \<times> PosixFileLock option \<times> 'os PosixEnv" where
  "PosixEnv_LockFile k env filename =
     (case sys_open k (c_str filename) ReadWriteCreate (env_os env) of
        (Err e, os) \<Rightarrow> (PosixError (sys_strerror k) filename e, None, env\<lparr>env_os := os\<rparr>)
      | (Ret fd, os) \<Rightarrow>
          let (new, locked) = PosixLockTable_Insert (env_locks env) filename in
          if \<not> new then
            (Status_IOError (str ''lock '' @ filename) (str ''already held by process''), None,
             env\<lparr>env_os := snd (sys_close k fd os), env_locks := locked\<rparr>)
          else
            case LockOrUnlock k fd True os of
              (Err e, os) \<Rightarrow>
                (PosixError (sys_strerror k) (str ''lock '' @ filename) e, None,
                 env\<lparr>env_os := snd (sys_close k fd os), env_locks := PosixLockTable_Remove locked filename\<rparr>)
            | (Ret _, os) \<Rightarrow>
                (Status_OK, Some \<lparr>fl_fd = fd, fl_filename = filename\<rparr>, env\<lparr>env_os := os, env_locks := locked\<rparr>))"

definition PosixEnv_UnlockFile ::
  "'os env_sys \<Rightarrow> 'os PosixEnv \<Rightarrow> PosixFileLock \<Rightarrow> Status \<times> 'os PosixEnv" where
  "PosixEnv_UnlockFile k env lock =
     (case LockOrUnlock k (fl_fd lock) False (env_os env) of
        (Err e, os) \<Rightarrow> (PosixError (sys_strerror k) (str ''unlock '' @ fl_filename lock) e, env\<lparr>env_os := os\<rparr>)
      | (Ret _, os) \<Rightarrow>
          (Status_OK, env\<lparr>env_os := snd (sys_close k (fl_fd lock) os),
                         env_locks := PosixLockTable_Remove (env_locks env) (fl_filename lock)\<rparr>))"

text \<open>\<open>env\<close> is the value of the variable \<open>TEST_TMPDIR\<close>, \<open>euid\<close> the result of \<open>geteuid\<close> as an \<open>int32_t\<close>.\<close>

definition snprintf_d :: "i32 \<Rightarrow> bytes" where
  "snprintf_d v = (if sint v < 0 then str ''-'' @ decimal (nat (- sint v)) else decimal (nat (sint v)))"

definition PosixEnv_GetTestDirectory ::
  "'os env_sys \<Rightarrow> bytes option \<Rightarrow> i32 \<Rightarrow> 'os PosixEnv \<Rightarrow> Status \<times> bytes \<times> 'os PosixEnv" where
  "PosixEnv_GetTestDirectory k tmpdir euid env =
     (let result = (case tmpdir of
            Some d \<Rightarrow> if d \<noteq> [] then d else str ''/tmp/leveldbtest-'' @ snprintf_d euid
          | None \<Rightarrow> str ''/tmp/leveldbtest-'' @ snprintf_d euid);
          (_, env) = PosixEnv_CreateDir k env result in
      (Status_OK, result, env))"

text \<open>
  The logger is the descriptor that its stream writes to.  When \<open>fdopen\<close> fails, \<open>errno\<close> is read after
  \<open>close\<close>, which may have set it.
\<close>

definition PosixEnv_NewLogger ::
  "'os env_sys \<Rightarrow> 'os PosixEnv \<Rightarrow> bytes \<Rightarrow> Status \<times> int option \<times> 'os PosixEnv" where
  "PosixEnv_NewLogger k env filename =
     (case sys_open k (c_str filename) AppendWriteCreate (env_os env) of
        (Err e, os) \<Rightarrow> (PosixError (sys_strerror k) filename e, None, env\<lparr>env_os := os\<rparr>)
      | (Ret fd, os) \<Rightarrow>
          (case sys_fdopen k fd os of
             (Err e, os) \<Rightarrow>
               (let (r, os) = sys_close k fd os;
                    errno = (case r of Err e' \<Rightarrow> e' | Ret _ \<Rightarrow> e) in
                (PosixError (sys_strerror k) filename errno, None, env\<lparr>env_os := os\<rparr>))
           | (Ret _, os) \<Rightarrow> (Status_OK, Some fd, env\<lparr>env_os := os\<rparr>)))"

text \<open>The result of \<open>gettimeofday\<close> is an argument.\<close>

definition PosixEnv_NowMicros :: "u64 \<Rightarrow> u64 \<Rightarrow> u64" where
  "PosixEnv_NowMicros tv_sec tv_usec = tv_sec * 1000000 + tv_usec"

subsection \<open>The default environment\<close>

text \<open>
  \<open>SingletonEnv\<close> constructs the environment at the first call of \<open>Env::Default\<close>; the limits can be set only
  before.
\<close>

record 'os default_env =
  de_globals :: limit_globals
  de_initialized :: bool
  de_env :: "'os PosixEnv option"

definition SingletonEnv_new :: "u64 option \<Rightarrow> 'os \<Rightarrow> 'os default_env \<Rightarrow> 'os default_env option" where
  "SingletonEnv_new rlim os d =
     do {
       (env, g) \<leftarrow> PosixEnv_new rlim (de_globals d) os;
       Some (d\<lparr>de_globals := g, de_initialized := True, de_env := Some env\<rparr>)
     }"

definition Env_Default :: "u64 option \<Rightarrow> 'os \<Rightarrow> 'os default_env \<Rightarrow> 'os default_env option" where
  "Env_Default rlim os d = (if de_env d = None then SingletonEnv_new rlim os d else Some d)"

definition AssertEnvNotInitialized :: "'os default_env \<Rightarrow> unit option" where
  "AssertEnvNotInitialized d = (if de_initialized d then None else Some ())"

definition SetReadOnlyFDLimit :: "'os default_env \<Rightarrow> i32 \<Rightarrow> 'os default_env option" where
  "SetReadOnlyFDLimit d limit =
     do { _ \<leftarrow> AssertEnvNotInitialized d;
          Some (d\<lparr>de_globals := (de_globals d)\<lparr>g_open_read_only_file_limit := limit\<rparr>\<rparr>) }"

definition SetReadOnlyMMapLimit :: "'os default_env \<Rightarrow> i32 \<Rightarrow> 'os default_env option" where
  "SetReadOnlyMMapLimit d limit =
     do { _ \<leftarrow> AssertEnvNotInitialized d; Some (d\<lparr>de_globals := (de_globals d)\<lparr>g_mmap_limit := limit\<rparr>\<rparr>) }"

text \<open>The limits that were set are those of the limiters of the environment.\<close>

lemma limits_reach_environment:
  assumes "SetReadOnlyFDLimit d fd = Some d1" "SetReadOnlyMMapLimit d1 mm = Some d2" "sint fd \<ge> 0" "sint mm \<ge> 0" "de_env d = None"
  shows "\<exists>d3 env. Env_Default rlim os d2 = Some d3 \<and> de_env d3 = Some env
    \<and> acquires_allowed (env_fd_limiter env) = fd \<and> acquires_allowed (env_mmap_limiter env) = mm
    \<and> Env_Default rlim' os' d3 = Some d3 \<and> SetReadOnlyFDLimit d3 n = None"
  using assms
  by (auto simp: SetReadOnlyFDLimit_def SetReadOnlyMMapLimit_def AssertEnvNotInitialized_def Env_Default_def
      SingletonEnv_new_def PosixEnv_new_def MaxMmaps_def MaxOpenFiles_def Limiter_new_def split: if_splits)

end
