(* ===== verification/Posix_Fs.thy ===== *)
theory Posix_Fs
  imports Env_Posix
begin

text \<open>
  Documented behaviour of the system calls on a file system that works, as the locale \<open>posix_fs\<close>: the
  contents of the regular files and the table of open descriptors change as POSIX says, and calls with valid
  arguments succeed.  The lemmas on the file classes and on \<open>PosixEnv\<close> are proved from it; a file system in
  memory shows that it can be satisfied.
\<close>

section \<open>The contract\<close>

text \<open>
  \<open>fil\<close> gives the contents of a path, \<open>fds\<close> the path and position of an open descriptor; \<open>ok\<close> is the invariant
  of the kernel.  \<open>write\<close> may transfer fewer bytes than asked, but makes progress.
\<close>

locale posix_fs =
  fixes k :: "'os env_sys"
    and ok :: "'os \<Rightarrow> bool"
    and fil :: "'os \<Rightarrow> bytes \<Rightarrow> bytes option"
    and fds :: "'os \<Rightarrow> int \<Rightarrow> (bytes \<times> nat) option"
  assumes open_read: "ok os \<Longrightarrow> fil os p = Some c \<Longrightarrow>
      \<exists>fd os'. sys_open k p ReadOnly os = (Ret fd, os') \<and> fd \<ge> 0 \<and> fds os fd = None
        \<and> fds os' = (fds os)(fd \<mapsto> (p, 0)) \<and> fil os' = fil os \<and> ok os'"
    and open_trunc: "ok os \<Longrightarrow>
      \<exists>fd os'. sys_open k p TruncWriteCreate os = (Ret fd, os') \<and> fd \<ge> 0 \<and> fds os fd = None
        \<and> fds os' = (fds os)(fd \<mapsto> (p, 0)) \<and> fil os' = (fil os)(p \<mapsto> []) \<and> ok os'"
    and write_some: "ok os \<Longrightarrow> fil os p = Some c \<Longrightarrow> fds os fd = Some (p, length c) \<Longrightarrow> d \<noteq> [] \<Longrightarrow>
      length c + length d < 2 ^ 63 \<Longrightarrow>
      \<exists>n os'. sys_write k fd d os = (Ret n, os') \<and> 0 < n \<and> n \<le> length d
        \<and> fil os' = (fil os)(p \<mapsto> c @ take n d) \<and> fds os' = (fds os)(fd \<mapsto> (p, length c + n)) \<and> ok os'"
    and read_some: "ok os \<Longrightarrow> fil os p = Some c \<Longrightarrow> fds os fd = Some (p, i) \<Longrightarrow>
      \<exists>os'. sys_read k fd n os = (Ret (take n (drop i c)), os') \<and> fil os' = fil os
        \<and> fds os' = (fds os)(fd \<mapsto> (p, i + length (take n (drop i c)))) \<and> ok os'"
    and close_fd: "ok os \<Longrightarrow> fds os fd \<noteq> None \<Longrightarrow>
      \<exists>os'. sys_close k fd os = (Ret (), os') \<and> fil os' = fil os \<and> fds os' = (fds os)(fd := None) \<and> ok os'"
    and sync_fd: "ok os \<Longrightarrow> fds os fd \<noteq> None \<Longrightarrow>
      \<exists>os'. sys_sync k fd os = (Ret (), os') \<and> fil os' = fil os \<and> fds os' = fds os \<and> ok os'"
    and pread_some: "ok os \<Longrightarrow> fil os p = Some c \<Longrightarrow> fds os fd = Some (p, i) \<Longrightarrow> 0 \<le> off \<Longrightarrow>
      sys_pread k fd n off os = (Ret (take n (drop (nat off) c)), os)"
    and stat_size: "ok os \<Longrightarrow> fil os p = Some c \<Longrightarrow> length c < 2 ^ 63
      \<and> sys_stat_size k p os = (Ret (of_nat (length c)), os)"
    and mmap_file: "ok os \<Longrightarrow> fil os p = Some c \<Longrightarrow> fds os fd = Some (p, i) \<Longrightarrow> 0 < unat len \<Longrightarrow>
      unat len \<le> length c \<Longrightarrow> sys_mmap k fd len os = (Ret (take (unat len) c), os)"

lemma base_sys_simps [simp]:
  "sys_read (base_sys k) = sys_read k" "sys_write (base_sys k) = sys_write k" "sys_close (base_sys k) = sys_close k"
  "sys_sync (base_sys k) = sys_sync k" "sys_open_rd (base_sys k) = sys_open_rd k" "sys_strerror (base_sys k) = sys_strerror k"
  by (simp_all add: sys.defs)

section \<open>Random access\<close>

definition RandomAccessFile_Read ::
  "'os env_sys \<Rightarrow> RandomAccessFile \<Rightarrow> u64 \<Rightarrow> u64 \<Rightarrow> bytes \<Rightarrow> 'os \<Rightarrow> (Status \<times> slice option \<times> 'os) option" where
  "RandomAccessFile_Read k f offset n scratch os =
     (case f of
        Pread p \<Rightarrow> PosixRandomAccessFile_Read k p offset (unat n) scratch os
      | Mmap m \<Rightarrow> (let (s, r) = PosixMmapReadableFile_Read (sys_strerror k) m offset n in Some (s, Some r, os)))"

text \<open>
  What makes a random access file one of the path \<open>p\<close> with contents \<open>c\<close>: a descriptor of its own for the
  path, or the path to open again, or a map of all of it.
\<close>

fun reads_file :: "('os \<Rightarrow> int \<Rightarrow> (bytes \<times> nat) option) \<Rightarrow> 'os \<Rightarrow> bytes \<Rightarrow> bytes \<Rightarrow> RandomAccessFile \<Rightarrow> bool" where
  "reads_file fds os p c (Pread f) \<longleftrightarrow> ra_filename f = p
     \<and> (if ra_has_permanent_fd f then ra_fd f \<ge> 0 \<and> (\<exists>i. fds os (ra_fd f) = Some (p, i)) else ra_fd f = -1)"
| "reads_file fds os p c (Mmap f) \<longleftrightarrow> mm_base f = c \<and> unat (mm_length f) = length c"

lemma unat_add_no_wrap:
  assumes "unat a + unat b < 2 ^ LENGTH('a)"
  shows "unat (a + b :: 'a::len word) = unat a + unat b"
  using assms by (simp add: unat_word_ariths)

lemma mmap_read_ok:
  assumes "unat offset + unat n \<le> length (mm_base f)" "unat (mm_length f) = length (mm_base f)"
  shows "PosixMmapReadableFile_Read strerror f offset n = (Status_OK, Slice_ptr (drop (unat offset) (mm_base f)) (unat n))"
proof -
  have "unat offset + unat n < 2 ^ 64" using assms unat_u64_less [of "mm_length f"] by simp
  then have "\<not> offset + n > mm_length f"
    using assms unat_add_no_wrap [of offset n] by (simp add: word_less_nat_alt)
  then show ?thesis by (simp add: PosixMmapReadableFile_Read_def)
qed

lemma sint_of_small: "unat x < 2 ^ 63 \<Longrightarrow> sint x = int (unat x)"
  for x :: u64
proof -
  assume "unat x < 2 ^ 63"
  then have "int (unat x) < int (2 ^ 63)" by (simp only: of_nat_less_iff)
  then have "uint x < 2 ^ 63" by simp
  then have "signed_take_bit 63 (uint x) = uint x" by (intro signed_take_bit_int_eq_self) (simp_all add: order_trans [of _ 0])
  then have "sint x = uint x" by (simp add: sint_uint)
  then show "sint x = int (unat x)" by simp
qed

text \<open>Which implementation is chosen, and the one descriptor that may stay open.\<close>

definition access_kind :: "bool \<Rightarrow> bool \<Rightarrow> int \<Rightarrow> RandomAccessFile \<Rightarrow> bool" where
  "access_kind got_map got_fd fd f \<longleftrightarrow>
     (case f of
        Mmap _ \<Rightarrow> got_map
      | Pread f' \<Rightarrow> \<not> got_map \<and> ra_has_permanent_fd f' = got_fd \<and> (got_fd \<longrightarrow> ra_fd f' = fd))"

context posix_fs
begin

lemma pread_reads:
  assumes "ok os" "fil os p = Some c" "c_str p = p" "reads_file fds os p c (Pread f)"
    and "unat offset + n \<le> length c" "n \<le> length scratch"
  shows "\<exists>s os'. PosixRandomAccessFile_Read k f offset n scratch os = Some (Status_OK, Some s, os')
    \<and> slice_wf s \<and> slice_bytes s = take n (drop (unat offset) c) \<and> fil os' = fil os \<and> fds os' = fds os \<and> ok os'"
proof -
  have len: "length c < 2 ^ 63" using stat_size [OF assms(1,2)] by simp
  have off: "sint offset = int (unat offset)" using assms(5) len by (intro sint_of_small) simp
  let ?d = "take n (drop (unat offset) c)"
  let ?s = "Slice_ptr (write_at 0 ?d scratch) (length ?d)"
  have s: "slice_wf ?s" "slice_bytes ?s = ?d"
    using assms(5,6) by (simp_all add: Slice_ptr_def slice_wf_def slice_ToString_def write_at_def)
  show ?thesis
  proof (cases "ra_has_permanent_fd f")
    case True
    then obtain i where "fds os (ra_fd f) = Some (p, i)" "ra_fd f \<ge> 0" using assms(4) by auto
    with pread_some [OF assms(1,2), of "ra_fd f" i "sint offset" n] True off s assms(1) show ?thesis
      by (intro exI [of _ ?s] exI [of _ os]) (simp add: PosixRandomAccessFile_Read_def)
  next
    case False
    obtain fd os1 where 1: "sys_open k p ReadOnly os = (Ret fd, os1)" "fd \<ge> 0" "fds os fd = None"
        "fds os1 = (fds os)(fd \<mapsto> (p, 0))" "fil os1 = fil os" "ok os1"
      using open_read [OF assms(1,2)] by blast
    have f1: "fil os1 p = Some c" "fds os1 fd = Some (p, 0)" using assms(2) 1 by simp_all
    obtain os2 where 2: "sys_close k fd os1 = (Ret (), os2)" "fil os2 = fil os1" "fds os2 = (fds os1)(fd := None)" "ok os2"
      using close_fd [OF 1(6)] f1(2) by blast
    have "fds os2 = fds os" using 1(3,4) 2(3) by auto
    with pread_some [OF 1(6) f1, of "sint offset" n] 1 2 off s False assms(3,4) show ?thesis
      by (intro exI [of _ ?s] exI [of _ os2]) (simp add: PosixRandomAccessFile_Read_def)
  qed
qed

lemma random_reads:
  assumes "ok os" "fil os p = Some c" "c_str p = p" "reads_file fds os p c f"
    and "unat offset + unat n \<le> length c" "unat n \<le> length scratch"
  shows "\<exists>s os'. RandomAccessFile_Read k f offset n scratch os = Some (Status_OK, Some s, os')
    \<and> slice_wf s \<and> slice_bytes s = take (unat n) (drop (unat offset) c) \<and> fil os' = fil os \<and> fds os' = fds os \<and> ok os'"
proof (cases f)
  case (Pread p')
  with pread_reads [OF assms(1-3), of p' offset "unat n" scratch] assms(4-6) show ?thesis
    by (simp add: RandomAccessFile_Read_def)
next
  case (Mmap m)
  with mmap_read_ok [of offset n m "sys_strerror k"] assms show ?thesis
    by (simp add: RandomAccessFile_Read_def Slice_ptr_def slice_wf_def slice_ToString_def)
qed

lemma new_pread:
  assumes "ok os" "fil os p = Some c" "fds os fd = Some (p, 0)" "fd \<ge> 0" "Limiter_Acquire l = Some (got, l')"
  shows "\<exists>f os'. PosixRandomAccessFile_new k p fd l os = Some (f, l', os') \<and> reads_file fds os' p c (Pread f)
    \<and> fil os' = fil os \<and> fds os' = (if got then fds os else (fds os)(fd := None))
    \<and> ra_has_permanent_fd f = got \<and> (got \<longrightarrow> ra_fd f = fd) \<and> ok os'"
proof -
  obtain os' where "sys_close k fd os = (Ret (), os')" "fil os' = fil os" "fds os' = (fds os)(fd := None)" "ok os'"
    using close_fd [OF assms(1)] assms(3) by blast
  with assms show ?thesis by (cases got) (simp_all add: PosixRandomAccessFile_new_def)
qed

lemma new_random_access:
  assumes "ok (env_os env)" "fil (env_os env) p = Some c" "c \<noteq> []" "c_str p = p"
    and "Limiter_Acquire (env_mmap_limiter env) = Some (got_map, lm)" "Limiter_Acquire (env_fd_limiter env) = Some (got_fd, lf)"
  shows "\<exists>f env' fd. PosixEnv_NewRandomAccessFile k self_moved env p = Some (Status_OK, Some f, env')
    \<and> reads_file fds (env_os env') p c f \<and> fil (env_os env') = fil (env_os env) \<and> ok (env_os env')
    \<and> access_kind got_map got_fd fd f \<and> fds (env_os env) fd = None
    \<and> fds (env_os env') = (if \<not> got_map \<and> got_fd then (fds (env_os env))(fd \<mapsto> (p, 0)) else fds (env_os env))"
proof -
  let ?os = "env_os env"
  obtain fd os1 where 1: "sys_open k p ReadOnly ?os = (Ret fd, os1)" "fd \<ge> 0" "fds ?os fd = None"
      "fds os1 = (fds ?os)(fd \<mapsto> (p, 0))" "fil os1 = fil ?os" "ok os1"
    using open_read [OF assms(1,2)] by blast
  have f1: "fil os1 p = Some c" "fds os1 fd = Some (p, 0)" using assms(2) 1 by simp_all
  have restored: "(fds os1)(fd := None) = fds ?os" using 1(3,4) by auto
  obtain os2 where 2: "sys_close k fd os1 = (Ret (), os2)" "fil os2 = fil os1" "fds os2 = (fds os1)(fd := None)" "ok os2"
    using close_fd [OF 1(6)] f1(2) by blast
  show ?thesis
  proof (cases got_map)
    case False
    obtain f os' where f: "PosixRandomAccessFile_new k p fd (env_fd_limiter env) os1 = Some (f, lf, os')"
        "reads_file fds os' p c (Pread f)" "fil os' = fil os1" "ok os'"
        "fds os' = (if got_fd then fds os1 else (fds os1)(fd := None))"
        "ra_has_permanent_fd f = got_fd" "got_fd \<longrightarrow> ra_fd f = fd"
      using new_pread [OF 1(6) f1 1(2) assms(6)] by blast
    with 1 assms(4-6) False restored show ?thesis
      by (intro exI [of _ "Pread f"] exI exI [of _ fd]) (auto simp: PosixEnv_NewRandomAccessFile_def access_kind_def)
  next
    case True
    have "length c < 2 ^ 63" "sys_stat_size k p os1 = (Ret (of_nat (length c)), os1)"
      using stat_size [OF 1(6) f1(1)] by simp_all
    moreover from this have size: "unat (of_nat (length c) :: u64) = length c" by (simp add: unat_of_nat_small)
    moreover have "sys_mmap k fd (of_nat (length c)) os1 = (Ret c, os1)"
      using mmap_file [OF 1(6) f1, of "of_nat (length c)"] size assms(3) by simp
    ultimately show ?thesis
      using 1 2 True assms(4-6) restored
      by (auto simp: PosixEnv_NewRandomAccessFile_def PosixEnv_GetFileSize_def PosixMmapReadableFile_new_def access_kind_def)
  qed
qed

end

section \<open>A file system in memory\<close>

record memfs =
  fs_files :: "bytes \<Rightarrow> bytes option"
  fs_fds :: "int \<Rightarrow> (bytes \<times> nat) option"
  fs_next :: int

definition memfs_ok :: "memfs \<Rightarrow> bool" where
  "memfs_ok m \<longleftrightarrow> 0 \<le> fs_next m \<and> (\<forall>fd. fs_fds m fd \<noteq> None \<longrightarrow> fd < fs_next m)
     \<and> (\<forall>p c. fs_files m p = Some c \<longrightarrow> length c < 2 ^ 63)"

definition memfs_open :: "bytes \<Rightarrow> open_mode \<Rightarrow> memfs \<Rightarrow> int sysres \<times> memfs" where
  "memfs_open p mode m =
     (let old = (case fs_files m p of None \<Rightarrow> [] | Some c \<Rightarrow> c);
          new = (\<lambda>files pos. (Ret (fs_next m),
            m\<lparr>fs_files := files, fs_fds := (fs_fds m)(fs_next m \<mapsto> (p, pos)), fs_next := fs_next m + 1\<rparr>)) in
      case mode of
        ReadOnly \<Rightarrow> if fs_files m p = None then (Err ENOENT, m) else new (fs_files m) 0
      | TruncWriteCreate \<Rightarrow> new ((fs_files m)(p \<mapsto> [])) 0
      | AppendWriteCreate \<Rightarrow> new ((fs_files m)(p \<mapsto> old)) (length old)
      | ReadWriteCreate \<Rightarrow> new ((fs_files m)(p \<mapsto> old)) 0)"

definition memfs_at :: "memfs \<Rightarrow> int \<Rightarrow> (bytes \<times> nat \<times> bytes) option" where
  "memfs_at m fd = (case fs_fds m fd of None \<Rightarrow> None | Some (p, i) \<Rightarrow> map_option (\<lambda>c. (p, i, c)) (fs_files m p))"

definition memfs_write :: "int \<Rightarrow> bytes \<Rightarrow> memfs \<Rightarrow> nat sysres \<times> memfs" where
  "memfs_write fd d m =
     (case memfs_at m fd of
        None \<Rightarrow> (Err 9, m)
      | Some (p, i, c) \<Rightarrow>
          let n = min 4096 (length d) in
          (Ret n, m\<lparr>fs_files := (fs_files m)(p \<mapsto> take i c @ take n d @ drop (i + n) c),
                    fs_fds := (fs_fds m)(fd \<mapsto> (p, i + n))\<rparr>))"

definition memfs_read :: "int \<Rightarrow> nat \<Rightarrow> memfs \<Rightarrow> bytes sysres \<times> memfs" where
  "memfs_read fd n m =
     (case memfs_at m fd of
        None \<Rightarrow> (Err 9, m)
      | Some (p, i, c) \<Rightarrow>
          (Ret (take n (drop i c)), m\<lparr>fs_fds := (fs_fds m)(fd \<mapsto> (p, i + length (take n (drop i c))))\<rparr>))"

definition memfs_sys :: "memfs env_sys" where
  "memfs_sys =
     \<lparr>sys_read = memfs_read,
      sys_lseek_cur = (\<lambda>fd n m. (Ret (), m)),
      sys_write = memfs_write,
      sys_close = (\<lambda>fd m. if fs_fds m fd = None then (Err 9, m) else (Ret (), m\<lparr>fs_fds := (fs_fds m)(fd := None)\<rparr>)),
      sys_sync = (\<lambda>fd m. (Ret (), m)),
      sys_open_rd = (\<lambda>p m. memfs_open p ReadOnly m),
      sys_strerror = (\<lambda>e. str ''error''),
      sys_open = memfs_open,
      sys_pread = (\<lambda>fd n off m. case memfs_at m fd of None \<Rightarrow> (Err 9, m) | Some (p, i, c) \<Rightarrow>
         if off < 0 then (Err EINVAL, m) else (Ret (take n (drop (nat off) c)), m)),
      sys_stat_size = (\<lambda>p m. case fs_files m p of None \<Rightarrow> (Err ENOENT, m) | Some c \<Rightarrow> (Ret (of_nat (length c)), m)),
      sys_mmap = (\<lambda>fd len m. case memfs_at m fd of None \<Rightarrow> (Err 9, m) | Some (p, i, c) \<Rightarrow>
         if len = 0 then (Err EINVAL, m) else (Ret (take (unat len) c), m)),
      sys_munmap = (\<lambda>base len m. (Ret (), m)),
      sys_access = (\<lambda>p m. if fs_files m p = None then (Err ENOENT, m) else (Ret (), m)),
      sys_opendir = (\<lambda>p m. (Err ENOENT, m)),
      sys_readdir = (\<lambda>d m. (None, m)),
      sys_closedir = (\<lambda>d m. m),
      sys_unlink = (\<lambda>p m. if fs_files m p = None then (Err ENOENT, m) else (Ret (), m\<lparr>fs_files := (fs_files m)(p := None)\<rparr>)),
      sys_mkdir = (\<lambda>p m. (Ret (), m)),
      sys_rmdir = (\<lambda>p m. (Ret (), m)),
      sys_rename = (\<lambda>p q m. (Ret (), m\<lparr>fs_files := (fs_files m)(p := None, q := fs_files m p)\<rparr>)),
      sys_setlk = (\<lambda>fd lock m. (Ret (), m)),
      sys_fdopen = (\<lambda>fd m. (Ret (), m))\<rparr>"

lemma memfs_at_Some: "fs_files m p = Some c \<Longrightarrow> fs_fds m fd = Some (p, i) \<Longrightarrow> memfs_at m fd = Some (p, i, c)"
  by (simp add: memfs_at_def)

lemma memfs_next_free: "memfs_ok m \<Longrightarrow> fs_fds m (fs_next m) = None"
  unfolding memfs_ok_def by (metis less_irrefl)

lemma memfs_ok_open:
  assumes "memfs_ok m" "\<And>q c. files q = Some c \<Longrightarrow> length c < 2 ^ 63"
  shows "memfs_ok (m\<lparr>fs_files := files, fs_fds := (fs_fds m)(fs_next m \<mapsto> x), fs_next := fs_next m + 1\<rparr>)"
  using assms by (fastforce simp: memfs_ok_def)

interpretation memfs: posix_fs memfs_sys memfs_ok fs_files fs_fds
proof
  fix os :: memfs and p c fd d n i off len
  assume ok: "memfs_ok os"
  note bound = ok [unfolded memfs_ok_def]
  show "\<exists>fd os'. sys_open memfs_sys p TruncWriteCreate os = (Ret fd, os') \<and> fd \<ge> 0 \<and> fs_fds os fd = None
        \<and> fs_fds os' = (fs_fds os)(fd \<mapsto> (p, 0)) \<and> fs_files os' = (fs_files os)(p \<mapsto> []) \<and> memfs_ok os'"
  proof -
    have "memfs_ok (os\<lparr>fs_files := (fs_files os)(p \<mapsto> []), fs_fds := (fs_fds os)(fs_next os \<mapsto> (p, 0)), fs_next := fs_next os + 1\<rparr>)"
      by (rule memfs_ok_open [OF ok]) (use bound in \<open>auto split: if_splits\<close>)
    with memfs_next_free [OF ok] bound show ?thesis by (simp add: memfs_sys_def memfs_open_def)
  qed
  show "\<exists>os'. sys_sync memfs_sys fd os = (Ret (), os') \<and> fs_files os' = fs_files os \<and> fs_fds os' = fs_fds os \<and> memfs_ok os'"
    using ok by (simp add: memfs_sys_def)
  show "\<exists>os'. sys_close memfs_sys fd os = (Ret (), os') \<and> fs_files os' = fs_files os
      \<and> fs_fds os' = (fs_fds os)(fd := None) \<and> memfs_ok os'" if "fs_fds os fd \<noteq> None"
    using that bound by (auto simp: memfs_sys_def memfs_ok_def)
  assume c: "fs_files os p = Some c"
  show "\<exists>fd os'. sys_open memfs_sys p ReadOnly os = (Ret fd, os') \<and> fd \<ge> 0 \<and> fs_fds os fd = None
        \<and> fs_fds os' = (fs_fds os)(fd \<mapsto> (p, 0)) \<and> fs_files os' = fs_files os \<and> memfs_ok os'"
    using memfs_ok_open [OF ok, of "fs_files os" "(p, 0)"] memfs_next_free [OF ok] bound c
    by (auto simp: memfs_sys_def memfs_open_def Let_def)
  show "length c < 2 ^ 63 \<and> sys_stat_size memfs_sys p os = (Ret (of_nat (length c)), os)"
    using bound c by (auto simp: memfs_sys_def)
  show "\<exists>os'. sys_read memfs_sys fd n os = (Ret (take n (drop i c)), os') \<and> fs_files os' = fs_files os
        \<and> fs_fds os' = (fs_fds os)(fd \<mapsto> (p, i + length (take n (drop i c)))) \<and> memfs_ok os'"
    if "fs_fds os fd = Some (p, i)"
    using that bound memfs_at_Some [OF c that] by (auto simp: memfs_sys_def memfs_read_def memfs_ok_def)
  show "sys_pread memfs_sys fd n off os = (Ret (take n (drop (nat off) c)), os)" if "fs_fds os fd = Some (p, i)" "0 \<le> off"
    using that memfs_at_Some [OF c that(1)] by (simp add: memfs_sys_def)
  show "sys_mmap memfs_sys fd len os = (Ret (take (unat len) c), os)"
    if "fs_fds os fd = Some (p, i)" "0 < unat len" "unat len \<le> length c"
    using that memfs_at_Some [OF c that(1)] by (auto simp: memfs_sys_def)
  show "\<exists>n os'. sys_write memfs_sys fd d os = (Ret n, os') \<and> 0 < n \<and> n \<le> length d
        \<and> fs_files os' = (fs_files os)(p \<mapsto> c @ take n d) \<and> fs_fds os' = (fs_fds os)(fd \<mapsto> (p, length c + n)) \<and> memfs_ok os'"
    if "fs_fds os fd = Some (p, length c)" "d \<noteq> []" "length c + length d < 2 ^ 63"
    using that bound memfs_at_Some [OF c that(1)]
    by (auto simp: memfs_sys_def memfs_write_def Let_def memfs_ok_def)
qed

section \<open>Properties\<close>

text \<open>C17. A random access file reads the file, however it is implemented.  On a working file system, opening a
  non-empty file returns and succeeds: with a map when the limiter of maps allows one, else with a permanent
  descriptor when the limiter of descriptors allows one, else with none.  The table of descriptors is then the
  old one, extended by a new descriptor of the file exactly in the second case.  Reading \<open>n\<close> bytes that
  lie within the file returns exactly these bytes, through the map, the permanent descriptor or one
  opened for this read alone, and leaves the table of descriptors as it was.\<close>

theorem random_access_reads_file:
  assumes "posix_fs k ok fil fds" and "ok (env_os env)" and "fil (env_os env) p = Some c" and "c \<noteq> []" and "c_str p = p"
    and "Limiter_Acquire (env_mmap_limiter env) = Some (got_map, lm)"
    and "Limiter_Acquire (env_fd_limiter env) = Some (got_fd, lf)"
    and "unat offset + unat n \<le> length c" and "unat n \<le> length scratch"
  shows "\<exists>f env' fd s os'. PosixEnv_NewRandomAccessFile k self_moved env p = Some (Status_OK, Some f, env')
    \<and> access_kind got_map got_fd fd f \<and> fds (env_os env) fd = None
    \<and> fds (env_os env') = (if \<not> got_map \<and> got_fd then (fds (env_os env))(fd \<mapsto> (p, 0)) else fds (env_os env))
    \<and> RandomAccessFile_Read k f offset n scratch (env_os env') = Some (Status_OK, Some s, os')
    \<and> slice_wf s \<and> slice_bytes s = take (unat n) (drop (unat offset) c) \<and> fds os' = fds (env_os env')"
proof -
  obtain f env' fd where f: "PosixEnv_NewRandomAccessFile k self_moved env p = Some (Status_OK, Some f, env')"
      "reads_file fds (env_os env') p c f" "fil (env_os env') = fil (env_os env)" "ok (env_os env')"
    and table: "access_kind got_map got_fd fd f" "fds (env_os env) fd = None"
      "fds (env_os env') = (if \<not> got_map \<and> got_fd then (fds (env_os env))(fd \<mapsto> (p, 0)) else fds (env_os env))"
    using posix_fs.new_random_access [OF assms(1-7)] by blast
  have "fil (env_os env') p = Some c" using f(3) assms(3) by simp
  from posix_fs.random_reads [OF assms(1) f(4) this assms(5) f(2) assms(8,9)] f(1) table show ?thesis by blast
qed

text \<open>Neither a map nor a permanent descriptor is left, and the file is read all the same.\<close>

theorem random_access_reads_file_witness:
  "\<exists>f env' s os'. PosixEnv_NewRandomAccessFile memfs_sys []
      \<lparr>env_os = \<lparr>fs_files = [[97] \<mapsto> [10, 20, 30, 40]], fs_fds = (\<lambda>_. None), fs_next = 3\<rparr>, env_locks = {},
       env_mmap_limiter = \<lparr>max_acquires = 0, acquires_allowed = 0\<rparr>, env_fd_limiter = \<lparr>max_acquires = 1, acquires_allowed = 0\<rparr>\<rparr> [97]
        = Some (Status_OK, Some f, env')
    \<and> fs_fds (env_os env') = (\<lambda>_. None)
    \<and> RandomAccessFile_Read memfs_sys f 1 2 [0, 0] (env_os env') = Some (Status_OK, Some s, os')
    \<and> slice_bytes s = [20, 30] \<and> fs_fds os' = (\<lambda>_. None)"
proof -
  let ?env = "\<lparr>env_os = \<lparr>fs_files = [[97] \<mapsto> [10, 20, 30, 40]], fs_fds = (\<lambda>_. None), fs_next = 3\<rparr>,
      env_locks = {}, env_mmap_limiter = \<lparr>max_acquires = 0, acquires_allowed = 0\<rparr>,
      env_fd_limiter = \<lparr>max_acquires = 1, acquires_allowed = 0\<rparr>\<rparr>"
  have "memfs_ok (env_os ?env)" by (simp add: memfs_ok_def)
  moreover have "Limiter_Acquire (env_mmap_limiter ?env) = Some (False, env_mmap_limiter ?env)"
    "Limiter_Acquire (env_fd_limiter ?env) = Some (False, env_fd_limiter ?env)"
    by (simp_all add: Limiter_Acquire_def Acquire_first_def Acquire_undo_def fetch_sub_def fetch_add_def)
  ultimately show ?thesis
    using random_access_reads_file [OF memfs.posix_fs_axioms, of ?env "[97]" "[10, 20, 30, 40]" False
        "env_mmap_limiter ?env" False "env_fd_limiter ?env" 1 2 "[0, 0]" "[]"]
    by (simp add: c_str_def) (elim exE conjE, intro exI conjI, (assumption | simp)+)
qed

text \<open>
  The bound check of the map is \<open>offset + n > length_\<close> in 64 bits.  Without overflow it accepts exactly the
  reads within the map; an offset near \<open>2 ^ 64\<close> passes it and gives a slice outside of the map.
\<close>

lemma mmap_read_bounds:
  assumes "unat offset + unat n < 2 ^ 64"
  shows "Status_ok (fst (PosixMmapReadableFile_Read strerror f offset n)) \<longleftrightarrow> unat offset + unat n \<le> unat (mm_length f)"
  using assms unat_add_no_wrap [of offset n]
  by (auto simp: PosixMmapReadableFile_Read_def PosixError_def word_less_nat_alt)

lemma mmap_read_overflow:
  "\<exists>s. PosixMmapReadableFile_Read strerror \<lparr>mm_base = [7, 8], mm_length = 2, mm_filename = name\<rparr> (- 1) 3 = (Status_OK, s)
     \<and> \<not> slice_wf s"
  by (simp add: PosixMmapReadableFile_Read_def Slice_ptr_def slice_wf_def)

end
