(* ===== verification/File_Locks.thy ===== *)
theory File_Locks
  imports Posix_Fs
begin

text \<open>
  What \<open>LockFile\<close> and \<open>UnlockFile\<close> of \<open>PosixEnv\<close> promise the threads of one process, over any kernel: the
  locks that are out are for different names.
\<close>

section \<open>Clients of the lock table\<close>

text \<open>
  A sequence of calls from a fresh environment; the list holds the locks that were given out and not
  returned.  A lock is unlocked at most once, and stays with its owner when \<open>UnlockFile\<close> fails.
\<close>

inductive lock_run :: "'os env_sys \<Rightarrow> 'os PosixEnv \<Rightarrow> PosixFileLock list \<Rightarrow> bool"
  for k where
  fresh: "env_locks env = {} \<Longrightarrow> lock_run k env []"
| locked: "lock_run k env held \<Longrightarrow> PosixEnv_LockFile k env name = (s, Some l, env') \<Longrightarrow> lock_run k env' (l # held)"
| refused: "lock_run k env held \<Longrightarrow> PosixEnv_LockFile k env name = (s, None, env') \<Longrightarrow> lock_run k env' held"
| unlocked: "lock_run k env held \<Longrightarrow> l \<in> set held \<Longrightarrow> PosixEnv_UnlockFile k env l = (s, env') \<Longrightarrow> Status_ok s \<Longrightarrow>
    lock_run k env' (remove1 l held)"
| unlock_failed: "lock_run k env held \<Longrightarrow> l \<in> set held \<Longrightarrow> PosixEnv_UnlockFile k env l = (s, env') \<Longrightarrow> \<not> Status_ok s \<Longrightarrow>
    lock_run k env' held"
| other: "lock_run k env held \<Longrightarrow> lock_run k (env\<lparr>env_os := os\<rparr>) held"

lemmas lock_defs = PosixEnv_LockFile_def PosixEnv_UnlockFile_def PosixLockTable_Insert_def PosixLockTable_Remove_def

lemma PosixError_not_ok [simp]: "\<not> Status_ok (PosixError strerror context e)"
  by (simp add: PosixError_def)

lemma LockFile_cases:
  assumes "PosixEnv_LockFile k env name = (s, r, env')"
  shows "(case r of None \<Rightarrow> \<not> Status_ok s \<and> env_locks env' = env_locks env
      | Some l \<Rightarrow> Status_ok s \<and> fl_filename l = name \<and> name \<notin> env_locks env \<and> env_locks env' = insert name (env_locks env))"
  using assms by (auto simp: lock_defs split: prod.splits sysres.splits if_splits)

lemma UnlockFile_locks:
  assumes "PosixEnv_UnlockFile k env l = (s, env')"
  shows "env_locks env' = (if Status_ok s then env_locks env - {fl_filename l} else env_locks env)"
  using assms by (auto simp: lock_defs split: prod.splits sysres.splits)

lemma image_remove1:
  "distinct (map f xs) \<Longrightarrow> x \<in> set xs \<Longrightarrow> f ` set (remove1 x xs) = f ` set xs - {f x}"
  by (induction xs) (auto simp: image_iff)

lemma distinct_map_remove1: "distinct (map f xs) \<Longrightarrow> distinct (map f (remove1 x xs))"
  using set_remove1_subset [of x xs] by (auto simp: distinct_map intro: inj_on_subset)

lemma lock_run_inv: "lock_run k env held \<Longrightarrow> distinct (map fl_filename held) \<and> env_locks env = fl_filename ` set held"
proof (induction rule: lock_run.induct)
  case (locked env held name s l env')
  then show ?case using LockFile_cases [OF locked.hyps(2)] by auto
next
  case (refused env held name s env')
  then show ?case using LockFile_cases [OF refused.hyps(2)] by simp
next
  case (unlocked env held l s env')
  then show ?case using UnlockFile_locks [OF unlocked.hyps(3)] image_remove1 distinct_map_remove1 by metis
next
  case (unlock_failed env held l s env')
  then show ?case using UnlockFile_locks [OF unlock_failed.hyps(3)] by simp
qed simp_all

section \<open>Properties\<close>

text \<open>C16. File locks are exclusive within the process, over any kernel: after any sequence of calls the
  locks that are out have different names and are those of the lock table; \<open>LockFile\<close> of the name of
  a lock that is out fails without changing the table; and \<open>UnlockFile\<close> frees the name exactly if
  it reports success.\<close>

theorem file_locks_are_exclusive:
  assumes "lock_run k env held"
  shows "distinct (map fl_filename held) \<and> env_locks env = fl_filename ` set held
    \<and> (\<forall>l\<in>set held. \<exists>s env'. PosixEnv_LockFile k env (fl_filename l) = (s, None, env') \<and> \<not> Status_ok s
          \<and> env_locks env' = env_locks env)
    \<and> (\<forall>l\<in>set held. \<exists>s env'. PosixEnv_UnlockFile k env l = (s, env')
          \<and> (fl_filename l \<notin> env_locks env' \<longleftrightarrow> Status_ok s) \<and> (Status_ok s \<longrightarrow> lock_run k env' (remove1 l held)))"
proof -
  note inv = lock_run_inv [OF assms]
  have "\<exists>s env'. PosixEnv_LockFile k env (fl_filename l) = (s, None, env') \<and> \<not> Status_ok s \<and> env_locks env' = env_locks env"
    if "l \<in> set held" for l
  proof -
    obtain s r env' where r: "PosixEnv_LockFile k env (fl_filename l) = (s, r, env')" by (rule prod_cases3)
    have "fl_filename l \<in> env_locks env" using inv that by simp
    with LockFile_cases [OF r] r show ?thesis by (auto split: option.splits)
  qed
  moreover have "\<exists>s env'. PosixEnv_UnlockFile k env l = (s, env') \<and> (fl_filename l \<notin> env_locks env' \<longleftrightarrow> Status_ok s)
      \<and> (Status_ok s \<longrightarrow> lock_run k env' (remove1 l held))" if "l \<in> set held" for l
  proof -
    obtain s env' where r: "PosixEnv_UnlockFile k env l = (s, env')" by fastforce
    have "fl_filename l \<in> env_locks env" using inv that by simp
    with UnlockFile_locks [OF r] r lock_run.unlocked [OF assms that r] show ?thesis by auto
  qed
  ultimately show ?thesis using inv by blast
qed

theorem file_locks_are_exclusive_witness:
  "\<exists>env l s env'. lock_run memfs_sys env [l] \<and> fl_filename l = [97]
    \<and> PosixEnv_LockFile memfs_sys env [97] = (s, None, env') \<and> \<not> Status_ok s"
proof -
  let ?env = "\<lparr>env_os = \<lparr>fs_files = (\<lambda>_. None), fs_fds = (\<lambda>_. None), fs_next = 3\<rparr>,
      env_locks = {}, env_mmap_limiter = \<lparr>max_acquires = 0, acquires_allowed = 0\<rparr>,
      env_fd_limiter = \<lparr>max_acquires = 1, acquires_allowed = 1\<rparr>\<rparr>"
  let ?l = "\<lparr>fl_fd = 3, fl_filename = [97]\<rparr>"
  obtain env' where lock: "PosixEnv_LockFile memfs_sys ?env [97] = (Status_OK, Some ?l, env')"
    by (simp add: lock_defs memfs_sys_def memfs_open_def LockOrUnlock_def)
  have "lock_run memfs_sys ?env []" by (rule fresh) simp
  then have run: "lock_run memfs_sys env' [?l]" by (rule locked [OF _ lock])
  from file_locks_are_exclusive [OF run] run show ?thesis
    by (intro exI [of _ env'] exI [of _ ?l]) (simp, blast)
qed

text \<open>
  A failing second \<open>LockFile\<close> opens the file and closes it again.  POSIX drops every record lock of a process
  on a file when the process closes any descriptor of it: the lock that is out is then no longer held
  against other processes, although the lock table still has it.
\<close>

lemma second_lock_drops_record_lock:
  assumes "name \<in> env_locks env" "sys_open k (c_str name) ReadWriteCreate (env_os env) = (Ret fd, os)" "refers os fd (c_str name)"
    and "\<And>os fd p. refers os fd p \<Longrightarrow> \<not> record_lock (snd (sys_close k fd os)) p"
  shows "\<exists>s env'. PosixEnv_LockFile k env name = (s, None, env') \<and> name \<in> env_locks env'
    \<and> \<not> record_lock (env_os env') (c_str name)"
  using assms by (simp add: lock_defs)

end
