(* ===== verification/Env_Util.thy ===== *)
theory Env_Util
  imports Posix_Fs
begin

text \<open>
  The interface \<open>Env\<close> (\<open>env/env.h\<close>) as a record of operations on the state of an environment, the way a
  virtual call sees it; the defaults of the base class, the forwarding \<open>EnvWrapper\<close>, and the functions of
  \<open>env/env.cpp\<close> that work on any environment: writing a string to a file and reading it back.

  \<open>PosixEnv_Env\<close> is the environment of POSIX over the system calls \<open>k\<close>.
\<close>

section \<open>The interface\<close>

record ('e, 'w, 's, 'r, 'l) Env =
  NewSequentialFile :: "'e \<Rightarrow> bytes \<Rightarrow> Status \<times> 's option \<times> 'e"
  NewRandomAccessFile :: "'e \<Rightarrow> bytes \<Rightarrow> (Status \<times> 'r option \<times> 'e) option"
  NewWritableFile :: "'e \<Rightarrow> bytes \<Rightarrow> Status \<times> 'w option \<times> 'e"
  NewAppendableFile :: "'e \<Rightarrow> bytes \<Rightarrow> Status \<times> 'w option \<times> 'e"
  FileExists :: "'e \<Rightarrow> bytes \<Rightarrow> bool"
  GetChildren :: "'e \<Rightarrow> bytes \<Rightarrow> (Status \<times> bytes list \<times> 'e) option"
  RemoveFile :: "'e \<Rightarrow> bytes \<Rightarrow> Status \<times> 'e"
  CreateDir :: "'e \<Rightarrow> bytes \<Rightarrow> Status \<times> 'e"
  RemoveDir :: "'e \<Rightarrow> bytes \<Rightarrow> Status \<times> 'e"
  GetFileSize :: "'e \<Rightarrow> bytes \<Rightarrow> Status \<times> u64 \<times> 'e"
  RenameFile :: "'e \<Rightarrow> bytes \<Rightarrow> bytes \<Rightarrow> Status \<times> 'e"
  LockFile :: "'e \<Rightarrow> bytes \<Rightarrow> Status \<times> 'l option \<times> 'e"
  UnlockFile :: "'e \<Rightarrow> 'l \<Rightarrow> Status \<times> 'e"
  WritableFile_Append :: "'e \<Rightarrow> 'w \<Rightarrow> bytes \<Rightarrow> (Status \<times> 'w \<times> 'e) option"
  WritableFile_Sync :: "'e \<Rightarrow> 'w \<Rightarrow> (Status \<times> 'w \<times> 'e) option"
  WritableFile_Close :: "'e \<Rightarrow> 'w \<Rightarrow> (Status \<times> 'w \<times> 'e) option"
  WritableFile_delete :: "'e \<Rightarrow> 'w \<Rightarrow> 'e option"
  SequentialFile_Read :: "'e \<Rightarrow> 's \<Rightarrow> nat \<Rightarrow> bytes \<Rightarrow> (Status \<times> slice \<times> 's \<times> 'e) option"
  SequentialFile_delete :: "'e \<Rightarrow> 's \<Rightarrow> 'e"

subsection \<open>The base class\<close>

definition Env_NewAppendableFile :: "'e \<Rightarrow> bytes \<Rightarrow> Status \<times> 'w option \<times> 'e" where
  "Env_NewAppendableFile env fname = (Status_NotSupported (str ''NewAppendableFile'') fname, None, env)"

text \<open>
  \<open>RemoveFile\<close> and \<open>DeleteFile\<close> of the base class call each other, and so do \<open>RemoveDir\<close> and \<open>DeleteDir\<close>: a class
  overrides the one or the other.  The arguments are the overriders; the flag says whether the call is of
  the deprecated name.
\<close>

partial_function (option) Env_remove ::
  "('e \<Rightarrow> bytes \<Rightarrow> 'r) option \<Rightarrow> ('e \<Rightarrow> bytes \<Rightarrow> 'r) option \<Rightarrow> bool \<Rightarrow> 'e \<Rightarrow> bytes \<Rightarrow> 'r option" where
  "Env_remove ovRemove ovDelete deprecated env name =
     (case (if deprecated then ovDelete else ovRemove) of
        Some f \<Rightarrow> Some (f env name)
      | None \<Rightarrow> Env_remove ovRemove ovDelete (\<not> deprecated) env name)"

lemma Env_remove_overridden:
  "Env_remove (Some f) ovDelete False env name = Some (f env name)"
  "Env_remove (Some f) None True env name = Some (f env name)"
  "Env_remove None (Some g) False env name = Some (g env name)"
  by (subst Env_remove.simps, simp add: Env_remove.simps)+

subsection \<open>Forwarding\<close>

definition EnvWrapper :: "('e, 'w, 's, 'r, 'l) Env \<Rightarrow> ('e, 'w, 's, 'r, 'l) Env" where
  "EnvWrapper target =
     \<lparr>NewSequentialFile = (\<lambda>env fname. NewSequentialFile target env fname),
      NewRandomAccessFile = (\<lambda>env fname. NewRandomAccessFile target env fname),
      NewWritableFile = (\<lambda>env fname. NewWritableFile target env fname),
      NewAppendableFile = (\<lambda>env fname. NewAppendableFile target env fname),
      FileExists = (\<lambda>env fname. FileExists target env fname),
      GetChildren = (\<lambda>env dir. GetChildren target env dir),
      RemoveFile = (\<lambda>env fname. RemoveFile target env fname),
      CreateDir = (\<lambda>env dirname. CreateDir target env dirname),
      RemoveDir = (\<lambda>env dirname. RemoveDir target env dirname),
      GetFileSize = (\<lambda>env fname. GetFileSize target env fname),
      RenameFile = (\<lambda>env from_name to_name. RenameFile target env from_name to_name),
      LockFile = (\<lambda>env fname. LockFile target env fname),
      UnlockFile = (\<lambda>env lock. UnlockFile target env lock),
      WritableFile_Append = WritableFile_Append target, WritableFile_Sync = WritableFile_Sync target,
      WritableFile_Close = WritableFile_Close target, WritableFile_delete = WritableFile_delete target,
      SequentialFile_Read = SequentialFile_Read target, SequentialFile_delete = SequentialFile_delete target\<rparr>"

lemma EnvWrapper_transparent: "EnvWrapper target = target"
  by (simp add: EnvWrapper_def)

section \<open>Files and strings\<close>

text \<open>A null pointer from \<open>NewWritableFile\<close> with an OK status would be dereferenced: \<open>None\<close>.\<close>

definition DoWriteStringToFile ::
  "('e, 'w, 's, 'r, 'l) Env \<Rightarrow> 'e \<Rightarrow> bytes \<Rightarrow> bytes \<Rightarrow> bool \<Rightarrow> (Status \<times> 'e) option" where
  "DoWriteStringToFile v env data fname should_sync =
     (let (s, file, env) = NewWritableFile v env fname in
      if \<not> Status_ok s then Some (s, env)
      else
        case file of
          None \<Rightarrow> None
        | Some file \<Rightarrow>
            do {
              (s, file, env) \<leftarrow> WritableFile_Append v env file data;
              (s, file, env) \<leftarrow> (if Status_ok s \<and> should_sync then WritableFile_Sync v env file else Some (s, file, env));
              (s, file, env) \<leftarrow> (if Status_ok s then WritableFile_Close v env file else Some (s, file, env));
              env \<leftarrow> WritableFile_delete v env file;
              if \<not> Status_ok s then Some (s, snd (RemoveFile v env fname)) else Some (s, env)
            })"

text \<open>Both callers fix the flag, whatever their own \<open>should_sync\<close> is.\<close>

definition WriteStringToFile ::
  "('e, 'w, 's, 'r, 'l) Env \<Rightarrow> 'e \<Rightarrow> bytes \<Rightarrow> bytes \<Rightarrow> bool \<Rightarrow> (Status \<times> 'e) option" where
  "WriteStringToFile v env data fname should_sync = DoWriteStringToFile v env data fname False"

definition WriteStringToFileSync ::
  "('e, 'w, 's, 'r, 'l) Env \<Rightarrow> 'e \<Rightarrow> bytes \<Rightarrow> bytes \<Rightarrow> bool \<Rightarrow> (Status \<times> 'e) option" where
  "WriteStringToFileSync v env data fname should_sync = DoWriteStringToFile v env data fname True"

definition kBufferSize :: nat where
  "kBufferSize = 8192"

partial_function (option) ReadFileToString_loop ::
  "('e, 'w, 's, 'r, 'l) Env \<Rightarrow> bytes \<Rightarrow> 's \<Rightarrow> bytes \<Rightarrow> 'e \<Rightarrow> (Status \<times> 's \<times> bytes \<times> 'e) option" where
  "ReadFileToString_loop v space file data env =
     do {
       (s, fragment, file, env) \<leftarrow> SequentialFile_Read v env file kBufferSize space;
       if \<not> Status_ok s then Some (s, file, data, env)
       else
         let data = data @ slice_ToString fragment in
         if slice_empty fragment then Some (s, file, data, env)
         else ReadFileToString_loop v space file data env
     }"

definition ReadFileToString ::
  "('e, 'w, 's, 'r, 'l) Env \<Rightarrow> bytes \<Rightarrow> 'e \<Rightarrow> bytes \<Rightarrow> (Status \<times> bytes \<times> 'e) option" where
  "ReadFileToString v space env fname =
     (let (s, file, env) = NewSequentialFile v env fname in
      if \<not> Status_ok s then Some (s, [], env)
      else
        case file of
          None \<Rightarrow> None
        | Some file \<Rightarrow>
            do {
              (s, file, data, env) \<leftarrow> ReadFileToString_loop v space file [] env;
              Some (s, data, SequentialFile_delete v env file)
            })"

section \<open>The environment of POSIX\<close>

text \<open>A file object works on the kernel state of the environment.\<close>

definition on_writefile ::
  "('os writefile \<Rightarrow> (Status \<times> 'os writefile) option) \<Rightarrow> 'os PosixEnv \<Rightarrow> 'os writefile
    \<Rightarrow> (Status \<times> 'os writefile \<times> 'os PosixEnv) option" where
  "on_writefile op env f =
     do { (s, f) \<leftarrow> op (f\<lparr>wf_os := env_os env\<rparr>); Some (s, f, env\<lparr>env_os := wf_os f\<rparr>) }"

definition PosixWritableFile_delete :: "'os env_sys \<Rightarrow> 'os PosixEnv \<Rightarrow> 'os writefile \<Rightarrow> 'os PosixEnv option" where
  "PosixWritableFile_delete k env f =
     (if wf_fd f \<ge> 0
      then map_option (\<lambda>(s, f, env). env) (on_writefile (PosixWritableFile_Close (base_sys k)) env f) else Some env)"

definition PosixSequentialFile_delete :: "'os env_sys \<Rightarrow> 'os PosixEnv \<Rightarrow> 'os seqfile \<Rightarrow> 'os PosixEnv" where
  "PosixSequentialFile_delete k env f = env\<lparr>env_os := snd (sys_close k (sf_fd f) (env_os env))\<rparr>"

definition PosixEnv_Env ::
  "'os env_sys \<Rightarrow> (bytes \<Rightarrow> bytes) \<Rightarrow> bytes \<Rightarrow>
    ('os PosixEnv, 'os writefile, 'os seqfile, RandomAccessFile, PosixFileLock) Env" where
  "PosixEnv_Env k moved self_moved =
     \<lparr>NewSequentialFile = PosixEnv_NewSequentialFile k,
      NewRandomAccessFile = PosixEnv_NewRandomAccessFile k self_moved,
      NewWritableFile = PosixEnv_NewWritableFile k moved,
      NewAppendableFile = PosixEnv_NewAppendableFile k moved,
      FileExists = PosixEnv_FileExists k,
      GetChildren = PosixEnv_GetChildren k,
      RemoveFile = PosixEnv_RemoveFile k,
      CreateDir = PosixEnv_CreateDir k,
      RemoveDir = PosixEnv_RemoveDir k,
      GetFileSize = PosixEnv_GetFileSize k,
      RenameFile = PosixEnv_RenameFile k,
      LockFile = PosixEnv_LockFile k,
      UnlockFile = PosixEnv_UnlockFile k,
      WritableFile_Append = (\<lambda>env f data. on_writefile (\<lambda>f. PosixWritableFile_Append (base_sys k) f data) env f),
      WritableFile_Sync = on_writefile (PosixWritableFile_Sync (base_sys k)),
      WritableFile_Close = on_writefile (PosixWritableFile_Close (base_sys k)),
      WritableFile_delete = PosixWritableFile_delete k,
      SequentialFile_Read = (\<lambda>env f n scratch.
        do { (s, r, f) \<leftarrow> PosixSequentialFile_Read (base_sys k) (f\<lparr>sf_os := env_os env\<rparr>) n scratch;
             Some (s, r, f, env\<lparr>env_os := sf_os f\<rparr>) }),
      SequentialFile_delete = PosixSequentialFile_delete k\<rparr>"

lemma wf_os_same [simp]: "f\<lparr>wf_os := wf_os f\<rparr> = f"
  by simp

lemma PosixEnv_Env_simps [simp]:
  "NewSequentialFile (PosixEnv_Env k moved sm) = PosixEnv_NewSequentialFile k"
  "NewWritableFile (PosixEnv_Env k moved sm) = PosixEnv_NewWritableFile k moved"
  "WritableFile_Append (PosixEnv_Env k moved sm) env f data = on_writefile (\<lambda>f. PosixWritableFile_Append (base_sys k) f data) env f"
  "WritableFile_Sync (PosixEnv_Env k moved sm) = on_writefile (PosixWritableFile_Sync (base_sys k))"
  "WritableFile_Close (PosixEnv_Env k moved sm) = on_writefile (PosixWritableFile_Close (base_sys k))"
  "WritableFile_delete (PosixEnv_Env k moved sm) = PosixWritableFile_delete k"
  "SequentialFile_Read (PosixEnv_Env k moved sm) env f' n scratch =
     do { (s, r, f') \<leftarrow> PosixSequentialFile_Read (base_sys k) (f'\<lparr>sf_os := env_os env\<rparr>) n scratch;
          Some (s, r, f', env\<lparr>env_os := sf_os f'\<rparr>) }"
  "SequentialFile_delete (PosixEnv_Env k moved sm) = PosixSequentialFile_delete k"
  by (simp_all add: PosixEnv_Env_def)

section \<open>Writing on a working file system\<close>

text \<open>
  The file is open for the path \<open>p\<close>; written and buffered bytes together are \<open>c\<close>.  \<open>F\<close> and \<open>T\<close> are the files
  and the descriptors before it was opened.
\<close>

definition writing ::
  "('os \<Rightarrow> bool) \<Rightarrow> ('os \<Rightarrow> bytes \<Rightarrow> bytes option) \<Rightarrow> ('os \<Rightarrow> int \<Rightarrow> (bytes \<times> nat) option) \<Rightarrow>
    (bytes \<Rightarrow> bytes option) \<Rightarrow> (int \<Rightarrow> (bytes \<times> nat) option) \<Rightarrow> bytes \<Rightarrow> 'os writefile \<Rightarrow> bytes \<Rightarrow> bool" where
  "writing ok fil fds F T p f c \<longleftrightarrow>
     ok (wf_os f) \<and> wf_fd f \<ge> 0 \<and> T (wf_fd f) = None \<and> wf_pos f \<le> kWritableFileBufferSize
     \<and> (\<exists>w. c = w @ wf_buf f \<and> fil (wf_os f) = F(p \<mapsto> w) \<and> fds (wf_os f) = T(wf_fd f \<mapsto> (p, length w)))"

context posix_fs
begin

lemma WriteUnbuffered_writes:
  assumes "ok (wf_os f)" "fil (wf_os f) = F(p \<mapsto> w)" "fds (wf_os f) = T(wf_fd f \<mapsto> (p, length w))" "length w + length d < 2 ^ 63"
  shows "\<exists>os'. WriteUnbuffered (base_sys k) f d = Some (Status_OK, f\<lparr>wf_os := os'\<rparr>)
    \<and> ok os' \<and> fil os' = F(p \<mapsto> w @ d) \<and> fds os' = T(wf_fd f \<mapsto> (p, length (w @ d)))"
  using assms
proof (induction d arbitrary: f w rule: length_induct)
  case (1 d)
  show ?case
  proof (cases "d = []")
    case True
    with "1.prems" show ?thesis by (intro exI [of _ "wf_os f"]) (simp add: WriteUnbuffered.simps)
  next
    case False
    obtain n os1 where n: "sys_write k (wf_fd f) d (wf_os f) = (Ret n, os1)" "0 < n" "n \<le> length d" "ok os1"
        "fil os1 = (fil (wf_os f))(p \<mapsto> w @ take n d)" "fds os1 = (fds (wf_os f))(wf_fd f \<mapsto> (p, length w + n))"
      using write_some [OF "1.prems"(1), of p w "wf_fd f" d] "1.prems"(2-4) False by auto
    have fil1: "fil os1 = F(p \<mapsto> w @ take n d)" and fds1: "fds os1 = T(wf_fd f \<mapsto> (p, length w + n))"
      using n(5,6) unfolding "1.prems"(2,3) by simp_all
    let ?f = "f\<lparr>wf_os := os1\<rparr>"
    have "length (drop n d) < length d" using n(2,3) False by simp
    then have "\<exists>os'. WriteUnbuffered (base_sys k) ?f (drop n d) = Some (Status_OK, ?f\<lparr>wf_os := os'\<rparr>)
        \<and> ok os' \<and> fil os' = F(p \<mapsto> (w @ take n d) @ drop n d) \<and> fds os' = T(wf_fd ?f \<mapsto> (p, length ((w @ take n d) @ drop n d)))"
      using fil1 fds1 n(2-4) "1.prems"(4) by (intro "1.IH" [rule_format]) simp_all
    then show ?thesis using n(1) False by (simp add: WriteUnbuffered.simps [of "base_sys k" f d] fun_upd_def)
  qed
qed

lemma FlushBuffer_writes:
  assumes "writing ok fil fds F T p f c" "length c < 2 ^ 63"
  shows "\<exists>os'. FlushBuffer (base_sys k) f = Some (Status_OK, f\<lparr>wf_os := os', wf_buf := []\<rparr>)
    \<and> ok os' \<and> fil os' = F(p \<mapsto> c) \<and> fds os' = T(wf_fd f \<mapsto> (p, length c))"
proof -
  obtain w where "c = w @ wf_buf f" "ok (wf_os f)" "fil (wf_os f) = F(p \<mapsto> w)" "fds (wf_os f) = T(wf_fd f \<mapsto> (p, length w))"
    using assms(1) by (auto simp: writing_def)
  with WriteUnbuffered_writes [of f F p w T "wf_buf f"] assms(2) show ?thesis by (auto simp: FlushBuffer_def)
qed

lemma Append_writes:
  assumes "writing ok fil fds F T p f c" "length c + length d < 2 ^ 63"
  shows "\<exists>f'. PosixWritableFile_Append (base_sys k) f d = Some (Status_OK, f') \<and> writing ok fil fds F T p f' (c @ d)
    \<and> wf_is_manifest f' = wf_is_manifest f"
proof -
  define n where "n = min (length d) (kWritableFileBufferSize - wf_pos f)"
  let ?f = "f\<lparr>wf_buf := wf_buf f @ take n d\<rparr>"
  have pos: "wf_pos f \<le> kWritableFileBufferSize" using assms(1) by (simp add: writing_def)
  have f: "writing ok fil fds F T p ?f (c @ take n d)"
    using assms(1) pos unfolding writing_def by (auto simp: n_def)
  show ?thesis
  proof (cases "drop n d = []")
    case True
    then have "take n d = d" by simp
    with f True show ?thesis
      unfolding PosixWritableFile_Append_def n_def [symmetric] Let_def by (intro exI [of _ ?f]) simp
  next
    case False
    have short: "length (c @ take n d) < 2 ^ 63" using assms(2) by simp
    obtain os1 where 1: "FlushBuffer (base_sys k) ?f = Some (Status_OK, ?f\<lparr>wf_os := os1, wf_buf := []\<rparr>)" "ok os1"
        "fil os1 = F(p \<mapsto> c @ take n d)" "fds os1 = T(wf_fd ?f \<mapsto> (p, length (c @ take n d)))"
      using FlushBuffer_writes [OF f short] by auto
    let ?g = "f\<lparr>wf_os := os1, wf_buf := []\<rparr>"
    have step: "PosixWritableFile_Append (base_sys k) f d =
        (if length (drop n d) < kWritableFileBufferSize then Some (Status_OK, ?g\<lparr>wf_buf := drop n d\<rparr>)
         else WriteUnbuffered (base_sys k) ?g (drop n d))"
      using 1(1) False unfolding PosixWritableFile_Append_def n_def [symmetric] Let_def by simp
    show ?thesis
    proof (cases "length (drop n d) < kWritableFileBufferSize")
      case True
      then have "writing ok fil fds F T p (?g\<lparr>wf_buf := drop n d\<rparr>) (c @ d)"
        using 1(2-4) f unfolding writing_def by (auto intro!: exI [of _ "c @ take n d"])
      with True show ?thesis unfolding step by (intro exI [of _ "?g\<lparr>wf_buf := drop n d\<rparr>"]) simp
    next
      case False
      have "length (c @ take n d) + length (drop n d) < 2 ^ 63" using assms(2) by simp
      then obtain os2 where 2: "WriteUnbuffered (base_sys k) ?g (drop n d) = Some (Status_OK, ?g\<lparr>wf_os := os2\<rparr>)" "ok os2"
          "fil os2 = F(p \<mapsto> (c @ take n d) @ drop n d)" "fds os2 = T(wf_fd ?g \<mapsto> (p, length ((c @ take n d) @ drop n d)))"
        using WriteUnbuffered_writes [of ?g F p "c @ take n d" T "drop n d"] 1 by auto
      have "writing ok fil fds F T p (?g\<lparr>wf_os := os2\<rparr>) (c @ d)"
        using 2(2-4) f by (simp add: writing_def)
      with 2(1) False show ?thesis unfolding step by (intro exI [of _ "?g\<lparr>wf_os := os2\<rparr>"]) simp
    qed
  qed
qed

lemma Close_writes:
  assumes "writing ok fil fds F T p f c" "length c < 2 ^ 63"
  shows "\<exists>f'. PosixWritableFile_Close (base_sys k) f = Some (Status_OK, f') \<and> wf_fd f' = -1
    \<and> ok (wf_os f') \<and> fil (wf_os f') = F(p \<mapsto> c) \<and> fds (wf_os f') = T"
proof -
  obtain os1 where 1: "FlushBuffer (base_sys k) f = Some (Status_OK, f\<lparr>wf_os := os1, wf_buf := []\<rparr>)" "ok os1"
      "fil os1 = F(p \<mapsto> c)" "fds os1 = T(wf_fd f \<mapsto> (p, length c))"
    using FlushBuffer_writes [OF assms] by blast
  obtain os2 where "sys_close k (wf_fd f) os1 = (Ret (), os2)" "fil os2 = fil os1" "fds os2 = (fds os1)(wf_fd f := None)" "ok os2"
    using close_fd [OF 1(2), of "wf_fd f"] 1(4) by auto
  moreover have "T (wf_fd f) = None" using assms(1) by (simp add: writing_def)
  ultimately show ?thesis using 1 by (auto simp: PosixWritableFile_Close_def)
qed

lemma Sync_writes:
  assumes "writing ok fil fds F T p f c" "length c < 2 ^ 63" "\<not> wf_is_manifest f"
  shows "\<exists>f'. PosixWritableFile_Sync (base_sys k) f = Some (Status_OK, f') \<and> writing ok fil fds F T p f' c"
proof -
  obtain os1 where 1: "FlushBuffer (base_sys k) f = Some (Status_OK, f\<lparr>wf_os := os1, wf_buf := []\<rparr>)" "ok os1"
      "fil os1 = F(p \<mapsto> c)" "fds os1 = T(wf_fd f \<mapsto> (p, length c))"
    using FlushBuffer_writes [OF assms(1,2)] by blast
  obtain os2 where "sys_sync k (wf_fd f) os1 = (Ret (), os2)" "fil os2 = fil os1" "fds os2 = fds os1" "ok os2"
    using sync_fd [OF 1(2), of "wf_fd f"] 1(4) by auto
  with 1 assms(1,3) show ?thesis
    by (auto simp: PosixWritableFile_Sync_def SyncDirIfManifest_def SyncFd_def writing_def)
qed

lemma DoWrite_ok:
  assumes "ok (env_os env)" "c_str fname = fname" "length data < 2 ^ 63" "should_sync \<longrightarrow> \<not> IsManifest fname"
  shows "\<exists>os'. DoWriteStringToFile (PosixEnv_Env k moved sm) env data fname should_sync = Some (Status_OK, env\<lparr>env_os := os'\<rparr>)
    \<and> ok os' \<and> fil os' = (fil (env_os env))(fname \<mapsto> data) \<and> fds os' = fds (env_os env)"
proof -
  let ?F = "fil (env_os env)" and ?T = "fds (env_os env)" and ?v = "PosixEnv_Env k moved sm"
  obtain fd os1 where 1: "sys_open k fname TruncWriteCreate (env_os env) = (Ret fd, os1)" "fd \<ge> 0" "?T fd = None"
      "fds os1 = ?T(fd \<mapsto> (fname, 0))" "fil os1 = ?F(fname \<mapsto> [])" "ok os1"
    using open_trunc [OF assms(1)] by blast
  let ?f = "PosixWritableFile_new moved fname fd os1"
  have f: "writing ok fil fds ?F ?T fname ?f []" "wf_is_manifest ?f = IsManifest fname"
    using 1 by (simp_all add: writing_def PosixWritableFile_new_def)
  have same: "?f\<lparr>wf_os := os1\<rparr> = ?f" by (simp add: PosixWritableFile_new_def)
  have "length ([] :: bytes) + length data < 2 ^ 63" using assms(3) by simp
  then obtain f2 where 2: "PosixWritableFile_Append (base_sys k) ?f data = Some (Status_OK, f2)"
      "writing ok fil fds ?F ?T fname f2 data" "wf_is_manifest f2 = IsManifest fname"
    using Append_writes [OF f(1), of data] f(2) by auto
  obtain f3 where 3: "(if should_sync then PosixWritableFile_Sync (base_sys k) f2 else Some (Status_OK, f2)) = Some (Status_OK, f3)"
      "writing ok fil fds ?F ?T fname f3 data"
    using Sync_writes [OF 2(2) assms(3)] 2 assms(4) by (cases should_sync) auto
  obtain f4 where 4: "PosixWritableFile_Close (base_sys k) f3 = Some (Status_OK, f4)" "wf_fd f4 = -1"
      "ok (wf_os f4)" "fil (wf_os f4) = ?F(fname \<mapsto> data)" "fds (wf_os f4) = ?T"
    using Close_writes [OF 3(2) assms(3)] by blast
  have "DoWriteStringToFile ?v env data fname should_sync = Some (Status_OK, env\<lparr>env_os := wf_os f4\<rparr>)"
    using 1(1) same 2(1) 3(1) 4(1,2) assms(2)
    by (cases should_sync)
      (simp_all add: DoWriteStringToFile_def PosixEnv_NewWritableFile_def on_writefile_def PosixWritableFile_delete_def)
  with 4 show ?thesis by blast
qed

lemma read_loop_ok:
  assumes "ok (env_os env)" "fil (env_os env) p = Some c" "fds (env_os env) (sf_fd f) = Some (p, i)" "kBufferSize \<le> length space"
  shows "\<exists>f' os'. ReadFileToString_loop (PosixEnv_Env k moved sm) space f data env
      = Some (Status_OK, f', data @ drop i c, env\<lparr>env_os := os'\<rparr>)
    \<and> sf_fd f' = sf_fd f \<and> ok os' \<and> fil os' = fil (env_os env)
    \<and> (\<exists>j. fds os' = (fds (env_os env))(sf_fd f \<mapsto> (p, j)))"
  using assms(1-3)
proof (induction "length c - i" arbitrary: env f i data rule: less_induct)
  case less
  let ?v = "PosixEnv_Env k moved sm" and ?d = "take kBufferSize (drop i c)"
  obtain os1 where 1: "sys_read k (sf_fd f) kBufferSize (env_os env) = (Ret ?d, os1)" "fil os1 = fil (env_os env)"
      "fds os1 = (fds (env_os env))(sf_fd f \<mapsto> (p, i + length ?d))" "ok os1"
    using read_some [OF less.prems] by blast
  let ?f = "f\<lparr>sf_os := os1\<rparr>" and ?s = "Slice_ptr (write_at 0 ?d space) (length ?d)" and ?env = "env\<lparr>env_os := os1\<rparr>"
  have s: "slice_ToString ?s = ?d" "slice_empty ?s \<longleftrightarrow> length c \<le> i"
    using assms(4) by (simp_all add: Slice_ptr_def slice_ToString_def slice_empty_def write_at_def kBufferSize_def min_def) auto
  have step: "ReadFileToString_loop ?v space f data env =
      (if length c \<le> i then Some (Status_OK, ?f, data @ ?d, ?env) else ReadFileToString_loop ?v space ?f (data @ ?d) ?env)"
    using 1(1) s by (subst ReadFileToString_loop.simps) (simp add: PosixSequentialFile_Read.simps)
  show ?case
  proof (cases "length c \<le> i")
    case True
    with step 1(2-4) show ?thesis by (intro exI [of _ ?f] exI [of _ os1]) auto
  next
    case False
    have shorter: "length c - (i + length ?d) < length c - i" using False by (simp add: kBufferSize_def)
    have prems: "ok (env_os ?env)" "fil (env_os ?env) p = Some c" "fds (env_os ?env) (sf_fd ?f) = Some (p, i + length ?d)"
      using 1(2-4) less.prems(2) by simp_all
    have "drop i c = ?d @ drop (i + length ?d) c"
      using append_take_drop_id [of kBufferSize "drop i c"] by (auto simp: min_def add.commute)
    with less.hyps [OF shorter prems, of "data @ ?d"] step False 1(2,3) show ?thesis by fastforce
  qed
qed

lemma ReadFile_ok:
  assumes "ok (env_os env)" "fil (env_os env) fname = Some c" "c_str fname = fname" "kBufferSize \<le> length space"
  shows "\<exists>os'. ReadFileToString (PosixEnv_Env k moved sm) space env fname = Some (Status_OK, c, env\<lparr>env_os := os'\<rparr>)
    \<and> ok os' \<and> fil os' = fil (env_os env) \<and> fds os' = fds (env_os env)"
proof -
  obtain fd os1 where 1: "sys_open k fname ReadOnly (env_os env) = (Ret fd, os1)" "fds (env_os env) fd = None"
      "fds os1 = (fds (env_os env))(fd \<mapsto> (fname, 0))" "fil os1 = fil (env_os env)" "ok os1"
    using open_read [OF assms(1,2)] by blast
  let ?f = "\<lparr>sf_fd = fd, sf_filename = fname, sf_os = os1\<rparr>" and ?env = "env\<lparr>env_os := os1\<rparr>"
  obtain f' os2 j where 2: "ReadFileToString_loop (PosixEnv_Env k moved sm) space ?f [] ?env = Some (Status_OK, f', c, env\<lparr>env_os := os2\<rparr>)"
      "sf_fd f' = fd" "ok os2" "fil os2 = fil os1" "fds os2 = (fds os1)(fd \<mapsto> (fname, j))"
    using read_loop_ok [of ?env fname c ?f 0 space moved sm "[]"] 1 assms(2,4) by auto
  obtain os3 where 3: "sys_close k fd os2 = (Ret (), os3)" "fil os3 = fil os2" "fds os3 = (fds os2)(fd := None)" "ok os3"
    using close_fd [OF 2(3), of fd] 2(5) by auto
  have "fds os3 = fds (env_os env)" using 1(2,3) 2(5) 3(3) by auto
  moreover have "ReadFileToString (PosixEnv_Env k moved sm) space env fname = Some (Status_OK, c, env\<lparr>env_os := os3\<rparr>)"
    using 1(1) 2(1,2) 3(1) assms(3)
    by (simp add: ReadFileToString_def PosixEnv_NewSequentialFile_def PosixSequentialFile_delete_def)
  ultimately show ?thesis using 1(4) 2(4) 3(2,4) by (intro exI [of _ os3]) simp
qed

end

section \<open>Properties\<close>

text \<open>C9. What \<open>WriteStringToFile\<close> writes, \<open>ReadFileToString\<close> reads back.  On a working file system
  both functions return and succeed, with or without \<open>Sync\<close> (for a file that is not a manifest), for contents
  of any size below \<open>2 ^ 63\<close> and whatever the file held before; all other files keep their contents and
  every descriptor that was opened is closed again.\<close>

theorem string_file_roundtrip:
  assumes "posix_fs k ok fil fds" and "ok (env_os env)" and "c_str fname = fname" and "length data < 2 ^ 63"
    and "should_sync \<longrightarrow> \<not> IsManifest fname" and "kBufferSize \<le> length space"
  shows "\<exists>env1 env2. DoWriteStringToFile (PosixEnv_Env k moved sm) env data fname should_sync = Some (Status_OK, env1)
    \<and> ReadFileToString (PosixEnv_Env k moved sm) space env1 fname = Some (Status_OK, data, env2)
    \<and> fil (env_os env2) = (fil (env_os env))(fname \<mapsto> data) \<and> fds (env_os env2) = fds (env_os env)"
proof -
  obtain os1 where 1: "DoWriteStringToFile (PosixEnv_Env k moved sm) env data fname should_sync = Some (Status_OK, env\<lparr>env_os := os1\<rparr>)"
      "ok os1" "fil os1 = (fil (env_os env))(fname \<mapsto> data)" "fds os1 = fds (env_os env)"
    using posix_fs.DoWrite_ok [OF assms(1-5)] by blast
  have "ok (env_os (env\<lparr>env_os := os1\<rparr>))" "fil (env_os (env\<lparr>env_os := os1\<rparr>)) fname = Some data"
    using 1(2,3) by simp_all
  from posix_fs.ReadFile_ok [OF assms(1) this assms(3,6), of moved sm] 1 show ?thesis by fastforce
qed

theorem string_file_roundtrip_witness:
  "\<exists>env1 env2. DoWriteStringToFile (PosixEnv_Env memfs_sys (\<lambda>_. []) [])
      \<lparr>env_os = \<lparr>fs_files = (\<lambda>_. None), fs_fds = (\<lambda>_. None), fs_next = 3\<rparr>, env_locks = {},
       env_mmap_limiter = \<lparr>max_acquires = 0, acquires_allowed = 0\<rparr>, env_fd_limiter = \<lparr>max_acquires = 1, acquires_allowed = 1\<rparr>\<rparr>
      [1, 2, 3] [97] True = Some (Status_OK, env1)
    \<and> ReadFileToString (PosixEnv_Env memfs_sys (\<lambda>_. []) []) (replicate kBufferSize 0) env1 [97] = Some (Status_OK, [1, 2, 3], env2)"
proof -
  let ?env = "\<lparr>env_os = \<lparr>fs_files = (\<lambda>_. None), fs_fds = (\<lambda>_. None), fs_next = 3\<rparr>, env_locks = {},
       env_mmap_limiter = \<lparr>max_acquires = 0, acquires_allowed = 0\<rparr>, env_fd_limiter = \<lparr>max_acquires = 1, acquires_allowed = 1\<rparr>\<rparr>"
  have "memfs_ok (env_os ?env)" "c_str [97] = [97]" "\<not> IsManifest [97]"
    by (simp_all add: memfs_ok_def c_str_def) (code_simp)
  with string_file_roundtrip [OF memfs.posix_fs_axioms, of ?env "[97]" "[1, 2, 3]" True "replicate kBufferSize 0" "\<lambda>_. []" "[]"]
  show ?thesis by auto
qed

end
