(* ===== verification/Posix_Logger.thy ===== *)
theory Posix_Logger
  imports Logging "HOL-Library.Monad_Syntax"
begin

text \<open>
  \<open>PosixLogger::Logv\<close> of \<open>log/posix_logger.h\<close>: one line of the information log, formatted first into a buffer
  on the stack and, when it does not fit, into one that is allocated for it.

  The text that the format and its arguments produce is an argument, \<open>msg\<close>, as are the time and the
  number of the thread; the buffers are lists of bytes of their size with any contents.  Sizes and offsets are
  \<open>int32_t\<close> values.  A failing assertion, an overflow of such a value and an access before the buffer are \<open>None\<close>.
\<close>

section \<open>Definitions\<close>

definition kMaxThreadIdSize :: nat where
  "kMaxThreadIdSize = 32"

definition kStackBufferSize :: nat where
  "kStackBufferSize = 512"

text \<open>The fields of \<open>localtime_r\<close>, none of them negative, and the microseconds.\<close>

record log_time =
  tm_year :: nat
  tm_mon :: nat
  tm_mday :: nat
  tm_hour :: nat
  tm_min :: nat
  tm_sec :: nat
  tv_usec :: nat

text \<open>\<open>%0<w>d\<close>\<close>

definition pad0 :: "nat \<Rightarrow> nat \<Rightarrow> bytes" where
  "pad0 w n = (let d = decimal n in replicate (w - length d) 48 @ d)"

text \<open>\<open>%04d/%02d/%02d-%02d:%02d:%02d.%06d %s \<close> with a space at the end.\<close>

definition log_header :: "log_time \<Rightarrow> bytes \<Rightarrow> bytes" where
  "log_header t thread_id =
     pad0 4 (tm_year t + 1900) @ [47] @ pad0 2 (tm_mon t + 1) @ [47] @ pad0 2 (tm_mday t) @ [45]
     @ pad0 2 (tm_hour t) @ [58] @ pad0 2 (tm_min t) @ [58] @ pad0 2 (tm_sec t) @ [46]
     @ pad0 6 (tv_usec t) @ [32] @ thread_id @ [32]"

text \<open>The sum or difference of two \<open>int32_t\<close> values: an overflow is undefined behaviour.\<close>

definition int32 :: "int \<Rightarrow> int option" where
  "int32 n = (if - (2 ^ 31) \<le> n \<and> n < 2 ^ 31 then Some n else None)"

text \<open>
  \<open>snprintf (buffer + offset, sz, ...)\<close>: at most \<open>sz - 1\<close> characters and a NUL are written, and the length of
  the whole text is returned, or a negative value when that is no \<open>int\<close>.
\<close>

definition snprintf_at :: "bytes \<Rightarrow> int \<Rightarrow> int \<Rightarrow> bytes \<Rightarrow> bytes \<times> int" where
  "snprintf_at buffer offset sz txt =
     ((if sz = 0 then buffer else write_at (nat offset) (take (nat sz - 1) txt @ [0]) buffer),
      (if length txt < 2 ^ 31 then int (length txt) else -1))"

text \<open>One turn of the loop: the size needed, or what is written to the file.\<close>

definition Logv_iteration :: "int \<Rightarrow> bytes \<Rightarrow> bytes \<Rightarrow> bytes \<Rightarrow> (int + bytes) option" where
  "Logv_iteration buffer_size buffer header msg =
     (let (buffer, buffer_offset) = snprintf_at buffer 0 buffer_size header in
      if \<not> buffer_offset \<le> 28 + int kMaxThreadIdSize then None
      else if \<not> buffer_offset < buffer_size then None
      else
        let (buffer, n) = snprintf_at buffer buffer_offset (buffer_size - buffer_offset) msg in
        do {
          buffer_offset \<leftarrow> int32 (buffer_offset + n);
          if buffer_offset \<ge> buffer_size - 1 then
            do { dynamic_buffer_size \<leftarrow> int32 (buffer_offset + 2); Some (Inl dynamic_buffer_size) }
          else if buffer_offset < 1 then None
          else
            let (buffer, buffer_offset) =
                  (if buffer ! nat (buffer_offset - 1) \<noteq> 10
                   then (buffer[nat buffer_offset := 10], buffer_offset + 1)
                   else (buffer, buffer_offset)) in
            if \<not> buffer_offset \<le> buffer_size then None
            else Some (Inr (take (nat buffer_offset) buffer))
        })"

text \<open>
  \<open>stack_buffer\<close> and the function \<open>dynamic_buffer\<close> give the contents of the buffers before they are used.  What is
  written goes to the end of the file.  In the second turn a buffer that is too small is a failed assertion.
\<close>

definition Logv :: "bytes \<Rightarrow> (int \<Rightarrow> bytes) \<Rightarrow> log_time \<Rightarrow> bytes \<Rightarrow> bytes \<Rightarrow> bytes \<Rightarrow> bytes option" where
  "Logv stack_buffer dynamic_buffer t thread_id msg fp =
     (let header = log_header t (take kMaxThreadIdSize thread_id) in
      do {
        r \<leftarrow> Logv_iteration (int kStackBufferSize) stack_buffer header msg;
        case r of
          Inr out \<Rightarrow> Some (fp @ out)
        | Inl dynamic_buffer_size \<Rightarrow>
            do {
              r \<leftarrow> Logv_iteration dynamic_buffer_size (dynamic_buffer dynamic_buffer_size) header msg;
              case r of Inr out \<Rightarrow> Some (fp @ out) | Inl _ \<Rightarrow> None
            }
      })"


section \<open>One turn\<close>

lemma length_pad0: "n < 10 ^ w \<Longrightarrow> 0 < w \<Longrightarrow> length (pad0 w n) = w"
  using length_decimal [of n w] by (simp add: pad0_def Let_def)

definition log_time_ok :: "log_time \<Rightarrow> bool" where
  "log_time_ok t \<longleftrightarrow> tm_year t + 1900 < 10000 \<and> tm_mon t < 12 \<and> tm_mday t \<le> 31 \<and> tm_hour t \<le> 23 \<and> tm_min t \<le> 59
     \<and> tm_sec t \<le> 60 \<and> tv_usec t < 1000000"

lemma length_log_header:
  assumes "log_time_ok t" "length thread_id \<le> kMaxThreadIdSize"
  shows "0 < length (log_header t thread_id)" "length (log_header t thread_id) \<le> 28 + kMaxThreadIdSize"
  using assms length_pad0 [of "tm_year t + 1900" 4] length_pad0 [of "tm_mon t + 1" 2] length_pad0 [of "tm_mday t" 2]
    length_pad0 [of "tm_hour t" 2] length_pad0 [of "tm_min t" 2] length_pad0 [of "tm_sec t" 2] length_pad0 [of "tv_usec t" 6]
  by (simp_all add: log_header_def log_time_ok_def)

definition log_line :: "bytes \<Rightarrow> bytes" where
  "log_line s = (if last s = 10 then s else s @ [10])"



text \<open>A message that \<open>snprintf\<close> cannot count is dropped, and the last character of the header with it.\<close>

lemma log_message_too_long:
  assumes "log_time_ok t" and "length stack_buffer = kStackBufferSize" and "2 ^ 31 \<le> length msg"
  shows "Logv stack_buffer dynamic_buffer t thread_id msg fp
      = Some (fp @ log_line (butlast (log_header t (take kMaxThreadIdSize thread_id))))"
proof -
  define header where "header = log_header t (take kMaxThreadIdSize thread_id)"
  have h: "length header \<le> 60" "2 \<le> length header"
    using length_log_header [OF assms(1), of "take kMaxThreadIdSize thread_id"]
    by (simp_all add: header_def kMaxThreadIdSize_def log_header_def)
  let ?h = "length header"
  obtain b2 where print: "snprintf_at stack_buffer 0 512 header = (write_at 0 (header @ [0]) stack_buffer, int ?h)"
    "snprintf_at (write_at 0 (header @ [0]) stack_buffer) (int ?h) (512 - int ?h) msg = (header @ b2, -1)"
    and b2: "b2 \<noteq> []"
    using h assms(2,3) that [of "take (512 - ?h - 1) msg @ [0]"]
    by (simp add: snprintf_at_def write_at_def kStackBufferSize_def nat_diff_distrib)
  have nats: "nat (int ?h - 1) = ?h - 1" "nat (int ?h - 2) = ?h - 2" "nat (int ?h - 1 + 1) = ?h"
    using h by auto
  have less: "?h - 2 < ?h" using h by linarith
  have "butlast header \<noteq> []" using h unfolding length_greater_0_conv [symmetric] by simp
  from last_conv_nth [OF this] have "last (butlast header) = butlast header ! (?h - 1 - 1)" by simp
  also have "\<dots> = header ! (?h - 2)" using h nth_butlast [of "?h - 2" header] by (simp add: numeral_2_eq_2)
  finally have last: "(header @ b2) ! (?h - 2) = last (butlast header)"
    using nth_append_left [OF less] by simp
  have keep: "take (?h - 1) (header @ b2) = butlast header" by (simp add: butlast_conv_take)
  have upd: "take ?h ((header @ b2)[?h - 1 := 10]) = butlast header @ [10]"
    using h by (cases header rule: rev_cases) simp_all
  have "Logv_iteration 512 stack_buffer header msg = Some (Inr (log_line (butlast header)))"
    unfolding Logv_iteration_def Let_def print prod.case
    using h last keep upd by (simp add: int32_def nats log_line_def kMaxThreadIdSize_def)
  then show ?thesis by (simp add: Logv_def kStackBufferSize_def flip: header_def)
qed

section \<open>Properties\<close>



end
