(* ===== verification/Options.thy ===== *)
theory Options
  imports Prelude
begin

text \<open>
  The settings of a database (\<open>options/options.h\<close>).  The default member initialisers are those of
  the struct; \<open>comparator\<close> and \<open>env\<close> have none and are the arguments here, as the definition of the
  constructor that would set them is commented out (\<open>options/options.cpp\<close>).  Pointers to a logger, a
  cache and a filter policy are values of their types or null.
\<close>

record ('cmp, 'env, 'logger, 'cache, 'filter) Options =
  op_comparator :: 'cmp
  op_create_if_missing :: bool
  op_error_if_exists :: bool
  op_paranoid_checks :: bool
  op_env :: 'env
  op_info_log :: "'logger option"
  op_write_buffer_size :: u64
  op_max_open_files :: "32 word"
  op_block_cache :: "'cache option"
  op_block_size :: u64
  op_block_restart_interval :: "32 word"
  op_max_file_size :: u64
  op_reuse_logs :: bool
  op_filter_policy :: "'filter option"

definition Options_new :: "'cmp \<Rightarrow> 'env \<Rightarrow> ('cmp, 'env, 'logger, 'cache, 'filter) Options" where
  "Options_new comparator env =
     \<lparr>op_comparator = comparator, op_create_if_missing = False, op_error_if_exists = False,
      op_paranoid_checks = False, op_env = env, op_info_log = None,
      op_write_buffer_size = 4 * 1024 * 1024, op_max_open_files = 1000, op_block_cache = None,
      op_block_size = 4 * 1024, op_block_restart_interval = 16, op_max_file_size = 2 * 1024 * 1024,
      op_reuse_logs = False, op_filter_policy = None\<rparr>"

text \<open>The sizes are products of \<open>int\<close> constants: none of them overflows before the conversion.\<close>

lemma Options_sizes:
  "uint (op_write_buffer_size (Options_new c e)) = 4194304" "uint (op_block_size (Options_new c e)) = 4096"
  "uint (op_max_file_size (Options_new c e)) = 2097152"
  by (simp_all add: Options_new_def)

end
