(* ===== verification/Interfaces.thy ===== *)
theory Interfaces
  imports Db_Format Bloom
begin

text \<open>
  The objects behind the interfaces \<open>Comparator\<close> (\<open>comparator/comparator.h\<close>) and \<open>FilterPolicy\<close>
  (\<open>filter_policy/filter_policy.h\<close>), as records of their virtual functions, and the one comparator object of
  the program, which \<open>BytewiseComparator()\<close> makes at its first call and keeps in a \<open>NoDestructor\<close>
  (\<open>util/no_destructor.h\<close>).
\<close>

section \<open>Comparators\<close>

text \<open>\<open>None\<close> is a failed assertion.  The two last functions change their argument, here the result.  A comparison
  has a result of type \<open>'r\<close>: a number for a user's comparator, which has no assertion there, and a number or a failed
  assertion for an internal key comparator.\<close>

record 'r comparator_obj =
  co_Compare :: "bytes \<Rightarrow> bytes \<Rightarrow> 'r"
  co_Name :: bytes
  co_FindShortestSeparator :: "bytes \<Rightarrow> bytes \<Rightarrow> bytes option"
  co_FindShortSuccessor :: "bytes \<Rightarrow> bytes option"

definition BytewiseComparatorImpl :: "int comparator_obj" where
  "BytewiseComparatorImpl =
     \<lparr>co_Compare = Bytewise_Compare, co_Name = Bytewise_Name,
      co_FindShortestSeparator = Bytewise_FindShortestSeparator,
      co_FindShortSuccessor = (\<lambda>key. Some (Bytewise_FindShortSuccessor key))\<rparr>"

text \<open>An internal key comparator is a comparator that keeps the user's.\<close>

record InternalKeyComparator = "int option comparator_obj" +
  ic_user_comparator :: "int comparator_obj"

definition InternalKeyComparator_new :: "int comparator_obj \<Rightarrow> InternalKeyComparator" where
  "InternalKeyComparator_new c =
     \<lparr>co_Compare = InternalKeyComparator_Compare (co_Compare c),
      co_Name = InternalKeyComparator_Name,
      co_FindShortestSeparator =
        InternalKeyComparator_FindShortestSeparator (co_Compare c) (co_FindShortestSeparator c),
      co_FindShortSuccessor =
        (\<lambda>key.
           do {
             user_key \<leftarrow> ExtractUserKey key;
             tmp \<leftarrow> co_FindShortSuccessor c user_key;
             InternalKeyComparator_FindShortSuccessor (co_Compare c) (\<lambda>_. tmp) key
           }),
      ic_user_comparator = c\<rparr>"

definition user_comparator :: "InternalKeyComparator \<Rightarrow> int comparator_obj" where
  "user_comparator ic = ic_user_comparator ic"

text \<open>No assertion fails in the shortening functions of a comparator object, on the keys of its kind: all for a
  user's comparator, those of at least eight bytes for an internal key comparator.\<close>

definition never_fails :: "(bytes \<Rightarrow> bool) \<Rightarrow> ('r, 'z) comparator_obj_scheme \<Rightarrow> bool" where
  "never_fails is_key c \<longleftrightarrow>
     (\<forall>start limit. is_key start \<and> is_key limit \<longrightarrow> co_FindShortestSeparator c start limit \<noteq> None)
     \<and> (\<forall>key. is_key key \<longrightarrow> co_FindShortSuccessor c key \<noteq> None)"

lemma bytewise_never_fails: "never_fails (\<lambda>_. True) BytewiseComparatorImpl"
  using bytewise.separator_Some by (auto simp: never_fails_def BytewiseComparatorImpl_def)

lemma internal_never_fails:
  "never_fails (\<lambda>key. 8 \<le> length key) (InternalKeyComparator_new BytewiseComparatorImpl)"
proof -
  have "InternalKeyComparator_FindShortSuccessor Bytewise_Compare
      (\<lambda>_. Bytewise_FindShortSuccessor (user_part key)) key
    = InternalKeyComparator_FindShortSuccessor Bytewise_Compare Bytewise_FindShortSuccessor key" for key
    by (simp add: InternalKeyComparator_FindShortSuccessor_def ExtractUserKey_eq)
  then show ?thesis
    using bytewise.ikc_separator bytewise.ikc_successor
    by (fastforce simp: never_fails_def InternalKeyComparator_new_def BytewiseComparatorImpl_def ExtractUserKey_eq)
qed

section \<open>An instance that is never destroyed\<close>

text \<open>The storage is raw (\<open>None\<close>) or holds a constructed instance.  The defaulted destructor destroys
  the storage, which has no destructor of its own, and so leaves the instance alone.\<close>

record 'a NoDestructor =
  instance_storage :: "'a option"

definition NoDestructor_new :: "'a \<Rightarrow> 'a NoDestructor" where
  "NoDestructor_new instance_value = \<lparr>instance_storage = Some instance_value\<rparr>"

definition NoDestructor_delete :: "'a NoDestructor \<Rightarrow> 'a NoDestructor" where
  "NoDestructor_delete nd = nd"

text \<open>The pointer that \<open>get\<close> returns, followed: \<open>None\<close> is an access to raw storage.\<close>

definition NoDestructor_get :: "'a NoDestructor \<Rightarrow> 'a option" where
  "NoDestructor_get nd = instance_storage nd"

text \<open>The static variable of \<open>BytewiseComparator\<close> is constructed by the first call, and destroyed at the end of
  the program if it was.\<close>

definition BytewiseComparator ::
  "int comparator_obj NoDestructor option \<Rightarrow> int comparator_obj option \<times> int comparator_obj NoDestructor option" where
  "BytewiseComparator singleton =
     (let nd = (case singleton of None \<Rightarrow> NoDestructor_new BytewiseComparatorImpl | Some nd \<Rightarrow> nd) in
      (NoDestructor_get nd, Some nd))"

inductive singleton_reached :: "int comparator_obj NoDestructor option \<Rightarrow> bool" where
  start: "singleton_reached None"
| call: "singleton_reached s \<Longrightarrow> singleton_reached (snd (BytewiseComparator s))"
| at_exit: "singleton_reached s \<Longrightarrow> singleton_reached (map_option NoDestructor_delete s)"

lemma singleton_states:
  assumes "singleton_reached s"
  shows "s = None \<or> s = Some (NoDestructor_new BytewiseComparatorImpl)"
  using assms
  by induction (auto simp: BytewiseComparator_def NoDestructor_delete_def Let_def)

text \<open>The comparator can be used at every time, also by the destructors of other static objects.\<close>

lemma singleton_always_live: "singleton_reached s \<Longrightarrow> fst (BytewiseComparator s) = Some BytewiseComparatorImpl"
  using singleton_states [of s]
  by (auto simp: BytewiseComparator_def NoDestructor_new_def NoDestructor_get_def Let_def)

section \<open>Filter policies\<close>

record filter_policy_obj =
  fo_Name :: bytes
  fo_CreateFilter :: "bytes list \<Rightarrow> bytes \<Rightarrow> bytes"
  fo_KeyMayMatch :: "bytes \<Rightarrow> bytes \<Rightarrow> bool"

definition BloomFilterPolicy_obj :: "BloomFilterPolicy \<Rightarrow> filter_policy_obj" where
  "BloomFilterPolicy_obj p =
     \<lparr>fo_Name = BloomFilterPolicy_Name, fo_CreateFilter = CreateFilter p, fo_KeyMayMatch = KeyMayMatch\<rparr>"

end
