(* ===== verification/Spec2Isabelle.thy ===== *)
theory Spec2Isabelle
  imports Prelude Slice Coding Comparator Status_Objects Logging Db_Format Env_File
    Log_Damage Recovery Write_Batch Rng Skip_List Skip_Readers Arena Mem_Table Batch_Insert Hash Bloom
    Crc32c Sharded_Cache Background File_Locks Env_Util Mem_Iterator Posix_Logger Options Interfaces
begin

text \<open>
  A verification development for level_db_xy, the building blocks of a key-value store in C++ after
  LevelDB.  The sources are under \<open>src/src\<close>; the paths below are relative to that directory.

  \<^bold>\<open>The program.\<close>  A write is a \<open>WriteBatch\<close> of updates.  It is made durable by adding its bytes as one
  record to a write-ahead log (\<open>log_writer\<close>, over a \<open>WritableFile\<close> of the environment) and visible by
  inserting its updates, with consecutive sequence numbers, into a \<open>MemTable\<close>: a skip list of encoded
  entries whose memory comes from an \<open>Arena\<close>.  A lookup makes a \<open>LookupKey\<close> from user key and sequence
  number and seeks it in the skip list; internal keys (\<open>db_format\<close>) order the updates of a key from new to
  old.  After a crash the log is read (\<open>log_reader\<close>, over a \<open>SequentialFile\<close>) and its batches are replayed.
  Beside this path stand the parts for tables on disk: a sharded LRU cache over a hash table, a Bloom
  filter, CRC-32C; and the POSIX environment with its files, locks, limits, logger and background thread.
  The database class that would drive all of this, tables and compaction are not written yet.

  \<^bold>\<open>Theories and the code they model.\<close>
  \<^item> \<open>Prelude\<close>: machine types, byte buffers, and the lemmas on words and lists that are shared.
  \<^item> \<open>Slice\<close> (\<open>data_structure/slice.h\<close>): pointer and size; \<open>slice_bytes\<close> is the string a slice denotes, and
    the other theories use it.  \<open>Coding\<close> (\<open>util/coding\<close>): fixed-width, varint and length-prefixed
    encodings.  \<open>Comparator\<close> (\<open>comparator\<close>): the interface as a locale, \<open>BytewiseComparator\<close>.  \<open>Logging\<close>
    (\<open>log/logging\<close>): escaping and printing.
  \<^item> \<open>Status\<close>, \<open>Status_Objects\<close> (\<open>util/status\<close>): the state array as a value, and the objects with the arrays they
    own on a heap.  Constructor, copy, move and destructor on the heap refine the operations on values.
  \<^item> \<open>Db_Format\<close> (\<open>db_format\<close>): internal keys, their packing, parsing, comparator and separators; lookup keys.  The
    comparator fails the assertion of \<open>ExtractUserKey\<close> on a key of fewer than eight bytes; \<open>internal_compare\<close> is
    its value on the others, and the order of the skip list in \<open>Mem_Table\<close>.
  \<^item> \<open>Env_File\<close> (\<open>WritableFile\<close>, \<open>SequentialFile\<close> of \<open>env/env_posix.cpp\<close>): the two interfaces as locales,
    with the laws that the log relies on, and their interpretation on the buffered POSIX files over a kernel.
  \<^item> \<open>Log_Format\<close>, \<open>Log_Writer\<close>, \<open>Log_Reader\<close>, \<open>Log_Roundtrip\<close>, \<open>Log_Offset\<close>, \<open>Log_Damage\<close> (\<open>log/log_format.h\<close>,
    \<open>log_writer\<close>, \<open>log_reader\<close>): the image of a record at a position is the specification; the writer produces it, the
    reader is proved to invert it, also on a prefix and from an initial offset, to end on every input,
    and to read around a damaged header.
  \<^item> \<open>Write_Batch\<close>, \<open>Batch_Insert\<close> (\<open>write_batch\<close>): the representation of a batch, replay on any handler, and
    the handler that inserts into a memtable.
  \<^item> \<open>Rng\<close> (\<open>algorithm/random.h\<close>), \<open>Skip_List\<close>, \<open>Skip_Concurrent\<close>, \<open>Skip_Readers\<close>
    (\<open>data_structure/skip_list.h\<close>), \<open>Arena\<close> (\<open>memory\<close>), \<open>Mem_Table\<close>, \<open>Mem_Iterator\<close>
    (\<open>data_structure/mem_table\<close>).  The skip list is a heap of nodes with an invariant for the chains of all
    levels; insertion refines ordered insertion into a sequence.  For the readers beside a writer, insertion
    is a machine of single stores and a load returns any value that the memory orders of the code allow.
  \<^item> \<open>Recovery\<close>: the write path and its recovery after a crash, as a theorem about calls of log, batch and memtable;
    there is no definition for the caller, which the repository does not have.
  \<^item> \<open>Iterator\<close> (\<open>iterator\<close>): cleanup functions, the empty iterator, and the interface as a locale, which is
    interpreted on the empty iterator and, in \<open>Mem_Iterator\<close>, on the memtable's.
  \<^item> \<open>Hash\<close>, \<open>Bloom\<close> (\<open>util/hash\<close>, \<open>filter_policy\<close>); \<open>Crc_Tables\<close>, \<open>Crc32c\<close> (\<open>util/crc32c\<close>): the strided
    computation equals the bit-at-a-time one.
  \<^item> \<open>Handle_Table\<close>, \<open>Lru_Cache\<close>, \<open>Lru_Refine\<close>, \<open>Sharded_Cache\<close> (\<open>cache\<close>): handles in an explicit memory, linked
    into hash chains and two circular lists.  The hash table refines a map, one shard refines a
    specification with two lists, and the sharded cache is followed over all sequences of client calls.
  \<^item> \<open>Limiter\<close>, \<open>Background\<close>, \<open>Env_Posix\<close>, \<open>Posix_Fs\<close>, \<open>File_Locks\<close>, \<open>Env_Util\<close>, \<open>Posix_Logger\<close>
    (\<open>env/env_posix.cpp\<close>, \<open>env/env.h\<close>, \<open>env/env.cpp\<close>, \<open>log/posix_logger.h\<close>): the counter of
    resources and the background thread as step relations over all interleavings, the operations of
    \<open>PosixEnv\<close> over the system calls, a file system that fulfils POSIX as a locale, the lock table, the
    interface \<open>Env\<close> as a record of operations with its wrapper and helpers, and the logger.
  \<^item> \<open>Interfaces\<close> (\<open>comparator.h\<close>, \<open>filter_policy.h\<close>, \<open>util/no_destructor.h\<close>): comparators and filter policies as
    objects with virtual functions, and the comparator that is never destroyed.
  \<^item> \<open>Options\<close> (\<open>options\<close>): the settings and their default values.

  \<^bold>\<open>How the code is represented.\<close>  A class is a record of its members, a method a function that returns the
  changed record; exceptions do not occur in the code.  The result \<open>None\<close> of an operation that can fail
  stands for a failed assertion, an access or a \<open>delete\<close> that C++ leaves undefined, or a loop that does not
  end (\<open>partial_function\<close>), so that a theorem that an operation gives \<open>Some\<close> also says that it returns.
  Integers have their width where it matters: words, or numbers with the remainder written out.  Memory that
  the code shares or frees is explicit: skip list nodes, cache handles, cleanup nodes and status arrays have
  addresses.  What is not in the repository is a parameter with its documented behaviour as a hypothesis: the
  kernel (\<open>kernel_write\<close>, \<open>kernel_read\<close>, \<open>posix_fs\<close>), the heap (\<open>heap_alloc\<close>, \<open>pick_ok\<close>), user
  comparators (\<open>key_order\<close>, \<open>skip_order\<close>), the library crc32c where the build finds it, tasks and deleters.  Every such locale is interpreted, on a model
  of memory files, of a bump allocator and so on, and the witnesses use these interpretations.

  \<^bold>\<open>What is shown.\<close>
  \<^item> Durability: batches written to a log are recovered after a crash at any byte, up to the last complete
    one; a damaged header costs the rest of its block and a damaged batch the updates behind the damage;
    files written through the environment are read back; a failed flush is reported.
  \<^item> Lookups: over a user comparator that returns 0 on equal keys, the memtable answers with the newest visible
    update and a batch applied is read back; over every lawful one, also the bytewise comparator, a scan of
    the memtable yields its updates in order.  The skip list is sorted and complete for all random heights.
  \<^item> Concurrency: readers beside a writer of the skip list never fail and see a list between two snapshots;
    the limiter keeps its bound under all interleavings of its atomic operations, and the file locks under
    all sequences of calls, each one step; tasks that do not schedule tasks run once, in order, and no
    wake-up is lost.
  \<^item> Memory: arena regions are apart; cache handles stay valid while they are held and every deleter
    is called exactly once; iterator cleanups run once; status arrays are neither leaked nor freed twice.
  \<^item> Encodings and algorithms: round trips of integers, keys, batches and log records; the
    generator, the checksum and the hash table against reference definitions; no false negatives in the
    Bloom filter; eviction in the order of use.
  \<^item> Deviations: with the bytewise comparator, which never returns 0, \<open>MemTable::Get\<close> finds nothing; a record
    of type byte 5 hides the rest of a log; a task that schedules a task blocks the background thread; sums of
    offset and size wrap around; names with NUL bytes are cut.  These are stated as they are in the code.

  \<^bold>\<open>Bounds.\<close>  The hypotheses on sizes are those under which the counters of the code do not wrap: fewer than
  \<open>2 ^ 31\<close> updates in a batch, keys below \<open>2 ^ 32 - 8\<close> bytes, sequence numbers up to \<open>2 ^ 56 - 1\<close>, fewer than
  \<open>2 ^ 31\<close> entries in a shard, log offsets below \<open>2 ^ 62\<close>, lines of the information log below \<open>2 ^ 31\<close> bytes.  No definition of the model takes fuel; the runs
  of the examples take a number of steps.

  \<^bold>\<open>Not modelled.\<close>  \<open>util/thread_annotation.h\<close> and \<open>log/log.h\<close> (macros for the compiler and for output),
  \<open>util/test_util.h\<close> (test matchers), and the placeholders \<open>app/main.cpp\<close>, \<open>block_builder\<close>, \<open>compression\<close> and
  \<open>data_structure/var_int\<close>, which have no operations.  \<open>PosixEnv::StartThread\<close> and \<open>SleepForMicroseconds\<close> only
  call the thread library, and the destructor of \<open>PosixEnv\<close> aborts.  The mutex of a cache shard makes its
  operations atomic; their interleavings are the sequences of calls.  Running out of memory, which would
  throw, is left out.
\<close>

end
